theory Spec2Isabelle
  imports Main "HOL-Library.Sublist" "HOL-Library.AList"
begin

section \<open>FamilySearch to GEDCOM converter: strings\<close>

text \<open>
  The converter (\<^verbatim>\<open>gedcom-converter.ts\<close>) works on JavaScript strings. They are modelled
  as \<^typ>\<open>string\<close>, one \<^typ>\<open>char\<close> per code unit. A JavaScript value that may be
  \<^verbatim>\<open>undefined\<close> is an \<^typ>\<open>'a option\<close>.
\<close>

text \<open>Truthiness of an optional string: \<^verbatim>\<open>undefined\<close> and the empty string are falsy.\<close>

definition truthy :: "string option \<Rightarrow> bool" where
  "truthy v = (case v of None \<Rightarrow> False | Some s \<Rightarrow> s \<noteq> [])"

text \<open>\<^verbatim>\<open>a || b\<close> on optional strings.\<close>

definition orElse :: "string option \<Rightarrow> string option \<Rightarrow> string option" where
  "orElse a b = (if truthy a then a else b)"

text \<open>\<^verbatim>\<open>s.includes(pat)\<close>: \<open>pat\<close> occurs in \<open>s\<close> as a contiguous substring.\<close>

fun strIncludes :: "string \<Rightarrow> string \<Rightarrow> bool" where
  "strIncludes [] pat = (pat = [])"
| "strIncludes (c # cs) pat = (prefix pat (c # cs) \<or> strIncludes cs pat)"

text \<open>\<^verbatim>\<open>v?.includes(pat)\<close> used as a condition.\<close>

definition optIncludes :: "string option \<Rightarrow> string \<Rightarrow> bool" where
  "optIncludes v pat = (case v of None \<Rightarrow> False | Some s \<Rightarrow> strIncludes s pat)"

text \<open>\<^verbatim>\<open>xs.join(sep)\<close>.\<close>

fun join :: "string \<Rightarrow> string list \<Rightarrow> string" where
  "join sep [] = []"
| "join sep [x] = x"
| "join sep (x # y # ys) = x @ sep @ join sep (y # ys)"

text \<open>Decimal rendering of a number inside a template literal.\<close>

definition digitChar :: "nat \<Rightarrow> char" where
  "digitChar d = char_of (48 + d)"

function showNat :: "nat \<Rightarrow> string" where
  "showNat n = (if n < 10 then [digitChar n] else showNat (n div 10) @ [digitChar (n mod 10)])"
  by pat_completeness auto
termination
  by (relation "measure id") auto

declare showNat.simps [simp del]

definition showInt :: "int \<Rightarrow> string" where
  "showInt i = (if i < 0 then CHR ''-'' # showNat (nat (- i)) else showNat (nat i))"

text \<open>
  The default \<^verbatim>\<open>Array.prototype.sort()\<close> compares strings by code units; on a
  two-element array it swaps exactly when the second is smaller than the first.
\<close>

fun strLess :: "string \<Rightarrow> string \<Rightarrow> bool" where
  "strLess [] [] = False"
| "strLess [] (y # ys) = True"
| "strLess (x # xs) [] = False"
| "strLess (x # xs) (y # ys) = ((of_char x :: nat) < of_char y \<or> (x = y \<and> strLess xs ys))"

definition sortPair :: "string \<Rightarrow> string \<Rightarrow> string list" where
  "sortPair a b = (if strLess b a then [b, a] else [a, b])"

text \<open>\<^verbatim>\<open>s.replace(/^(-|\+)/, "")\<close>: one leading sign is removed.\<close>

fun stripSign :: "string \<Rightarrow> string" where
  "stripSign [] = []"
| "stripSign (c # cs) = (if c = CHR ''-'' \<or> c = CHR ''+'' then cs else c # cs)"

text \<open>\<^verbatim>\<open>s.replace(/\n/g, " ")\<close>.\<close>

definition replaceNewlines :: "string \<Rightarrow> string" where
  "replaceNewlines s = map (\<lambda>c. if c = CHR 0x0A then CHR '' '' else c) s"

text \<open>\<^verbatim>\<open>s.trim()\<close>: white space and line terminators are removed at both ends.\<close>

definition isSpace :: "char \<Rightarrow> bool" where
  "isSpace c = (c \<in> set [CHR 0x09, CHR 0x0A, CHR 0x0B, CHR 0x0C, CHR 0x0D, CHR 0x20, CHR 0xA0])"

definition trim :: "string \<Rightarrow> string" where
  "trim s = rev (dropWhile isSpace (rev (dropWhile isSpace s)))"

section \<open>URL rewriting\<close>

text \<open>The character class \<^verbatim>\<open>[^/?]\<close>.\<close>

definition notSlashQ :: "char \<Rightarrow> bool" where
  "notSlashQ c = (c \<noteq> CHR ''/'' \<and> c \<noteq> CHR ''?'')"

text \<open>
  \<^verbatim>\<open>url.match(/persons\/([^/?]+)/)?.[1]\<close>: the leftmost position where \<^verbatim>\<open>persons/\<close> is
  followed by at least one character of the class; the group is the longest such run.
\<close>

fun matchPersonId :: "string \<Rightarrow> string option" where
  "matchPersonId [] = None"
| "matchPersonId (c # cs) =
     (if prefix ''persons/'' (c # cs) \<and> takeWhile notSlashQ (drop 8 (c # cs)) \<noteq> []
      then Some (takeWhile notSlashQ (drop 8 (c # cs)))
      else matchPersonId cs)"

text \<open>The environment detection shared by both URL transforms.\<close>

definition detectBaseUrl :: "string \<Rightarrow> string" where
  "detectBaseUrl url =
     (if strIncludes url ''integration.familysearch.org'' \<or> strIncludes url ''api-integ.familysearch.org''
      then ''https://integration.familysearch.org''
      else if strIncludes url ''beta.familysearch.org'' \<or> strIncludes url ''apibeta.familysearch.org''
      then ''https://beta.familysearch.org''
      else ''https://www.familysearch.org'')"

definition transformFamilySearchUrl :: "string \<Rightarrow> string" where
  "transformFamilySearchUrl url =
     (if \<not> strIncludes url ''/platform/tree/persons/'' then url
      else case matchPersonId url of
             None \<Rightarrow> url
           | Some personId \<Rightarrow> detectBaseUrl url @ ''/tree/person/'' @ personId)"

text \<open>
  \<^verbatim>\<open>/ark:\/[^/?]+\/[^/?]+/\<close> anchored at the head of a string. The first class must be
  followed by a slash and contains none itself, so it can only match the whole run up to
  the next slash or question mark; the second class is greedy and takes its whole run.
\<close>

definition arkAt :: "string \<Rightarrow> string option" where
  "arkAt s =
     (if \<not> prefix ''ark:/'' s then None
      else let r = drop 5 s; naan = takeWhile notSlashQ r in
        if naan = [] then None
        else case dropWhile notSlashQ r of
               [] \<Rightarrow> None
             | c # r' \<Rightarrow>
                 if c = CHR ''/'' \<and> takeWhile notSlashQ r' \<noteq> []
                 then Some (''ark:/'' @ naan @ ''/'' @ takeWhile notSlashQ r')
                 else None)"

text \<open>\<^verbatim>\<open>url.match(/ark:\/[^/?]+\/[^/?]+/)\<close>: the leftmost match.\<close>

fun matchArk :: "string \<Rightarrow> string option" where
  "matchArk [] = None"
| "matchArk (c # cs) = (case arkAt (c # cs) of Some m \<Rightarrow> Some m | None \<Rightarrow> matchArk cs)"

definition transformSourceUrl :: "string \<Rightarrow> string" where
  "transformSourceUrl url =
     (if url = [] then url
      else if \<not> strIncludes url ''/platform/'' \<and> strIncludes url ''ark:'' then url
      else case matchArk url of
             None \<Rightarrow> url
           | Some arkId \<Rightarrow> detectBaseUrl url @ ''/'' @ arkId)"

section \<open>Data model\<close>

text \<open>
  The input types of \<^verbatim>\<open>types/index.ts\<close>, as far as the converter reads them. An optional
  field is an \<^typ>\<open>'a option\<close>. A chain of optional objects that the code only
  reads through \<^verbatim>\<open>?.\<close> is one optional field: \<open>date_formal\<close> is \<^verbatim>\<open>fact.date?.formal\<close>,
  \<open>conclusion_href\<close> is \<^verbatim>\<open>fact.links?.conclusion?.href\<close>, and so on.
\<close>

record ResourceRef =
  resourceId :: "string option"
  resource_resourceId :: "string option"

record PersonFact =
  fact_type :: "string option"
  date_formal :: "string option"
  date_original :: "string option"
  place_original :: "string option"
  fact_value :: "string option"
  conclusion_href :: "string option"

record NamePart =
  part_type :: "string option"
  part_value :: "string option"

record NameForm =
  fullText :: "string option"
  parts :: "NamePart list option"

record PersonDisplay =
  display_name :: "string option"
  display_gender :: "string option"
  birthDate :: "string option"
  birthPlace :: "string option"
  deathDate :: "string option"
  deathPlace :: "string option"

record Qualifier =
  qualifier_name :: "string option"
  qualifier_value :: "string option"

record SourceReference =
  descriptionId :: "string option"
  qualifiers :: "Qualifier list option"

text \<open>\<open>titles\<close> and \<open>citations\<close> hold the \<^verbatim>\<open>value\<close> of each entry.\<close>

record SourceDescription =
  source_id :: "string option"
  titles :: "string option list option"
  citations :: "string option list option"
  about :: "string option"
  resourceType :: "string option"

text \<open>
  \<open>names\<close> holds the \<^verbatim>\<open>nameForms\<close> of each name, \<open>gender_type\<close> is
  \<^verbatim>\<open>gender?.type\<close>, \<open>person_href\<close> is \<^verbatim>\<open>links?.person?.href\<close>; \<open>identifiers\<close> is the
  object's key/value pairs.
\<close>

record PersonData =
  person_id :: string
  display :: "PersonDisplay option"
  names :: "NameForm list option list option"
  gender_type :: "string option"
  facts :: "PersonFact list option"
  person_href :: "string option"
  identifiers :: "(string \<times> string list) list option"
  sources :: "SourceReference list option"

text \<open>
  \<open>details_facts\<close> is \<^verbatim>\<open>details?.facts\<close>; \<open>details_persons\<close> is \<^verbatim>\<open>details?.persons\<close>, each
  entry reduced to its \<^verbatim>\<open>facts\<close>.
\<close>

record Relationship =
  rel_id :: string
  rel_type :: "string option"
  person1 :: "ResourceRef option"
  person2 :: "ResourceRef option"
  parent2 :: "ResourceRef option"
  rel_facts :: "PersonFact list option"
  details_facts :: "PersonFact list option"
  details_persons :: "PersonFact list option list option"

record ChildAndParentsRelationship =
  cap_id :: string
  cap_parent1 :: "ResourceRef option"
  cap_parent2 :: "ResourceRef option"
  cap_child :: "ResourceRef option"

record PersonWithRelationships =
  fd_persons :: "PersonData list option"
  fd_relationships :: "Relationship list option"
  childAndParentsRelationships :: "ChildAndParentsRelationship list option"
  sourceDescriptions :: "SourceDescription list option"

text \<open>
  \<open>notes_persons\<close> is \<^verbatim>\<open>notes?.persons\<close>: per entry its optional \<^verbatim>\<open>notes\<close> list, per
  note its optional \<^verbatim>\<open>text\<close>.
\<close>

record EnhancedPerson = PersonData +
  fullDetails :: "PersonWithRelationships option"
  notes_persons :: "string option list option list option"

record EnhancedPedigreeData =
  persons :: "EnhancedPerson list option"
  relationships :: "Relationship list option"

datatype Environment = production | beta | integration

record GedcomConversionOptions =
  treeName :: "string option"
  includeLinks :: "bool option"
  includeNotes :: "bool option"
  environment :: "Environment option"
  allowOrphanFamilies :: "bool option"
  ancestryPersonIds :: "string list option"

text \<open>
  The fields of a JavaScript \<^verbatim>\<open>Date\<close> in local time. The converter reads the day of the
  month, the month (0 to 11) and the year; the time of day is there and is not read.
\<close>

record JsDate =
  fullYear :: int
  month :: nat
  dayOfMonth :: nat
  msOfDay :: nat

datatype error = InvalidData string

section \<open>Extractors and fact mapper\<close>

text \<open>\<^verbatim>\<open>v || d\<close> where \<open>d\<close> is a string.\<close>

definition strOr :: "string option \<Rightarrow> string \<Rightarrow> string" where
  "strOr v d = (case v of None \<Rightarrow> d | Some s \<Rightarrow> if s = [] then d else s)"

definition extractName :: "PersonData \<Rightarrow> string option" where
  "extractName person =
     (let fromDisplay =
            (case display person of
               None \<Rightarrow> None
             | Some d \<Rightarrow> if truthy (display_name d) then display_name d else None)
      in case names person of
           Some (Some (nameForm # _) # _) \<Rightarrow>
             (let ps = (case parts nameForm of None \<Rightarrow> [] | Some ps \<Rightarrow> ps);
                  given = (case find (\<lambda>p. optIncludes (part_type p) ''Given'') ps of
                             None \<Rightarrow> [] | Some p \<Rightarrow> strOr (part_value p) []);
                  surname = (case find (\<lambda>p. optIncludes (part_type p) ''Surname'') ps of
                             None \<Rightarrow> [] | Some p \<Rightarrow> strOr (part_value p) [])
              in if given \<noteq> [] \<or> surname \<noteq> [] then Some (trim (given @ '' /'' @ surname @ ''/''))
                 else if truthy (fullText nameForm) then fullText nameForm
                 else fromDisplay)
         | _ \<Rightarrow> fromDisplay)"

definition extractGender :: "PersonData option \<Rightarrow> string option" where
  "extractGender person =
     (case person of
        None \<Rightarrow> None
      | Some p \<Rightarrow>
          if optIncludes (gender_type p) ''Male'' then Some ''M''
          else if optIncludes (gender_type p) ''Female'' then Some ''F''
          else if (case display p of None \<Rightarrow> None | Some d \<Rightarrow> display_gender d) = Some ''Male''
          then Some ''M''
          else if (case display p of None \<Rightarrow> None | Some d \<Rightarrow> display_gender d) = Some ''Female''
          then Some ''F''
          else None)"

datatype FactKind = BIRTH | DEATH

text \<open>The result object of \<^verbatim>\<open>extractFact\<close>: its \<^verbatim>\<open>date\<close> and its \<^verbatim>\<open>place\<close>.\<close>

definition extractFact :: "PersonData \<Rightarrow> FactKind \<Rightarrow> (string option \<times> string option) option" where
  "extractFact person factType =
     (let factTypeUrl = ''http://gedcomx.org/'' @ (if factType = BIRTH then ''Birth'' else ''Death'');
          fct = find (\<lambda>f. fact_type f = Some factTypeUrl)
                   (case facts person of None \<Rightarrow> [] | Some fs \<Rightarrow> fs);
          date0 = (case fct of
                     None \<Rightarrow> None
                   | Some f \<Rightarrow>
                       if truthy (orElse (date_formal f) (date_original f))
                       then map_option stripSign (orElse (date_formal f) (date_original f))
                       else None);
          place0 = (case fct of
                      None \<Rightarrow> None
                    | Some f \<Rightarrow> if truthy (place_original f) then place_original f else None);
          dispDate = (case display person of
                        None \<Rightarrow> None
                      | Some d \<Rightarrow> if factType = BIRTH then birthDate d else deathDate d);
          dispPlace = (case display person of
                         None \<Rightarrow> None
                       | Some d \<Rightarrow> if factType = BIRTH then birthPlace d else deathPlace d);
          date = orElse date0 dispDate;
          place = orElse place0 dispPlace
      in if truthy date \<or> truthy place then Some (date, place) else None)"

definition months :: "string list" where
  "months = [''JAN'', ''FEB'', ''MAR'', ''APR'', ''MAY'', ''JUN'',
             ''JUL'', ''AUG'', ''SEP'', ''OCT'', ''NOV'', ''DEC'']"

text \<open>An index outside the array reads \<^verbatim>\<open>undefined\<close>, which the template prints as such.\<close>

definition formatDateForGedcom :: "JsDate \<Rightarrow> string" where
  "formatDateForGedcom date =
     showNat (dayOfMonth date) @ '' '' @
     (if month date < length months then months ! month date else ''undefined'') @ '' '' @
     showInt (fullYear date)"

text \<open>The own properties of the \<^verbatim>\<open>typeMap\<close> object literal.\<close>

definition typeMap :: "(string \<times> string) list" where
  "typeMap =
     [(''http://gedcomx.org/Burial'', ''BURI''),
      (''http://gedcomx.org/Christening'', ''CHR''),
      (''http://gedcomx.org/Baptism'', ''BAPM''),
      (''http://gedcomx.org/Marriage'', ''MARR''),
      (''http://gedcomx.org/Divorce'', ''DIV''),
      (''http://gedcomx.org/Residence'', ''RESI''),
      (''http://gedcomx.org/Occupation'', ''OCCU''),
      (''http://gedcomx.org/Immigration'', ''IMMI''),
      (''http://gedcomx.org/Emigration'', ''EMIG''),
      (''http://gedcomx.org/Naturalization'', ''NATU''),
      (''http://gedcomx.org/Census'', ''CENS'')]"

text \<open>
  \<^verbatim>\<open>typeMap[fact.type]\<close> also finds what the object inherits from \<^verbatim>\<open>Object.prototype\<close>:
  a function, or the prototype itself for \<^verbatim>\<open>__proto__\<close>. Each is truthy, so the template
  prints it; the text is the one V8 prints.
\<close>

definition inheritedTag :: "string \<Rightarrow> string option" where
  "inheritedTag k =
     (if k = ''constructor'' then Some ''function Object() { [native code] }''
      else if k = ''__proto__'' then Some ''[object Object]''
      else if k \<in> set [''__defineGetter__'', ''__defineSetter__'', ''hasOwnProperty'',
                        ''__lookupGetter__'', ''__lookupSetter__'', ''isPrototypeOf'',
                        ''propertyIsEnumerable'', ''toString'', ''valueOf'', ''toLocaleString'']
      then Some (''function '' @ k @ ''() { [native code] }'')
      else None)"

text \<open>\<^verbatim>\<open>typeMap[fact.type] || "EVEN"\<close>.\<close>

definition gedcomTagOf :: "string \<Rightarrow> string" where
  "gedcomTagOf t =
     (case map_of typeMap t of
        Some tag \<Rightarrow> tag
      | None \<Rightarrow> (case inheritedTag t of Some tag \<Rightarrow> tag | None \<Rightarrow> ''EVEN''))"

definition convertFactToGedcom :: "PersonFact \<Rightarrow> string list" where
  "convertFactToGedcom fct =
     (if \<not> truthy (fact_type fct) then []
      else let gedcomTag = gedcomTagOf (the (fact_type fct)) in
        (if gedcomTag = ''OCCU'' \<and> truthy (fact_value fct)
         then [''1 OCCU '' @ the (fact_value fct)]
         else [''1 '' @ gedcomTag]) @
        (if truthy (conclusion_href fct)
         then [''2 _FS_LINK '' @ transformFamilySearchUrl (the (conclusion_href fct))]
         else []) @
        (if truthy (orElse (date_formal fct) (date_original fct))
         then [''2 DATE '' @ stripSign (the (orElse (date_formal fct) (date_original fct)))]
         else []) @
        (if truthy (place_original fct) then [''2 PLAC '' @ the (place_original fct)] else []) @
        (if truthy (fact_value fct) \<and> gedcomTag \<noteq> ''OCCU''
         then [''2 NOTE '' @ the (fact_value fct)]
         else []))"

section \<open>Containers\<close>

text \<open>
  A JavaScript \<^verbatim>\<open>Map\<close> with string keys is an association list in insertion order:
  \<^verbatim>\<open>get\<close> is \<^const>\<open>map_of\<close>, \<^verbatim>\<open>set\<close> is \<^const>\<open>AList.update\<close> (an existing key keeps its
  place, a new key goes to the end). A \<^verbatim>\<open>Set\<close> is the list of its elements in insertion
  order.
\<close>

definition mapHas :: "(string \<times> 'v) list \<Rightarrow> string \<Rightarrow> bool" where
  "mapHas m k = (map_of m k \<noteq> None)"

definition setAdd :: "string list \<Rightarrow> string \<Rightarrow> string list" where
  "setAdd s x = (if x \<in> set s then s else s @ [x])"

text \<open>\<^verbatim>\<open>new Set(xs)\<close>.\<close>

definition newSet :: "string list \<Rightarrow> string list" where
  "newSet xs = foldl setAdd [] xs"

text \<open>\<^verbatim>\<open>xs.findIndex(p)\<close> and \<^verbatim>\<open>xs.indexOf(x)\<close>, with \<open>None\<close> for -1.\<close>

fun findIndex :: "('a \<Rightarrow> bool) \<Rightarrow> 'a list \<Rightarrow> nat option" where
  "findIndex P [] = None"
| "findIndex P (x # xs) = (if P x then Some 0 else map_option Suc (findIndex P xs))"

definition indexOf :: "'a list \<Rightarrow> 'a \<Rightarrow> nat option" where
  "indexOf xs x = findIndex (\<lambda>y. y = x) xs"

text \<open>\<^verbatim>\<open>xs.splice(i, 0, x)\<close>.\<close>

definition insertAt :: "nat \<Rightarrow> 'a \<Rightarrow> 'a list \<Rightarrow> 'a list" where
  "insertAt i x xs = take i xs @ [x] @ drop i xs"

section \<open>Sources and person identifiers\<close>

definition personSourceDescriptions :: "EnhancedPerson \<Rightarrow> SourceDescription list" where
  "personSourceDescriptions person =
     (case fullDetails person of
        None \<Rightarrow> []
      | Some fd \<Rightarrow> (case sourceDescriptions fd of None \<Rightarrow> [] | Some sds \<Rightarrow> sds))"

definition collectSource ::
  "(string \<times> SourceDescription) list \<Rightarrow> SourceDescription \<Rightarrow> (string \<times> SourceDescription) list" where
  "collectSource sourceMap source =
     (if truthy (source_id source) \<and> \<not> mapHas sourceMap (the (source_id source))
      then sourceMap @ [(the (source_id source), source)]
      else sourceMap)"

definition buildSourceMap :: "EnhancedPerson list \<Rightarrow> (string \<times> SourceDescription) list" where
  "buildSourceMap ps =
     foldl (\<lambda>sourceMap person. foldl collectSource sourceMap (personSourceDescriptions person)) [] ps"

definition sourceRecord :: "nat \<Rightarrow> SourceDescription \<Rightarrow> string list" where
  "sourceRecord sourceCounter source =
     [''0 @S'' @ showNat sourceCounter @ ''@ SOUR''] @
     [''1 TITL '' @ strOr (case titles source of Some (t # _) \<Rightarrow> t | _ \<Rightarrow> None) ''FamilySearch Source''] @
     (case citations source of
        Some (c # _) \<Rightarrow> if truthy c then [''1 TEXT '' @ the c] else []
      | _ \<Rightarrow> []) @
     (if truthy (about source) then [''1 WWW '' @ transformSourceUrl (the (about source))] else []) @
     (if truthy (resourceType source)
      then [''1 NOTE Resource Type: '' @ the (resourceType source)] else [])"

text \<open>The loop over the source map, with \<^verbatim>\<open>sourceCounter++\<close> as the first argument.\<close>

fun sourceRecords :: "nat \<Rightarrow> (string \<times> SourceDescription) list \<Rightarrow> string list" where
  "sourceRecords sourceCounter [] = []"
| "sourceRecords sourceCounter ((k, source) # rest) =
     sourceRecord sourceCounter source @ sourceRecords (Suc sourceCounter) rest"

text \<open>The person map: \<^verbatim>\<open>@I<index + 1>@\<close> by position in the input list.\<close>

fun buildPersonIdMap ::
  "nat \<Rightarrow> EnhancedPerson list \<Rightarrow> (string \<times> string) list \<Rightarrow> (string \<times> string) list" where
  "buildPersonIdMap index [] personIdMap = personIdMap"
| "buildPersonIdMap index (person # rest) personIdMap =
     buildPersonIdMap (Suc index) rest
       (AList.update (person_id person) (''@I'' @ showNat (index + 1) @ ''@'') personIdMap)"

section \<open>Relationship aggregator\<close>

text \<open>Push unless a relationship with the same id is already in the list.\<close>

definition pushIfNew :: "Relationship list \<Rightarrow> Relationship \<Rightarrow> Relationship list" where
  "pushIfNew allRelationships rel =
     (if list_ex (\<lambda>r. rel_id r = rel_id rel) allRelationships then allRelationships
      else allRelationships @ [rel])"

definition mkRef :: "ResourceRef \<Rightarrow> ResourceRef" where
  "mkRef r = \<lparr>resourceId = resourceId r, resource_resourceId = None\<rparr>"

definition parentChildRel ::
  "string \<Rightarrow> ResourceRef \<Rightarrow> ResourceRef \<Rightarrow> ResourceRef option \<Rightarrow> Relationship" where
  "parentChildRel rid parent child coParent =
     \<lparr>rel_id = rid, rel_type = Some ''http://gedcomx.org/ParentChild'',
      person1 = Some (mkRef parent), person2 = Some (mkRef child),
      parent2 = map_option mkRef coParent,
      rel_facts = None, details_facts = None, details_persons = None\<rparr>"

definition addChildAndParents ::
  "Relationship list \<Rightarrow> ChildAndParentsRelationship \<Rightarrow> Relationship list" where
  "addChildAndParents allRelationships capRel =
     (let all1 =
            (case (cap_parent1 capRel, cap_child capRel) of
               (Some p1, Some ch) \<Rightarrow>
                 pushIfNew allRelationships
                   (parentChildRel (cap_id capRel @ ''-p1'') p1 ch (cap_parent2 capRel))
             | _ \<Rightarrow> allRelationships)
      in case (cap_parent2 capRel, cap_child capRel) of
           (Some p2, Some ch) \<Rightarrow>
             pushIfNew all1 (parentChildRel (cap_id capRel @ ''-p2'') p2 ch (cap_parent1 capRel))
         | _ \<Rightarrow> all1)"

definition personRelationships :: "EnhancedPerson \<Rightarrow> Relationship list" where
  "personRelationships person =
     (case fullDetails person of
        None \<Rightarrow> []
      | Some fd \<Rightarrow> (case fd_relationships fd of None \<Rightarrow> [] | Some rs \<Rightarrow> rs))"

definition childAndParentsRels :: "EnhancedPerson \<Rightarrow> ChildAndParentsRelationship list" where
  "childAndParentsRels person =
     (case fullDetails person of
        None \<Rightarrow> []
      | Some fd \<Rightarrow> (case childAndParentsRelationships fd of None \<Rightarrow> [] | Some cs \<Rightarrow> cs))"

definition addPersonRelationships :: "Relationship list \<Rightarrow> EnhancedPerson \<Rightarrow> Relationship list" where
  "addPersonRelationships allRelationships person =
     foldl addChildAndParents
       (foldl pushIfNew allRelationships (personRelationships person))
       (childAndParentsRels person)"

definition collectRelationships ::
  "EnhancedPerson list \<Rightarrow> Relationship list option \<Rightarrow> Relationship list" where
  "collectRelationships ps rels =
     foldl addPersonRelationships (case rels of None \<Rightarrow> [] | Some rs \<Rightarrow> rs) ps"

section \<open>Family graph builder\<close>

record Family =
  spouses :: "string list"
  children :: "string list"

type_synonym ChildToParents = "(string \<times> string list) list"
type_synonym Families = "(string \<times> Family) list"

definition refId :: "ResourceRef option \<Rightarrow> string option" where
  "refId r = (case r of None \<Rightarrow> None | Some x \<Rightarrow> resourceId x)"

definition processRelationship ::
  "string list \<Rightarrow> ChildToParents \<times> Families \<Rightarrow> Relationship \<Rightarrow> ChildToParents \<times> Families" where
  "processRelationship validPersonIds st rel =
     (let childToParents = fst st; families = snd st in
      if optIncludes (rel_type rel) ''ParentChild'' then
        (let parentId = refId (person1 rel); childId = refId (person2 rel);
             parent2Id = refId (parent2 rel)
         in if \<not> truthy parentId \<or> \<not> truthy childId then st
            else if the childId \<notin> set validPersonIds then st
            else let validParents =
                       (if the parentId \<in> set validPersonIds then [the parentId] else []) @
                       (if truthy parent2Id \<and> the parent2Id \<in> set validPersonIds
                        then [the parent2Id] else [])
                 in if length validParents > 0
                    then (AList.update (the childId)
                            (foldl setAdd
                               (case map_of childToParents (the childId) of
                                  None \<Rightarrow> [] | Some parents \<Rightarrow> parents)
                               validParents)
                            childToParents,
                          families)
                    else st)
      else if optIncludes (rel_type rel) ''Couple'' then
        (let p1 = refId (person1 rel); p2 = refId (person2 rel)
         in if \<not> truthy p1 \<or> \<not> truthy p2 then st
            else if the p1 \<in> set validPersonIds \<and> the p2 \<in> set validPersonIds
            then (let famKey = join ''-'' (sortPair (the p1) (the p2))
                  in if \<not> mapHas families famKey
                     then (childToParents,
                           families @ [(famKey, \<lparr>spouses = newSet [the p1, the p2], children = []\<rparr>)])
                     else st)
            else st)
      else st)"

text \<open>\<^verbatim>\<open>families.get(famKey)!.children.push(childId)\<close>.\<close>

definition pushChild :: "string \<Rightarrow> string \<Rightarrow> Families \<Rightarrow> Families" where
  "pushChild famKey childId families =
     (case map_of families famKey of
        None \<Rightarrow> families
      | Some family \<Rightarrow>
          AList.update famKey (family\<lparr>children := children family @ [childId]\<rparr>) families)"

definition attachChild :: "Families \<Rightarrow> string \<times> string list \<Rightarrow> Families" where
  "attachChild families entry =
     (let childId = fst entry; parents = snd entry in
      if length parents \<ge> 2 then
        (let famKey = join ''-'' (sortPair (parents ! 0) (parents ! 1))
         in pushChild famKey childId
              (if \<not> mapHas families famKey
               then families @ [(famKey, \<lparr>spouses = newSet (take 2 parents), children = []\<rparr>)]
               else families))
      else if length parents = 1 then
        (let famKey = ''single-'' @ parents ! 0
         in pushChild famKey childId
              (if \<not> mapHas families famKey
               then families @ [(famKey, \<lparr>spouses = newSet [parents ! 0], children = []\<rparr>)]
               else families))
      else families)"

definition buildGraph :: "EnhancedPerson list \<Rightarrow> Relationship list \<Rightarrow> ChildToParents \<times> Families" where
  "buildGraph ps allRelationships =
     (let st = foldl (processRelationship (map person_id ps)) ([], []) allRelationships
      in (fst st, foldl attachChild (snd st) (fst st)))"

section \<open>Connectivity resolver\<close>

text \<open>Step 2: a family with a spouse already in the set adds all its spouses.\<close>

definition addAncestrySpouses :: "Families \<Rightarrow> string list \<Rightarrow> string list" where
  "addAncestrySpouses families connectablePersons =
     foldl (\<lambda>c entry.
              if list_ex (\<lambda>spouseId. spouseId \<in> set c) (spouses (snd entry))
              then foldl setAdd c (spouses (snd entry)) else c)
       connectablePersons families"

text \<open>Step 3a: the state is the set and the \<^verbatim>\<open>addedNewPersons\<close> flag.\<close>

definition addChildrenPass :: "ChildToParents \<Rightarrow> string list \<times> bool \<Rightarrow> string list \<times> bool" where
  "addChildrenPass childToParents st =
     foldl (\<lambda>st entry.
              if list_ex (\<lambda>parentId. parentId \<in> set (fst st)) (snd entry)
              then (if fst entry \<notin> set (fst st) then (fst st @ [fst entry], True) else st)
              else st)
       st childToParents"

text \<open>Step 3b.\<close>

definition addSpousesOf :: "Family \<Rightarrow> string list \<times> bool \<Rightarrow> string list \<times> bool" where
  "addSpousesOf family st =
     (let hasConnectableSpouse = list_ex (\<lambda>spouseId. spouseId \<in> set (fst st)) (spouses family);
          hasConnectableChild = list_ex (\<lambda>childId. childId \<in> set (fst st)) (children family)
      in if hasConnectableSpouse \<or> hasConnectableChild
         then foldl (\<lambda>st spouseId.
                       if spouseId \<notin> set (fst st) then (fst st @ [spouseId], True) else st)
                st (spouses family)
         else st)"

definition addSpousesPass :: "Families \<Rightarrow> string list \<times> bool \<Rightarrow> string list \<times> bool" where
  "addSpousesPass families st = foldl (\<lambda>st entry. addSpousesOf (snd entry) st) st families"

text \<open>One run of the loop body, from \<^verbatim>\<open>addedNewPersons = false\<close> to the size comparison.\<close>

definition expandOnce :: "ChildToParents \<Rightarrow> Families \<Rightarrow> string list \<Rightarrow> string list \<times> bool" where
  "expandOnce childToParents families connectablePersons =
     (let beforeSize = length connectablePersons;
          st = addSpousesPass families (addChildrenPass childToParents (connectablePersons, False));
          afterSize = length (fst st)
      in (fst st, if afterSize > beforeSize then afterSize \<noteq> beforeSize else snd st))"

text \<open>Every identifier a pass can add: the children and the spouses of the graph.\<close>

definition graphPersons :: "ChildToParents \<Rightarrow> Families \<Rightarrow> string set" where
  "graphPersons childToParents families =
     fst ` set childToParents \<union> (\<Union>entry \<in> set families. set (spouses (snd entry)))"

text \<open>
  What one pass does to the set and the flag: the set only grows, by identifiers of \<open>U\<close>;
  the flag is raised exactly when an identifier was added, and is never lowered.
\<close>

definition grows :: "string set \<Rightarrow> string list \<times> bool \<Rightarrow> string list \<times> bool \<Rightarrow> bool" where
  "grows U st st' =
     (set (fst st) \<subseteq> set (fst st') \<and> set (fst st') \<subseteq> set (fst st) \<union> U \<and>
      (snd st' \<longrightarrow> snd st \<or> set (fst st) \<noteq> set (fst st')) \<and>
      (\<not> snd st' \<longrightarrow> fst st' = fst st \<and> \<not> snd st))"

lemma grows_refl: "grows U st st"
  by (simp add: grows_def)

lemma grows_trans:
  assumes "grows U st st1" and "grows V st1 st2"
  shows "grows (U \<union> V) st st2"
proof -
  define A where "A = set (fst st)"
  define B where "B = set (fst st1)"
  define C where "C = set (fst st2)"
  from assms(1) have 1: "A \<subseteq> B" "B \<subseteq> A \<union> U" "snd st1 \<longrightarrow> snd st \<or> A \<noteq> B"
    "\<not> snd st1 \<longrightarrow> fst st1 = fst st \<and> \<not> snd st"
    by (simp_all add: grows_def A_def B_def)
  from assms(2) have 2: "B \<subseteq> C" "C \<subseteq> B \<union> V" "snd st2 \<longrightarrow> snd st1 \<or> B \<noteq> C"
    "\<not> snd st2 \<longrightarrow> fst st2 = fst st1 \<and> \<not> snd st1"
    by (simp_all add: grows_def B_def C_def)
  have a: "A \<subseteq> C" using 1(1) 2(1) by (rule subset_trans)
  have b: "C \<subseteq> A \<union> (U \<union> V)" using 1(2) 2(2) by blast
  have c: "snd st2 \<longrightarrow> snd st \<or> A \<noteq> C"
  proof
    assume "snd st2"
    with 2(3) have "snd st1 \<or> B \<noteq> C" by simp
    then show "snd st \<or> A \<noteq> C"
    proof
      assume "snd st1"
      with 1(3) have "snd st \<or> A \<noteq> B" by simp
      with 1(1) 2(1) show ?thesis by blast
    next
      assume "B \<noteq> C"
      with 1(1) 2(1) have "A \<noteq> C" by blast
      then show ?thesis by simp
    qed
  qed
  have d: "\<not> snd st2 \<longrightarrow> fst st2 = fst st \<and> \<not> snd st"
    using 1(4) 2(4) by simp
  from a b c d show ?thesis
    by (simp add: grows_def A_def B_def C_def)
qed

lemma grows_add: "grows {x} st (if x \<notin> set (fst st) then (fst st @ [x], True) else st)"
proof (cases "x \<in> set (fst st)")
  case True
  have "set (fst st) \<subseteq> insert x (set (fst st))" by (rule subset_insertI)
  with True show ?thesis by (simp add: grows_def)
next
  case False
  then have "set (fst st) \<noteq> insert x (set (fst st))" by blast
  moreover have "set (fst st) \<subseteq> insert x (set (fst st))" by (rule subset_insertI)
  ultimately show ?thesis using False by (simp add: grows_def)
qed

lemma grows_mono: "grows U st st' \<Longrightarrow> U \<subseteq> V \<Longrightarrow> grows V st st'"
  unfolding grows_def by blast

lemma addChildrenPass_grows: "grows (fst ` set ctp) st (addChildrenPass ctp st)"
proof (induction ctp arbitrary: st)
  case Nil
  then show ?case by (simp add: addChildrenPass_def grows_refl)
next
  case (Cons e ctp)
  define st1 where "st1 = (if list_ex (\<lambda>parentId. parentId \<in> set (fst st)) (snd e)
              then (if fst e \<notin> set (fst st) then (fst st @ [fst e], True) else st) else st)"
  have step: "addChildrenPass (e # ctp) st = addChildrenPass ctp st1"
    by (simp add: addChildrenPass_def st1_def)
  have "grows {fst e} st st1"
    unfolding st1_def using grows_add [of "fst e" st] by (simp add: grows_refl)
  from grows_trans [OF this Cons.IH [of st1]] show ?case
    unfolding step by simp
qed

lemma addEach_grows:
  "grows (set xs) st
     (foldl (\<lambda>st spouseId. if spouseId \<notin> set (fst st) then (fst st @ [spouseId], True) else st) st xs)"
proof (induction xs arbitrary: st)
  case Nil
  then show ?case by (simp add: grows_refl)
next
  case (Cons x xs)
  from grows_trans [OF grows_add [of x st] Cons.IH] show ?case by simp
qed

lemma addSpousesOf_grows: "grows (set (spouses fam)) st (addSpousesOf fam st)"
  unfolding addSpousesOf_def Let_def using addEach_grows [of "spouses fam" st]
  by (simp add: grows_refl)

lemma addSpousesPass_grows:
  "grows (\<Union>entry \<in> set fams. set (spouses (snd entry))) st (addSpousesPass fams st)"
proof (induction fams arbitrary: st)
  case Nil
  then show ?case by (simp add: addSpousesPass_def grows_refl)
next
  case (Cons e fams)
  have step: "addSpousesPass (e # fams) st = addSpousesPass fams (addSpousesOf (snd e) st)"
    by (simp add: addSpousesPass_def)
  from grows_trans [OF addSpousesOf_grows Cons.IH] show ?case
    unfolding step by simp
qed

lemma expandOnce_grows:
  "grows (graphPersons ctp fams) (c, False) (expandOnce ctp fams c)"
proof -
  define st2 where "st2 = addSpousesPass fams (addChildrenPass ctp (c, False))"
  have g: "grows (graphPersons ctp fams) (c, False) st2"
    unfolding st2_def graphPersons_def
    by (rule grows_trans [OF addChildrenPass_grows addSpousesPass_grows])
  have "snd (expandOnce ctp fams c) = snd st2"
  proof (cases "snd st2")
    case True
    with g have "set c \<noteq> set (fst st2)" by (simp add: grows_def)
    then show ?thesis
      using True by (auto simp: expandOnce_def Let_def st2_def [symmetric])
  next
    case False
    with g have "fst st2 = c" by (simp add: grows_def)
    then show ?thesis
      using False by (simp add: expandOnce_def Let_def st2_def [symmetric])
  qed
  moreover have "fst (expandOnce ctp fams c) = fst st2"
    by (simp add: expandOnce_def Let_def st2_def)
  ultimately have "expandOnce ctp fams c = st2"
    by (simp add: prod_eq_iff)
  with g show ?thesis by simp
qed

text \<open>
  The \<^verbatim>\<open>while (addedNewPersons)\<close> loop. The flag is true on entry, so the body runs at
  least once; it runs again while a run has added somebody.
\<close>

function expandLoop :: "ChildToParents \<Rightarrow> Families \<Rightarrow> string list \<Rightarrow> string list" where
  "expandLoop childToParents families connectablePersons =
     (if snd (expandOnce childToParents families connectablePersons)
      then expandLoop childToParents families
             (fst (expandOnce childToParents families connectablePersons))
      else fst (expandOnce childToParents families connectablePersons))"
  by pat_completeness auto
termination
proof (relation "measure (\<lambda>(ctp, fams, c). card (graphPersons ctp fams - set c))")
  show "wf (measure (\<lambda>(ctp, fams, c). card (graphPersons ctp fams - set c)))"
    by simp
next
  fix ctp :: ChildToParents and fams :: Families and c :: "string list"
  assume a: "snd (expandOnce ctp fams c)"
  define c' where "c' = fst (expandOnce ctp fams c)"
  have fin: "finite (graphPersons ctp fams)"
    by (simp add: graphPersons_def)
  from expandOnce_grows [of ctp fams c] a
  have "set c \<subseteq> set c'" "set c' \<subseteq> set c \<union> graphPersons ctp fams" "set c \<noteq> set c'"
    by (simp_all add: grows_def c'_def)
  then have "graphPersons ctp fams - set c' \<subset> graphPersons ctp fams - set c"
    by blast
  with fin have "card (graphPersons ctp fams - set c') < card (graphPersons ctp fams - set c)"
    by (simp add: psubset_card_mono)
  then show "((ctp, fams, fst (expandOnce ctp fams c)), (ctp, fams, c))
       \<in> measure (\<lambda>(ctp, fams, c). card (graphPersons ctp fams - set c))"
    by (simp add: c'_def)
qed

text \<open>The fallback without a seed set: everybody in a parent-child attachment.\<close>

definition fallbackConnectable :: "ChildToParents \<Rightarrow> string list" where
  "fallbackConnectable childToParents =
     foldl (\<lambda>c entry. foldl setAdd (setAdd c (fst entry)) (snd entry)) [] childToParents"

definition connectablePersonsOf ::
  "string list option \<Rightarrow> ChildToParents \<Rightarrow> Families \<Rightarrow> string list" where
  "connectablePersonsOf ancestry childToParents families =
     (case ancestry of
        None \<Rightarrow> fallbackConnectable childToParents
      | Some ids \<Rightarrow>
          if length (newSet ids) > 0
          then expandLoop childToParents families
                 (addAncestrySpouses families (foldl setAdd [] ids))
          else fallbackConnectable childToParents)"

section \<open>Orphan detection\<close>

definition anyMemberConnectable :: "string list \<Rightarrow> Family \<Rightarrow> bool" where
  "anyMemberConnectable connectablePersons family =
     (list_ex (\<lambda>spouseId. spouseId \<in> set connectablePersons) (spouses family) \<or>
      list_ex (\<lambda>childId. childId \<in> set connectablePersons) (children family))"

definition orphanFamKeysOf :: "string list \<Rightarrow> Families \<Rightarrow> string list" where
  "orphanFamKeysOf connectablePersons families =
     map fst (filter (\<lambda>entry. \<not> anyMemberConnectable connectablePersons (snd entry)) families)"

text \<open>\<^verbatim>\<open>personToFamKeys\<close>: per person the set of keys of the families it belongs to.\<close>

definition addFamKey ::
  "string \<Rightarrow> (string \<times> string list) list \<Rightarrow> string \<Rightarrow> (string \<times> string list) list" where
  "addFamKey key personToFamKeys personId =
     AList.update personId
       (setAdd (case map_of personToFamKeys personId of None \<Rightarrow> [] | Some ks \<Rightarrow> ks) key)
       personToFamKeys"

definition buildPersonToFamKeys :: "Families \<Rightarrow> (string \<times> string list) list" where
  "buildPersonToFamKeys families =
     foldl (\<lambda>m entry.
              foldl (addFamKey (fst entry))
                (foldl (addFamKey (fst entry)) m (spouses (snd entry)))
                (children (snd entry)))
       [] families"

text \<open>The test that skips a person in the INDI loop.\<close>

definition isOrphanPerson ::
  "bool \<Rightarrow> (string \<times> string list) list \<Rightarrow> string list \<Rightarrow> string \<Rightarrow> bool" where
  "isOrphanPerson allowOrphan personToFamKeys orphanFamKeys personId =
     (\<not> allowOrphan \<and>
      (case map_of personToFamKeys personId of
         None \<Rightarrow> False
       | Some famKeys \<Rightarrow>
           length famKeys > 0 \<and> list_all (\<lambda>key. key \<in> set orphanFamKeys) famKeys))"

section \<open>INDI records\<close>

text \<open>\<^verbatim>\<open>person.fullDetails?.persons?.[0] || person\<close>.\<close>

definition personDataOf :: "EnhancedPerson \<Rightarrow> PersonData" where
  "personDataOf person =
     (case fullDetails person of
        None \<Rightarrow> PersonData.truncate person
      | Some fd \<Rightarrow>
          (case fd_persons fd of
             Some (p # _) \<Rightarrow> p
           | _ \<Rightarrow> PersonData.truncate person))"

definition environmentBaseUrl :: "Environment \<Rightarrow> string" where
  "environmentBaseUrl env =
     (if env = beta then ''https://beta.familysearch.org''
      else if env = integration then ''https://integration.familysearch.org''
      else ''https://www.familysearch.org'')"

definition linkLines :: "bool \<Rightarrow> Environment \<Rightarrow> EnhancedPerson \<Rightarrow> string list" where
  "linkLines includeLinks' environment' person =
     (if includeLinks' then
        (let personLink =
               orElse (person_href person)
                 (case identifiers person of
                    None \<Rightarrow> None
                  | Some ids \<Rightarrow>
                      (case map_of ids ''http://gedcomx.org/Persistent'' of
                         Some (u # _) \<Rightarrow> Some u
                       | _ \<Rightarrow> None))
         in if truthy personLink then [''1 _FS_LINK '' @ transformFamilySearchUrl (the personLink)]
            else if person_id person \<noteq> []
            then [''1 _FS_LINK '' @ environmentBaseUrl environment' @ ''/tree/person/'' @ person_id person]
            else [])
      else [])"

definition factLines :: "string \<Rightarrow> (string option \<times> string option) option \<Rightarrow> string list" where
  "factLines tag result =
     (case result of
        None \<Rightarrow> []
      | Some r \<Rightarrow>
          [tag] @
          (if truthy (fst r) then [''2 DATE '' @ the (fst r)] else []) @
          (if truthy (snd r) then [''2 PLAC '' @ the (snd r)] else []))"

definition otherFactLines :: "PersonData \<Rightarrow> string list" where
  "otherFactLines personData =
     concat (map (\<lambda>f. if truthy (fact_type f) \<and> fact_type f \<noteq> Some ''http://gedcomx.org/Birth''
                           \<and> fact_type f \<noteq> Some ''http://gedcomx.org/Death''
                        then convertFactToGedcom f else [])
               (case facts personData of None \<Rightarrow> [] | Some fs \<Rightarrow> fs))"

definition noteLines :: "bool \<Rightarrow> EnhancedPerson \<Rightarrow> string list" where
  "noteLines includeNotes' person =
     (if includeNotes' then
        (case notes_persons person of
           Some (Some ns # _) \<Rightarrow>
             concat (map (\<lambda>note. if truthy note then [''1 NOTE '' @ replaceNewlines (the note)] else []) ns)
         | _ \<Rightarrow> [])
      else [])"

definition qualifierLines :: "SourceReference \<Rightarrow> string list" where
  "qualifierLines sourceRef =
     concat (map (\<lambda>q. if truthy (qualifier_name q) \<and> truthy (qualifier_value q)
                        then [''2 NOTE '' @ the (qualifier_name q) @ '': '' @ the (qualifier_value q)]
                        else [])
               (case qualifiers sourceRef of None \<Rightarrow> [] | Some qs \<Rightarrow> qs))"

definition citationLines :: "(string \<times> SourceDescription) list \<Rightarrow> SourceReference \<Rightarrow> string list" where
  "citationLines sourceMap sourceRef =
     (if \<not> truthy (descriptionId sourceRef) then []
      else case indexOf (map fst sourceMap) (the (descriptionId sourceRef)) of
             None \<Rightarrow> []
           | Some sourceIndex \<Rightarrow>
               [''1 SOUR @S'' @ showNat (sourceIndex + 1) @ ''@''] @ qualifierLines sourceRef)"

definition sourceCitationLines :: "(string \<times> SourceDescription) list \<Rightarrow> PersonData \<Rightarrow> string list" where
  "sourceCitationLines sourceMap personData =
     concat (map (citationLines sourceMap)
               (case sources personData of None \<Rightarrow> [] | Some rs \<Rightarrow> rs))"

definition indiRecord ::
  "bool \<Rightarrow> bool \<Rightarrow> Environment \<Rightarrow> (string \<times> SourceDescription) list \<Rightarrow> string \<Rightarrow>
     EnhancedPerson \<Rightarrow> string list" where
  "indiRecord includeLinks' includeNotes' environment' sourceMap gedcomId person =
     (let personData = personDataOf person in
        [''0 '' @ gedcomId @ '' INDI''] @
        (if person_id person \<noteq> [] then [''1 _FS_ID '' @ person_id person] else []) @
        linkLines includeLinks' environment' person @
        (case extractName personData of None \<Rightarrow> [] | Some name \<Rightarrow> [''1 NAME '' @ name]) @
        (case extractGender (Some personData) of None \<Rightarrow> [] | Some g \<Rightarrow> [''1 SEX '' @ g]) @
        factLines ''1 BIRT'' (extractFact personData BIRTH) @
        factLines ''1 DEAT'' (extractFact personData DEATH) @
        otherFactLines personData @
        noteLines includeNotes' person @
        sourceCitationLines sourceMap personData)"

text \<open>One step of the INDI loop: nothing for a person that is skipped.\<close>

definition indiStep ::
  "bool \<Rightarrow> bool \<Rightarrow> Environment \<Rightarrow> (string \<times> SourceDescription) list \<Rightarrow> (string \<times> string) list \<Rightarrow>
     bool \<Rightarrow> (string \<times> string list) list \<Rightarrow> string list \<Rightarrow> EnhancedPerson \<Rightarrow> string list" where
  "indiStep includeLinks' includeNotes' environment' sourceMap personIdMap allowOrphan
       personToFamKeys orphanFamKeys person =
     (case map_of personIdMap (person_id person) of
        None \<Rightarrow> []
      | Some gedcomId \<Rightarrow>
          if isOrphanPerson allowOrphan personToFamKeys orphanFamKeys (person_id person) then []
          else indiRecord includeLinks' includeNotes' environment' sourceMap gedcomId person)"

section \<open>FAM records\<close>

definition genderOf :: "EnhancedPerson list \<Rightarrow> string \<Rightarrow> string option" where
  "genderOf ps personId =
     extractGender (map_option personDataOf (find (\<lambda>p. person_id p = personId) ps))"

text \<open>\<^verbatim>\<open>r.person1?.resourceId || r.person1?.resource?.resourceId\<close>.\<close>

definition endpointId :: "ResourceRef option \<Rightarrow> string option" where
  "endpointId r =
     (case r of None \<Rightarrow> None | Some x \<Rightarrow> orElse (resourceId x) (resource_resourceId x))"

definition marriageFactsOf :: "Relationship \<Rightarrow> PersonFact list" where
  "marriageFactsOf rel =
     filter (\<lambda>f. optIncludes (fact_type f) ''Marriage'')
       (case rel_facts rel of None \<Rightarrow> [] | Some fs \<Rightarrow> fs) @
     filter (\<lambda>f. optIncludes (fact_type f) ''Marriage'')
       (case details_facts rel of None \<Rightarrow> [] | Some fs \<Rightarrow> fs) @
     concat (map (\<lambda>p. filter (\<lambda>f. optIncludes (fact_type f) ''Marriage'')
                        (case p of None \<Rightarrow> [] | Some fs \<Rightarrow> fs))
               (case details_persons rel of None \<Rightarrow> [] | Some ps \<Rightarrow> ps))"

text \<open>The lines \<^verbatim>\<open>addMarriageFacts\<close> pushes.\<close>

definition addMarriageFacts :: "Relationship list \<Rightarrow> string \<Rightarrow> string \<Rightarrow> string list" where
  "addMarriageFacts rels p1 p2 =
     (let relKey = join ''-'' (sortPair p1 p2) in
      case find (\<lambda>r. let a = endpointId (person1 r); b = endpointId (person2 r)
                      in if \<not> truthy a \<or> \<not> truthy b then False
                         else join ''-'' (sortPair (the a) (the b)) = relKey) rels of
        None \<Rightarrow> []
      | Some rel \<Rightarrow> concat (map convertFactToGedcom (marriageFactsOf rel)))"

text \<open>The HUSB and WIFE lines and, for two spouses, the marriage facts.\<close>

definition spouseLines ::
  "EnhancedPerson list \<Rightarrow> (string \<times> string) list \<Rightarrow> Relationship list \<Rightarrow> string list \<Rightarrow> string list" where
  "spouseLines ps personIdMap allRelationships spouseArray =
     (case spouseArray of
        [p1, p2] \<Rightarrow>
          (let gender1 = genderOf ps p1; gender2 = genderOf ps p2;
               g1 = map_of personIdMap p1; g2 = map_of personIdMap p2
           in (if gender1 = Some ''M'' \<or> gender2 = Some ''F''
               then (case g1 of None \<Rightarrow> [] | Some i \<Rightarrow> [''1 HUSB '' @ i]) @
                    (case g2 of None \<Rightarrow> [] | Some i \<Rightarrow> [''1 WIFE '' @ i])
               else (case g2 of None \<Rightarrow> [] | Some i \<Rightarrow> [''1 HUSB '' @ i]) @
                    (case g1 of None \<Rightarrow> [] | Some i \<Rightarrow> [''1 WIFE '' @ i])) @
              addMarriageFacts allRelationships p1 p2)
      | [p] \<Rightarrow>
          (if genderOf ps p = Some ''M''
           then [''1 HUSB '' @ (case map_of personIdMap p of None \<Rightarrow> ''undefined'' | Some i \<Rightarrow> i)]
           else [''1 WIFE '' @ (case map_of personIdMap p of None \<Rightarrow> ''undefined'' | Some i \<Rightarrow> i)])
      | _ \<Rightarrow> [])"

definition childLines :: "(string \<times> string) list \<Rightarrow> string list \<Rightarrow> string list" where
  "childLines personIdMap cs =
     concat (map (\<lambda>childId. case map_of personIdMap childId of
                               None \<Rightarrow> [] | Some i \<Rightarrow> [''1 CHIL '' @ i]) cs)"

text \<open>
  The checks before a FAM record is written: no parent in the person map, one parent and
  no child, or an orphan family that is not allowed.
\<close>

definition famSuppressed ::
  "(string \<times> string) list \<Rightarrow> string list \<Rightarrow> bool \<Rightarrow> Family \<Rightarrow> bool" where
  "famSuppressed personIdMap connectablePersons allowOrphan family =
     (let parentsInMap = filter (mapHas personIdMap) (spouses family);
          hasNoParents = (length parentsInMap = 0);
          hasSingleParentNoChildren = (length parentsInMap = 1 \<and> length (children family) = 0);
          isOrphanFamily = (\<not> anyMemberConnectable connectablePersons family)
      in hasNoParents \<or> hasSingleParentNoChildren \<or> (isOrphanFamily \<and> \<not> allowOrphan))"

definition famRecord ::
  "EnhancedPerson list \<Rightarrow> (string \<times> string) list \<Rightarrow> Relationship list \<Rightarrow> string list \<Rightarrow> bool \<Rightarrow>
     string \<Rightarrow> Family \<Rightarrow> string list" where
  "famRecord ps personIdMap allRelationships connectablePersons allowOrphan famId family =
     [''0 '' @ famId @ '' FAM''] @
     (if \<not> anyMemberConnectable connectablePersons family \<and> allowOrphan
      then [''1 _IS_ORPHAN_FAMILY Y''] else []) @
     spouseLines ps personIdMap allRelationships (spouses family) @
     childLines personIdMap (children family)"

text \<open>
  The FAM loop. Its state: \<^verbatim>\<open>famIndex\<close>, \<^verbatim>\<open>familyIdMap\<close> and the lines pushed so far by
  the loop.
\<close>

definition famStep ::
  "EnhancedPerson list \<Rightarrow> (string \<times> string) list \<Rightarrow> Relationship list \<Rightarrow> string list \<Rightarrow> bool \<Rightarrow>
     nat \<times> (string \<times> string) list \<times> string list \<Rightarrow> string \<times> Family \<Rightarrow>
     nat \<times> (string \<times> string) list \<times> string list" where
  "famStep ps personIdMap allRelationships connectablePersons allowOrphan st entry =
     (let famIndex = fst st; familyIdMap = fst (snd st); ls = snd (snd st) in
      if famSuppressed personIdMap connectablePersons allowOrphan (snd entry) then st
      else let famId = ''@F'' @ showNat famIndex @ ''@'' in
        (Suc famIndex, AList.update (fst entry) famId familyIdMap,
         ls @ famRecord ps personIdMap allRelationships connectablePersons allowOrphan famId (snd entry)))"

definition famLoop ::
  "EnhancedPerson list \<Rightarrow> (string \<times> string) list \<Rightarrow> Relationship list \<Rightarrow> string list \<Rightarrow> bool \<Rightarrow>
     Families \<Rightarrow> nat \<times> (string \<times> string) list \<times> string list" where
  "famLoop ps personIdMap allRelationships connectablePersons allowOrphan families =
     foldl (famStep ps personIdMap allRelationships connectablePersons allowOrphan) (1, [], []) families"

section \<open>Back-reference splicing\<close>

text \<open>The family key under which a child with these parents was attached.\<close>

definition famKeyOfParents :: "string list \<Rightarrow> string option" where
  "famKeyOfParents parents =
     (if length parents \<ge> 2 then Some (join ''-'' (sortPair (parents ! 0) (parents ! 1)))
      else if length parents = 1 then Some (''single-'' @ parents ! 0)
      else None)"

definition famcStep ::
  "(string \<times> string) list \<Rightarrow> (string \<times> string) list \<Rightarrow> string list \<Rightarrow> string \<times> string list \<Rightarrow>
     string list" where
  "famcStep personIdMap familyIdMap ls entry =
     (case map_of personIdMap (fst entry) of
        None \<Rightarrow> ls
      | Some childGedcomId \<Rightarrow>
          (case (case famKeyOfParents (snd entry) of
                   None \<Rightarrow> None | Some famKey \<Rightarrow> map_of familyIdMap famKey) of
             None \<Rightarrow> ls
           | Some famId \<Rightarrow>
               (case findIndex (\<lambda>line. line = ''0 '' @ childGedcomId @ '' INDI'') ls of
                  None \<Rightarrow> ls
                | Some indiRecordIndex \<Rightarrow>
                    insertAt (indiRecordIndex + 1) (''1 FAMC '' @ famId) ls)))"

text \<open>
  The inner \<^verbatim>\<open>while\<close> of the FAMS loop: the number of consecutive lines, from the head
  of the list, that start with \<^verbatim>\<open>1 FAMC\<close>.
\<close>

fun countFamc :: "string list \<Rightarrow> nat" where
  "countFamc [] = 0"
| "countFamc (l # ls) = (if prefix ''1 FAMC'' l then Suc (countFamc ls) else 0)"

definition famsInsert ::
  "(string \<times> string) list \<Rightarrow> string \<Rightarrow> string list \<Rightarrow> string \<Rightarrow> string list" where
  "famsInsert personIdMap famId ls spouseId =
     (case map_of personIdMap spouseId of
        None \<Rightarrow> ls
      | Some spouseGedcomId \<Rightarrow>
          (case findIndex (\<lambda>line. line = ''0 '' @ spouseGedcomId @ '' INDI'') ls of
             None \<Rightarrow> ls
           | Some indiRecordIndex \<Rightarrow>
               insertAt (indiRecordIndex + 1 + countFamc (drop (indiRecordIndex + 1) ls))
                 (''1 FAMS '' @ famId) ls))"

definition famsStep ::
  "(string \<times> string) list \<Rightarrow> (string \<times> string) list \<Rightarrow> string list \<Rightarrow> string \<times> Family \<Rightarrow>
     string list" where
  "famsStep personIdMap familyIdMap ls entry =
     (case map_of familyIdMap (fst entry) of
        None \<Rightarrow> ls
      | Some famId \<Rightarrow> foldl (famsInsert personIdMap famId) ls (spouses (snd entry)))"

text \<open>The FAMC loop over \<^verbatim>\<open>childToParents\<close>, then the FAMS loop over the families.\<close>

definition spliceBackReferences ::
  "(string \<times> string) list \<Rightarrow> (string \<times> string) list \<Rightarrow> ChildToParents \<Rightarrow> Families \<Rightarrow>
     string list \<Rightarrow> string list" where
  "spliceBackReferences personIdMap familyIdMap childToParents families ls =
     foldl (famsStep personIdMap familyIdMap)
       (foldl (famcStep personIdMap familyIdMap) ls childToParents) families"

section \<open>The conversion\<close>

definition headerLines :: "JsDate \<Rightarrow> string \<Rightarrow> string list" where
  "headerLines now treeName' =
     [''0 HEAD'',
      ''1 SOUR FamilySearch'',
      ''2 VERS 1.0'',
      ''2 NAME FamilySearch API'',
      ''1 DEST ANY'',
      ''1 DATE '' @ formatDateForGedcom now,
      ''1 SUBM @SUBM1@'',
      ''1 FILE '' @ treeName',
      ''1 GEDC'',
      ''2 VERS 5.5'',
      ''2 FORM LINEAGE-LINKED'',
      ''1 CHAR UTF-8'',
      ''0 @SUBM1@ SUBM'']"

text \<open>The stages of \<^verbatim>\<open>convertToGedcom\<close>, as functions of its inputs.\<close>

definition personIdMapOf :: "EnhancedPerson list \<Rightarrow> (string \<times> string) list" where
  "personIdMapOf ps = buildPersonIdMap 0 ps []"

definition graphOf :: "EnhancedPerson list \<Rightarrow> Relationship list option \<Rightarrow> ChildToParents \<times> Families" where
  "graphOf ps rels = buildGraph ps (collectRelationships ps rels)"

definition connectableOf ::
  "EnhancedPerson list \<Rightarrow> Relationship list option \<Rightarrow> GedcomConversionOptions \<Rightarrow> string list" where
  "connectableOf ps rels options =
     connectablePersonsOf (ancestryPersonIds options) (fst (graphOf ps rels)) (snd (graphOf ps rels))"

text \<open>\<^verbatim>\<open>options.allowOrphanFamilies === true\<close>.\<close>

definition allowOrphanOf :: "GedcomConversionOptions \<Rightarrow> bool" where
  "allowOrphanOf options = (allowOrphanFamilies options = Some True)"

definition indiLinesOf ::
  "EnhancedPerson list \<Rightarrow> Relationship list option \<Rightarrow> GedcomConversionOptions \<Rightarrow> string list" where
  "indiLinesOf ps rels options =
     concat (map (indiStep
                    (case includeLinks options of None \<Rightarrow> True | Some b \<Rightarrow> b)
                    (case includeNotes options of None \<Rightarrow> True | Some b \<Rightarrow> b)
                    (case environment options of None \<Rightarrow> production | Some e \<Rightarrow> e)
                    (buildSourceMap ps) (personIdMapOf ps) (allowOrphanOf options)
                    (buildPersonToFamKeys (snd (graphOf ps rels)))
                    (orphanFamKeysOf (connectableOf ps rels options) (snd (graphOf ps rels))))
               ps)"

definition famStateOf ::
  "EnhancedPerson list \<Rightarrow> Relationship list option \<Rightarrow> GedcomConversionOptions \<Rightarrow>
     nat \<times> (string \<times> string) list \<times> string list" where
  "famStateOf ps rels options =
     famLoop ps (personIdMapOf ps) (collectRelationships ps rels) (connectableOf ps rels options)
       (allowOrphanOf options) (snd (graphOf ps rels))"

definition convertLines ::
  "JsDate \<Rightarrow> EnhancedPerson list \<Rightarrow> Relationship list option \<Rightarrow> GedcomConversionOptions \<Rightarrow>
     string list" where
  "convertLines now ps rels options =
     spliceBackReferences (personIdMapOf ps) (fst (snd (famStateOf ps rels options)))
       (fst (graphOf ps rels)) (snd (graphOf ps rels))
       (headerLines now (case treeName options of None \<Rightarrow> ''FamilySearch Import'' | Some t \<Rightarrow> t) @
        sourceRecords 1 (buildSourceMap ps) @
        indiLinesOf ps rels options @
        snd (snd (famStateOf ps rels options))) @
     [''0 TRLR'']"

text \<open>
  The input may be missing altogether, or lack its person list: both throw. An empty
  array is truthy in JavaScript and passes the guard.
\<close>

definition convertToGedcom ::
  "JsDate \<Rightarrow> EnhancedPedigreeData option \<Rightarrow> GedcomConversionOptions \<Rightarrow> error + string" where
  "convertToGedcom now pedigreeData options =
     (case pedigreeData of
        None \<Rightarrow> Inl (InvalidData ''Invalid FamilySearch data: no persons found'')
      | Some pd \<Rightarrow>
          (case persons pd of
             None \<Rightarrow> Inl (InvalidData ''Invalid FamilySearch data: no persons found'')
           | Some ps \<Rightarrow> Inr (join [CHR 0x0A] (convertLines now ps (relationships pd) options))))"

section \<open>Example inputs\<close>

text \<open>
  A person with an identifier and nothing else, a relationship of a given type between two
  persons, options that are all absent but for the seed set, and a date in January 2024.
\<close>

definition plainPerson :: "string \<Rightarrow> EnhancedPerson" where
  "plainPerson i = \<lparr>person_id = i, display = None, names = None, gender_type = None, facts = None,
     person_href = None, identifiers = None, sources = None, fullDetails = None, notes_persons = None\<rparr>"

definition plainRel :: "string \<Rightarrow> string \<Rightarrow> string \<Rightarrow> string \<Rightarrow> Relationship" where
  "plainRel i t a b = \<lparr>rel_id = i, rel_type = Some t,
     person1 = Some \<lparr>resourceId = Some a, resource_resourceId = None\<rparr>,
     person2 = Some \<lparr>resourceId = Some b, resource_resourceId = None\<rparr>,
     parent2 = None, rel_facts = None, details_facts = None, details_persons = None\<rparr>"

definition seedOptions :: "string list option \<Rightarrow> GedcomConversionOptions" where
  "seedOptions seed = \<lparr>treeName = None, includeLinks = None, includeNotes = None, environment = None,
     allowOrphanFamilies = None, ancestryPersonIds = seed\<rparr>"

definition dateAt :: "nat \<Rightarrow> nat \<Rightarrow> JsDate" where
  "dateAt d ms = \<lparr>fullYear = 2024, month = 0, dayOfMonth = d, msOfDay = ms\<rparr>"

text \<open>A person with one source description and one reference to it.\<close>

definition sourcedPerson :: "string \<Rightarrow> string \<Rightarrow> EnhancedPerson" where
  "sourcedPerson i s = (plainPerson i)\<lparr>
     sources := Some [\<lparr>descriptionId = Some s, qualifiers = None\<rparr>],
     fullDetails := Some \<lparr>fd_persons = None, fd_relationships = None,
       childAndParentsRelationships = None,
       sourceDescriptions = Some [\<lparr>source_id = Some s, titles = None, citations = None,
         about = None, resourceType = None\<rparr>]\<rparr>\<rparr>"

section \<open>Splicing leaves the head of the document alone\<close>

lemma findIndex_append:
  "\<forall>x\<in>set xs. \<not> P x \<Longrightarrow>
   findIndex P (xs @ ys) = (case findIndex P ys of None \<Rightarrow> None | Some i \<Rightarrow> Some (length xs + i))"
  by (induction xs) (simp_all split: option.splits)

lemma findIndex_append_left:
  "findIndex P xs = Some i \<Longrightarrow> findIndex P (xs @ ys) = Some i"
  by (induction xs arbitrary: i) (auto split: if_splits)

lemma findIndex_less: "findIndex P xs = Some i \<Longrightarrow> i < length xs"
  by (induction xs arbitrary: i) (auto split: if_splits)

lemma findIndex_None: "findIndex P xs = None \<longleftrightarrow> (\<forall>x\<in>set xs. \<not> P x)"
  by (induction xs) auto

lemma insertAt_append: "insertAt (length xs + i) x (xs @ ys) = xs @ insertAt i x ys"
  by (simp add: insertAt_def)

lemma insertAt_append_left: "i \<le> length xs \<Longrightarrow> insertAt i x (xs @ ys) = insertAt i x xs @ ys"
  by (simp add: insertAt_def)

lemma filter_insertAt: "\<not> Q x \<Longrightarrow> filter Q (insertAt i x xs) = filter Q xs"
proof -
  assume "\<not> Q x"
  then have "filter Q (insertAt i x xs) = filter Q (take i xs) @ filter Q (drop i xs)"
    by (simp add: insertAt_def)
  also have "\<dots> = filter Q (take i xs @ drop i xs)" by (simp only: filter_append)
  also have "\<dots> = filter Q xs" by (simp only: append_take_drop_id)
  finally show ?thesis .
qed

text \<open>All identifiers of the person map are of the form \<^verbatim>\<open>@I<n>@\<close>.\<close>

definition indiIds :: "(string \<times> string) list \<Rightarrow> bool" where
  "indiIds personIdMap = (\<forall>k g. map_of personIdMap k = Some g \<longrightarrow> prefix ''@I'' g)"

lemma indiIds_target:
  assumes "indiIds pm" and "map_of pm k = Some g" and "\<forall>l\<in>set pre. \<not> prefix ''0 @I'' l"
  shows "\<forall>l\<in>set pre. \<not> (l = ''0 '' @ g @ '' INDI'')"
proof -
  from assms(1,2) have "prefix ''@I'' g" unfolding indiIds_def by blast
  then have "prefix ''0 @I'' (''0 '' @ g @ '' INDI'')" by (auto simp: prefix_def)
  with assms(3) show ?thesis by blast
qed

text \<open>A splice after the first line that satisfies \<open>P\<close> leaves a prefix without such a line alone.\<close>

lemma splice_prefix:
  assumes "\<forall>l\<in>set pre. \<not> P l"
  shows "(case findIndex P (pre @ ls) of
            None \<Rightarrow> pre @ ls
          | Some i \<Rightarrow> insertAt (i + 1 + k (drop (i + 1) (pre @ ls))) x (pre @ ls)) =
         pre @ (case findIndex P ls of
                  None \<Rightarrow> ls
                | Some i \<Rightarrow> insertAt (i + 1 + k (drop (i + 1) ls)) x ls)"
proof (cases "findIndex P ls")
  case None
  then show ?thesis by (simp add: findIndex_append [OF assms])
next
  case (Some i)
  have "insertAt (length pre + (i + 1 + k (drop (i + 1) ls))) x (pre @ ls) =
        pre @ insertAt (i + 1 + k (drop (i + 1) ls)) x ls"
    by (rule insertAt_append)
  then show ?thesis
    using Some by (simp add: findIndex_append [OF assms] add.assoc)
qed

lemma famcStep_prefix:
  assumes "indiIds pm" and "\<forall>l\<in>set pre. \<not> prefix ''0 @I'' l"
  shows "famcStep pm fm (pre @ ls) e = pre @ famcStep pm fm ls e"
proof (cases "map_of pm (fst e)")
  case None
  then show ?thesis by (simp add: famcStep_def)
next
  case (Some g)
  show ?thesis
  proof (cases "case famKeyOfParents (snd e) of None \<Rightarrow> None | Some famKey \<Rightarrow> map_of fm famKey")
    case None
    with Some show ?thesis by (simp add: famcStep_def)
  next
    case fam: (Some famId)
    define t where "t = ''0 '' @ g @ '' INDI''"
    have u: "famcStep pm fm X e =
        (case findIndex (\<lambda>line. line = t) X of
           None \<Rightarrow> X
         | Some i \<Rightarrow> insertAt (i + 1 + 0) (''1 FAMC '' @ famId) X)" for X
      by (simp add: famcStep_def Some fam t_def split: option.splits)
    have n: "\<forall>l\<in>set pre. \<not> (l = t)"
      unfolding t_def using assms(1) Some assms(2) by (rule indiIds_target)
    show ?thesis
      unfolding u by (rule splice_prefix [of pre "\<lambda>line. line = t" ls "\<lambda>_. 0", OF n])
  qed
qed

lemma famsInsert_prefix:
  assumes "indiIds pm" and "\<forall>l\<in>set pre. \<not> prefix ''0 @I'' l"
  shows "famsInsert pm famId (pre @ ls) s = pre @ famsInsert pm famId ls s"
proof (cases "map_of pm s")
  case None
  then show ?thesis by (simp add: famsInsert_def)
next
  case (Some g)
  define t where "t = ''0 '' @ g @ '' INDI''"
  have u: "famsInsert pm famId X s =
      (case findIndex (\<lambda>line. line = t) X of
         None \<Rightarrow> X
       | Some i \<Rightarrow> insertAt (i + 1 + countFamc (drop (i + 1) X)) (''1 FAMS '' @ famId) X)" for X
    by (simp add: famsInsert_def Some t_def split: option.splits)
  have n: "\<forall>l\<in>set pre. \<not> (l = t)"
    unfolding t_def using assms(1) Some assms(2) by (rule indiIds_target)
  show ?thesis
    unfolding u by (rule splice_prefix [OF n])
qed

lemma famsStep_prefix:
  assumes "indiIds pm" and "\<forall>l\<in>set pre. \<not> prefix ''0 @I'' l"
  shows "famsStep pm fm (pre @ ls) e = pre @ famsStep pm fm ls e"
proof -
  have "foldl (famsInsert pm famId) (pre @ ls) ss = pre @ foldl (famsInsert pm famId) ls ss" for famId ss
    by (induction ss arbitrary: ls) (simp_all add: famsInsert_prefix [OF assms])
  then show ?thesis by (simp add: famsStep_def split: option.splits)
qed

lemma foldl_famcStep_prefix:
  assumes "indiIds pm" and "\<forall>l\<in>set pre. \<not> prefix ''0 @I'' l"
  shows "foldl (famcStep pm fm) (pre @ ls) ctp = pre @ foldl (famcStep pm fm) ls ctp"
  by (induction ctp arbitrary: ls) (simp_all add: famcStep_prefix [OF assms])

lemma foldl_famsStep_prefix:
  assumes "indiIds pm" and "\<forall>l\<in>set pre. \<not> prefix ''0 @I'' l"
  shows "foldl (famsStep pm fm) (pre @ ls) fams = pre @ foldl (famsStep pm fm) ls fams"
  by (induction fams arbitrary: ls) (simp_all add: famsStep_prefix [OF assms])

lemma buildPersonIdMap_ids:
  "indiIds m \<Longrightarrow> indiIds (buildPersonIdMap i ps m)"
proof (induction ps arbitrary: i m)
  case Nil
  then show ?case by simp
next
  case (Cons p ps)
  have "indiIds (AList.update (person_id p) (''@I'' @ showNat (i + 1) @ ''@'') m)"
    using Cons.prems unfolding indiIds_def by (simp add: update_conv')
  then show ?case using Cons.IH by simp
qed

lemma personIdMapOf_ids: "indiIds (personIdMapOf ps)"
  unfolding personIdMapOf_def by (rule buildPersonIdMap_ids) (simp add: indiIds_def)

lemma spliceBackReferences_prefix:
  assumes "indiIds pm" and "\<forall>l\<in>set pre. \<not> prefix ''0 @I'' l"
  shows "spliceBackReferences pm fm ctp fams (pre @ ls) = pre @ spliceBackReferences pm fm ctp fams ls"
  unfolding spliceBackReferences_def
  by (simp add: foldl_famcStep_prefix [OF assms] foldl_famsStep_prefix [OF assms])

lemma headerLines_noIndi: "\<forall>l\<in>set (headerLines now tn). \<not> prefix ''0 @I'' l"
  by (simp add: headerLines_def)

lemma sourceRecord_noIndi: "\<forall>l\<in>set (sourceRecord n src). \<not> prefix ''0 @I'' l"
  by (auto simp: sourceRecord_def split: option.splits list.splits)

lemma sourceRecords_noIndi: "\<forall>l\<in>set (sourceRecords n sm). \<not> prefix ''0 @I'' l"
proof (induction sm arbitrary: n)
  case Nil
  then show ?case by simp
next
  case (Cons e sm)
  obtain k src where e: "e = (k, src)" by (cases e)
  from Cons [of "Suc n"] sourceRecord_noIndi [of n src] show ?case
    unfolding e by (simp add: ball_Un)
qed

lemma convertLines_structure:
  "convertLines now ps rels options =
     headerLines now (case treeName options of None \<Rightarrow> ''FamilySearch Import'' | Some t \<Rightarrow> t) @
     sourceRecords 1 (buildSourceMap ps) @
     spliceBackReferences (personIdMapOf ps) (fst (snd (famStateOf ps rels options)))
       (fst (graphOf ps rels)) (snd (graphOf ps rels))
       (indiLinesOf ps rels options @ snd (snd (famStateOf ps rels options))) @
     [''0 TRLR'']"
proof -
  define pre where "pre = headerLines now (case treeName options of None \<Rightarrow> ''FamilySearch Import'' | Some t \<Rightarrow> t) @
     sourceRecords 1 (buildSourceMap ps)"
  have n: "\<forall>l\<in>set pre. \<not> prefix ''0 @I'' l"
    unfolding pre_def using headerLines_noIndi sourceRecords_noIndi by (simp add: ball_Un)
  have "convertLines now ps rels options =
      spliceBackReferences (personIdMapOf ps) (fst (snd (famStateOf ps rels options)))
        (fst (graphOf ps rels)) (snd (graphOf ps rels))
        (pre @ (indiLinesOf ps rels options @ snd (snd (famStateOf ps rels options)))) @ [''0 TRLR'']"
    by (simp add: convertLines_def pre_def)
  then show ?thesis
    unfolding spliceBackReferences_prefix [OF personIdMapOf_ids n] by (simp add: pre_def)
qed

lemma headerLines_date:
  "headerLines now tn = (headerLines now' tn)[5 := ''1 DATE '' @ formatDateForGedcom now]"
  by (simp add: headerLines_def)

lemma convertLines_date:
  "convertLines now ps rels options =
     (convertLines now' ps rels options)[5 := ''1 DATE '' @ formatDateForGedcom now]"
proof -
  have l: "5 < length (headerLines now' tn)" for tn by (simp add: headerLines_def)
  show ?thesis
    unfolding convertLines_structure
    by (subst headerLines_date [of now _ now']) (simp add: list_update_append l)
qed

section \<open>Error handling and determinism\<close>

text \<open>
  C1: the guard of the converter tests the presence of the person list, not its length.
  On the empty list nothing is thrown, and the text returned is a document of the head,
  the submitter and the trailer.
\<close>

theorem convertToGedcom_empty_list_returns_document:
  "convertToGedcom (dateAt 5 0) (Some \<lparr>persons = Some [], relationships = Some []\<rparr>) (seedOptions None) =
     Inr (join [CHR 0x0A]
       [''0 HEAD'', ''1 SOUR FamilySearch'', ''2 VERS 1.0'', ''2 NAME FamilySearch API'',
        ''1 DEST ANY'', ''1 DATE 5 JAN 2024'', ''1 SUBM @SUBM1@'', ''1 FILE FamilySearch Import'',
        ''1 GEDC'', ''2 VERS 5.5'', ''2 FORM LINEAGE-LINKED'', ''1 CHAR UTF-8'',
        ''0 @SUBM1@ SUBM'', ''0 TRLR''])"
  by code_simp


text \<open>
  C8, as the code has it: the header's DATE line is \<open>formatDateForGedcom\<close> of the current
  date, and nothing else in the output depends on the clock. Two invocations on the same
  input and options give the same text when the calendar date is the same; otherwise the
  two outputs differ in line 5, and only there.
\<close>

theorem output_depends_on_date_only_in_header:
  "convertLines now ps rels options =
     (convertLines now' ps rels options)[5 := ''1 DATE '' @ formatDateForGedcom now] \<and>
   (formatDateForGedcom now = formatDateForGedcom now' \<longrightarrow>
      convertToGedcom now pedigreeData options = convertToGedcom now' pedigreeData options)"
proof
  show "convertLines now ps rels options =
     (convertLines now' ps rels options)[5 := ''1 DATE '' @ formatDateForGedcom now]"
    by (rule convertLines_date)
  show "formatDateForGedcom now = formatDateForGedcom now' \<longrightarrow>
      convertToGedcom now pedigreeData options = convertToGedcom now' pedigreeData options"
  proof
    assume e: "formatDateForGedcom now = formatDateForGedcom now'"
    have "convertLines now qs rs options = convertLines now' qs rs options" for qs rs
    proof -
      have "convertLines now qs rs options =
          (convertLines now' qs rs options)[5 := ''1 DATE '' @ formatDateForGedcom now']"
        unfolding e [symmetric] by (rule convertLines_date)
      also have "\<dots> = convertLines now' qs rs options"
        unfolding convertLines_structure by (simp add: headerLines_def)
      finally show ?thesis .
    qed
    then show "convertToGedcom now pedigreeData options = convertToGedcom now' pedigreeData options"
      by (simp add: convertToGedcom_def split: option.splits)
  qed
qed

theorem output_depends_on_date_only_in_header_witness:
  "convertToGedcom (dateAt 5 0) (Some \<lparr>persons = Some [plainPerson ''P1''], relationships = None\<rparr>)
       (seedOptions None) =
   convertToGedcom (dateAt 5 1000) (Some \<lparr>persons = Some [plainPerson ''P1''], relationships = None\<rparr>)
       (seedOptions None) \<and>
   convertLines (dateAt 6 0) [plainPerson ''P1''] None (seedOptions None) =
     (convertLines (dateAt 5 0) [plainPerson ''P1''] None (seedOptions None))[5 := ''1 DATE 6 JAN 2024'']"
proof -
  have d: "formatDateForGedcom (dateAt 5 0) = formatDateForGedcom (dateAt 5 1000)"
    by (simp add: formatDateForGedcom_def dateAt_def)
  have e: "formatDateForGedcom (dateAt 6 0) = ''6 JAN 2024''"
    by code_simp
  show ?thesis
    using output_depends_on_date_only_in_header [of "dateAt 5 0" "[plainPerson ''P1'']" None
        "seedOptions None" "dateAt 5 1000"
        "Some \<lparr>persons = Some [plainPerson ''P1''], relationships = None\<rparr>"]
      output_depends_on_date_only_in_header [of "dateAt 6 0" "[plainPerson ''P1'']" None
        "seedOptions None" "dateAt 5 0" None]
    unfolding d e by simp
qed

text \<open>
  C8 as stated fails: the same input and options on two different days give two different
  texts.
\<close>

theorem output_depends_on_clock_counterexample:
  "convertToGedcom (dateAt 5 0) (Some \<lparr>persons = Some [], relationships = None\<rparr>) (seedOptions None)
   \<noteq> convertToGedcom (dateAt 6 0) (Some \<lparr>persons = Some [], relationships = None\<rparr>) (seedOptions None)"
  by code_simp


section \<open>Relationship aggregator: merge by identifier\<close>

text \<open>
  The edges a composite child-and-parents record stands for: \<^verbatim>\<open><id>-p1\<close> from parent1 to
  the child with parent2 as co-parent, when parent1 and the child are present, and
  \<^verbatim>\<open><id>-p2\<close> from parent2 to the child with parent1 as co-parent, when parent2 and the
  child are present. What a person's details offer to the merge is the person's
  relationship list followed by the edges of its composite records.
\<close>

definition compositeEdges :: "ChildAndParentsRelationship \<Rightarrow> Relationship list" where
  "compositeEdges capRel =
     (case (cap_parent1 capRel, cap_child capRel) of
        (Some p1, Some ch) \<Rightarrow> [parentChildRel (cap_id capRel @ ''-p1'') p1 ch (cap_parent2 capRel)]
      | _ \<Rightarrow> []) @
     (case (cap_parent2 capRel, cap_child capRel) of
        (Some p2, Some ch) \<Rightarrow> [parentChildRel (cap_id capRel @ ''-p2'') p2 ch (cap_parent1 capRel)]
      | _ \<Rightarrow> [])"

definition detailCandidates :: "EnhancedPerson \<Rightarrow> Relationship list" where
  "detailCandidates person =
     personRelationships person @ concat (map compositeEdges (childAndParentsRels person))"

lemma addChildAndParents_edges:
  "addChildAndParents base capRel = foldl pushIfNew base (compositeEdges capRel)"
  by (simp add: addChildAndParents_def compositeEdges_def Let_def split: option.splits)

lemma foldl_addChildAndParents:
  "foldl addChildAndParents base caps = foldl pushIfNew base (concat (map compositeEdges caps))"
  by (induction caps arbitrary: base) (simp_all add: addChildAndParents_edges)

lemma addPersonRelationships_candidates:
  "addPersonRelationships base person = foldl pushIfNew base (detailCandidates person)"
  by (simp add: addPersonRelationships_def detailCandidates_def foldl_addChildAndParents)

lemma collectRelationships_merge:
  "collectRelationships ps rels =
     foldl pushIfNew (case rels of None \<Rightarrow> [] | Some rs \<Rightarrow> rs) (concat (map detailCandidates ps))"
proof -
  have "foldl addPersonRelationships base ps = foldl pushIfNew base (concat (map detailCandidates ps))"
    for base
    by (induction ps arbitrary: base) (simp_all add: addPersonRelationships_candidates)
  then show ?thesis by (simp add: collectRelationships_def)
qed

lemma find_append:
  "find P (xs @ ys) = (case find P xs of None \<Rightarrow> find P ys | Some x \<Rightarrow> Some x)"
  by (induction xs) simp_all

lemma pushIfNew_find:
  "find (\<lambda>r. rel_id r = i) (pushIfNew base rel) = find (\<lambda>r. rel_id r = i) (base @ [rel])"
proof (cases "list_ex (\<lambda>r. rel_id r = rel_id rel) base")
  case False
  then show ?thesis by (simp add: pushIfNew_def)
next
  case True
  then obtain r where r: "r \<in> set base" "rel_id r = rel_id rel"
    by (auto simp: list_ex_iff)
  show ?thesis
  proof (cases "find (\<lambda>r. rel_id r = i) base")
    case None
    then have "\<forall>x\<in>set base. rel_id x \<noteq> i" by (simp add: find_None_iff)
    with r have "rel_id rel \<noteq> i" by metis
    with True None show ?thesis by (simp add: pushIfNew_def find_append)
  next
    case (Some a)
    with True show ?thesis by (simp add: pushIfNew_def find_append)
  qed
qed

lemma find_append_cong:
  "find P xs = find P ys \<Longrightarrow> find P (xs @ zs) = find P (ys @ zs)"
  by (simp add: find_append)

lemma merge_find:
  "find (\<lambda>r. rel_id r = i) (foldl pushIfNew base cands) = find (\<lambda>r. rel_id r = i) (base @ cands)"
proof (induction cands arbitrary: base)
  case Nil
  then show ?case by simp
next
  case (Cons c cands)
  have "find (\<lambda>r. rel_id r = i) (foldl pushIfNew (pushIfNew base c) cands) =
        find (\<lambda>r. rel_id r = i) (pushIfNew base c @ cands)"
    by (rule Cons.IH)
  also have "\<dots> = find (\<lambda>r. rel_id r = i) ((base @ [c]) @ cands)"
    by (rule find_append_cong) (rule pushIfNew_find)
  finally show ?case by simp
qed

lemma merge_added:
  "\<exists>added. foldl pushIfNew base cands = base @ added \<and> distinct (map rel_id added) \<and>
           set (map rel_id added) \<inter> set (map rel_id base) = {} \<and> set added \<subseteq> set cands"
proof (induction cands arbitrary: base)
  case Nil
  then show ?case by simp
next
  case (Cons c cands)
  show ?case
  proof (cases "list_ex (\<lambda>r. rel_id r = rel_id c) base")
    case True
    then have "pushIfNew base c = base" by (simp add: pushIfNew_def)
    with Cons.IH [of base] show ?thesis by auto
  next
    case False
    then have p: "pushIfNew base c = base @ [c]" and n: "rel_id c \<notin> set (map rel_id base)"
      by (auto simp: pushIfNew_def list_ex_iff)
    from Cons.IH [of "base @ [c]"] obtain added where
      a: "foldl pushIfNew (base @ [c]) cands = (base @ [c]) @ added"
      "distinct (map rel_id added)"
      "set (map rel_id added) \<inter> set (map rel_id (base @ [c])) = {}" "set added \<subseteq> set cands"
      by blast
    have "foldl pushIfNew base (c # cands) = base @ (c # added)"
      using a(1) p by simp
    moreover have "distinct (map rel_id (c # added))"
      using a(2,3) by auto
    moreover have "set (map rel_id (c # added)) \<inter> set (map rel_id base) = {}"
      using a(3) n by auto
    moreover have "set (c # added) \<subseteq> set (c # cands)"
      using a(4) by auto
    ultimately show ?thesis by blast
  qed
qed

lemma merge_ids:
  "rel_id ` set (base @ cands) \<subseteq> rel_id ` set (foldl pushIfNew base cands)"
proof
  fix i assume "i \<in> rel_id ` set (base @ cands)"
  then have "find (\<lambda>r. rel_id r = i) (base @ cands) \<noteq> None"
    by (auto simp: find_None_iff)
  then obtain r where "find (\<lambda>r. rel_id r = i) (foldl pushIfNew base cands) = Some r"
    unfolding merge_find [symmetric] by blast
  then have "r \<in> set (foldl pushIfNew base cands) \<and> rel_id r = i"
    by (auto simp: find_Some_iff)
  then show "i \<in> rel_id ` set (foldl pushIfNew base cands)" by blast
qed

text \<open>
  What the merge appends to a list \<open>base\<close> when \<open>cands\<close> are offered one after the
  other: the candidates, in the order in which they are offered, whose identifier neither
  a relationship of \<open>base\<close> nor an earlier candidate carries.
\<close>

definition newOffers :: "Relationship list \<Rightarrow> Relationship list \<Rightarrow> Relationship list" where
  "newOffers base cands =
     map snd (filter (\<lambda>kr. rel_id (snd kr) \<notin> rel_id ` set base \<and>
                            rel_id (snd kr) \<notin> rel_id ` set (take (fst kr) cands))
                (enumerate 0 cands))"

lemma newOffers_Cons:
  "newOffers base (c # cands) =
     (if rel_id c \<in> rel_id ` set base then newOffers base cands
      else c # newOffers (base @ [c]) cands)"
proof -
  have e: "enumerate 0 (c # cands) = (0, c) # map (apfst Suc) (enumerate 0 cands)"
    by (simp add: enumerate_Suc_eq)
  have m: "map snd (filter P (map (apfst Suc) xs)) = map snd (filter (\<lambda>kr. P (Suc (fst kr), snd kr)) xs)"
    for P and xs :: "(nat \<times> Relationship) list"
    by (induction xs) auto
  show ?thesis
  proof (cases "rel_id c \<in> rel_id ` set base")
    case True
    then have "(rel_id r \<notin> rel_id ` set base \<and> rel_id r \<notin> rel_id ` set (take (Suc k) (c # cands))) =
        (rel_id r \<notin> rel_id ` set base \<and> rel_id r \<notin> rel_id ` set (take k cands))"
      for r :: Relationship and k
      by auto
    with True show ?thesis unfolding newOffers_def e by (simp add: m)
  next
    case False
    have "(rel_id r \<notin> rel_id ` set base \<and> rel_id r \<notin> rel_id ` set (take (Suc k) (c # cands))) =
        (rel_id r \<notin> rel_id ` set (base @ [c]) \<and> rel_id r \<notin> rel_id ` set (take k cands))"
      for r :: Relationship and k
      by auto
    with False show ?thesis unfolding newOffers_def e by (simp add: m)
  qed
qed

lemma merge_order: "foldl pushIfNew base cands = base @ newOffers base cands"
proof (induction cands arbitrary: base)
  case Nil
  then show ?case by (simp add: newOffers_def)
next
  case (Cons c cands)
  have l: "list_ex (\<lambda>r. rel_id r = rel_id c) base \<longleftrightarrow> rel_id c \<in> rel_id ` set base"
    by (auto simp: list_ex_iff intro: rev_image_eqI)
  have p: "pushIfNew base c = (if rel_id c \<in> rel_id ` set base then base else base @ [c])"
    by (simp add: pushIfNew_def l)
  show ?case
    by (simp add: p Cons.IH newOffers_Cons)
qed

lemma newOffers_ids:
  "distinct (map rel_id (newOffers base cands)) \<and>
   set (map rel_id (newOffers base cands)) \<inter> set (map rel_id base) = {}"
proof -
  obtain added where a: "foldl pushIfNew base cands = base @ added" "distinct (map rel_id added)"
    "set (map rel_id added) \<inter> set (map rel_id base) = {}"
    using merge_added [of base cands] by blast
  from a(1) have "added = newOffers base cands" unfolding merge_order by simp
  with a(2,3) show ?thesis by simp
qed

text \<open>
  C6, as the code has it. The merged list is the pedigree list as it is, followed by the
  relationships that the persons' details offer (per person its relationship list, then
  the \<^verbatim>\<open>-p1\<close> and \<^verbatim>\<open>-p2\<close> edges of its composite records), in the order in which they are
  offered and without those whose identifier the pedigree list or an earlier offer
  carries. The identifiers appended are pairwise distinct and differ from those of the
  pedigree list. Under every identifier, the relationship the merged list holds first is
  the first one that any source offers, and every identifier offered is in the list.
\<close>

theorem relationships_merged_first_wins:
  "collectRelationships ps rels =
     (case rels of None \<Rightarrow> [] | Some rs \<Rightarrow> rs) @
     newOffers (case rels of None \<Rightarrow> [] | Some rs \<Rightarrow> rs) (concat (map detailCandidates ps)) \<and>
   distinct (map rel_id
     (newOffers (case rels of None \<Rightarrow> [] | Some rs \<Rightarrow> rs) (concat (map detailCandidates ps)))) \<and>
   set (map rel_id
     (newOffers (case rels of None \<Rightarrow> [] | Some rs \<Rightarrow> rs) (concat (map detailCandidates ps)))) \<inter>
     set (map rel_id (case rels of None \<Rightarrow> [] | Some rs \<Rightarrow> rs)) = {} \<and>
   find (\<lambda>r. rel_id r = i) (collectRelationships ps rels) =
     find (\<lambda>r. rel_id r = i)
       ((case rels of None \<Rightarrow> [] | Some rs \<Rightarrow> rs) @ concat (map detailCandidates ps)) \<and>
   rel_id ` set ((case rels of None \<Rightarrow> [] | Some rs \<Rightarrow> rs) @ concat (map detailCandidates ps))
     \<subseteq> rel_id ` set (collectRelationships ps rels)"
  unfolding collectRelationships_merge
  using merge_order newOffers_ids merge_find merge_ids by (intro conjI) blast+

theorem relationships_merged_first_wins_witness:
  "collectRelationships
     [(plainPerson ''C'')\<lparr>fullDetails := Some \<lparr>fd_persons = None,
        fd_relationships = Some [plainRel ''r2'' ''http://gedcomx.org/Couple'' ''P1'' ''P2'',
                                 plainRel ''r1'' ''http://gedcomx.org/Couple'' ''C'' ''D''],
        childAndParentsRelationships = Some
          [\<lparr>cap_id = ''c1'',
            cap_parent1 = Some \<lparr>resourceId = Some ''P1'', resource_resourceId = None\<rparr>,
            cap_parent2 = Some \<lparr>resourceId = Some ''P2'', resource_resourceId = None\<rparr>,
            cap_child = Some \<lparr>resourceId = Some ''C'', resource_resourceId = None\<rparr>\<rparr>],
        sourceDescriptions = None\<rparr>\<rparr>]
     (Some [plainRel ''r1'' ''http://gedcomx.org/Couple'' ''A'' ''B'']) =
   [plainRel ''r1'' ''http://gedcomx.org/Couple'' ''A'' ''B'',
    plainRel ''r2'' ''http://gedcomx.org/Couple'' ''P1'' ''P2'',
    parentChildRel ''c1-p1'' \<lparr>resourceId = Some ''P1'', resource_resourceId = None\<rparr>
      \<lparr>resourceId = Some ''C'', resource_resourceId = None\<rparr>
      (Some \<lparr>resourceId = Some ''P2'', resource_resourceId = None\<rparr>),
    parentChildRel ''c1-p2'' \<lparr>resourceId = Some ''P2'', resource_resourceId = None\<rparr>
      \<lparr>resourceId = Some ''C'', resource_resourceId = None\<rparr>
      (Some \<lparr>resourceId = Some ''P1'', resource_resourceId = None\<rparr>)]"
proof -
  let ?ps = "[(plainPerson ''C'')\<lparr>fullDetails := Some \<lparr>fd_persons = None,
        fd_relationships = Some [plainRel ''r2'' ''http://gedcomx.org/Couple'' ''P1'' ''P2'',
                                 plainRel ''r1'' ''http://gedcomx.org/Couple'' ''C'' ''D''],
        childAndParentsRelationships = Some
          [\<lparr>cap_id = ''c1'',
            cap_parent1 = Some \<lparr>resourceId = Some ''P1'', resource_resourceId = None\<rparr>,
            cap_parent2 = Some \<lparr>resourceId = Some ''P2'', resource_resourceId = None\<rparr>,
            cap_child = Some \<lparr>resourceId = Some ''C'', resource_resourceId = None\<rparr>\<rparr>],
        sourceDescriptions = None\<rparr>\<rparr>]"
  let ?base = "[plainRel ''r1'' ''http://gedcomx.org/Couple'' ''A'' ''B'']"
  have n: "?base @ newOffers ?base (concat (map detailCandidates ?ps)) =
   [plainRel ''r1'' ''http://gedcomx.org/Couple'' ''A'' ''B'',
    plainRel ''r2'' ''http://gedcomx.org/Couple'' ''P1'' ''P2'',
    parentChildRel ''c1-p1'' \<lparr>resourceId = Some ''P1'', resource_resourceId = None\<rparr>
      \<lparr>resourceId = Some ''C'', resource_resourceId = None\<rparr>
      (Some \<lparr>resourceId = Some ''P2'', resource_resourceId = None\<rparr>),
    parentChildRel ''c1-p2'' \<lparr>resourceId = Some ''P2'', resource_resourceId = None\<rparr>
      \<lparr>resourceId = Some ''C'', resource_resourceId = None\<rparr>
      (Some \<lparr>resourceId = Some ''P1'', resource_resourceId = None\<rparr>)]"
    by code_simp
  from relationships_merged_first_wins [of ?ps "Some ?base"]
  have "collectRelationships ?ps (Some ?base) =
      ?base @ newOffers ?base (concat (map detailCandidates ?ps))"
    by (simp only: option.case)
  then show ?thesis unfolding n .
qed


text \<open>
  C6 as stated fails on the pedigree list itself: it is copied as it is, so two of its
  relationships with one identifier are both kept.
\<close>

theorem pedigree_duplicates_kept_counterexample:
  "collectRelationships []
     (Some [plainRel ''r1'' ''http://gedcomx.org/Couple'' ''A'' ''B'',
            plainRel ''r1'' ''http://gedcomx.org/Couple'' ''C'' ''D'']) =
   [plainRel ''r1'' ''http://gedcomx.org/Couple'' ''A'' ''B'',
    plainRel ''r1'' ''http://gedcomx.org/Couple'' ''C'' ''D'']"
  by (simp add: collectRelationships_def)


section \<open>Connectivity resolver: what the fixpoint holds\<close>

text \<open>
  The persons the resolver may hold: the seeds; a child with a parent that it holds; a
  spouse of a family with a spouse that it holds; and a spouse of a family with a child
  that it holds.
\<close>

inductive_set justified :: "string list \<Rightarrow> ChildToParents \<Rightarrow> Families \<Rightarrow> string set"
  for seeds :: "string list" and childToParents :: ChildToParents and families :: Families where
  seed: "x \<in> set seeds \<Longrightarrow> x \<in> justified seeds childToParents families"
| child: "(childId, parents) \<in> set childToParents \<Longrightarrow> parentId \<in> set parents \<Longrightarrow>
     parentId \<in> justified seeds childToParents families \<Longrightarrow>
     childId \<in> justified seeds childToParents families"
| spouse_of_spouse: "(key, family) \<in> set families \<Longrightarrow> spouseId \<in> set (spouses family) \<Longrightarrow>
     other \<in> set (spouses family) \<Longrightarrow> other \<in> justified seeds childToParents families \<Longrightarrow>
     spouseId \<in> justified seeds childToParents families"
| spouse_of_child: "(key, family) \<in> set families \<Longrightarrow> spouseId \<in> set (spouses family) \<Longrightarrow>
     childId \<in> set (children family) \<Longrightarrow> childId \<in> justified seeds childToParents families \<Longrightarrow>
     spouseId \<in> justified seeds childToParents families"

lemma set_foldl_setAdd: "set (foldl setAdd c xs) = set c \<union> set xs"
  by (induction xs arbitrary: c) (auto simp: setAdd_def)

lemma addAncestrySpouses_justified:
  assumes "set fs \<subseteq> set fams" and "set c \<subseteq> justified seeds ctp fams"
  shows "set (addAncestrySpouses fs c) \<subseteq> justified seeds ctp fams"
  using assms
proof (induction fs arbitrary: c)
  case Nil
  then show ?case by (simp add: addAncestrySpouses_def)
next
  case (Cons e fs)
  define c1 where "c1 = (if list_ex (\<lambda>spouseId. spouseId \<in> set c) (spouses (snd e))
              then foldl setAdd c (spouses (snd e)) else c)"
  have step: "addAncestrySpouses (e # fs) c = addAncestrySpouses fs c1"
    by (simp add: addAncestrySpouses_def c1_def)
  from Cons.prems have e: "(fst e, snd e) \<in> set fams" by simp
  have "set c1 \<subseteq> justified seeds ctp fams"
  proof (cases "list_ex (\<lambda>spouseId. spouseId \<in> set c) (spouses (snd e))")
    case False
    with Cons.prems show ?thesis by (simp add: c1_def)
  next
    case True
    then obtain other where o: "other \<in> set (spouses (snd e))" "other \<in> set c"
      by (auto simp: list_ex_iff)
    with Cons.prems have "other \<in> justified seeds ctp fams" by blast
    with e o have "set (spouses (snd e)) \<subseteq> justified seeds ctp fams"
      by (blast intro: justified.spouse_of_spouse)
    with True Cons.prems show ?thesis by (simp add: c1_def set_foldl_setAdd)
  qed
  with Cons.IH [of c1] Cons.prems show ?case unfolding step by simp
qed

lemma addChildrenPass_justified:
  assumes "set es \<subseteq> set ctp" and "set (fst st) \<subseteq> justified seeds ctp fams"
  shows "set (fst (addChildrenPass es st)) \<subseteq> justified seeds ctp fams"
  using assms
proof (induction es arbitrary: st)
  case Nil
  then show ?case by (simp add: addChildrenPass_def)
next
  case (Cons e es)
  define st1 where "st1 = (if list_ex (\<lambda>parentId. parentId \<in> set (fst st)) (snd e)
              then (if fst e \<notin> set (fst st) then (fst st @ [fst e], True) else st) else st)"
  have step: "addChildrenPass (e # es) st = addChildrenPass es st1"
    by (simp add: addChildrenPass_def st1_def)
  from Cons.prems have e: "(fst e, snd e) \<in> set ctp" by simp
  have "set (fst st1) \<subseteq> justified seeds ctp fams"
  proof (cases "list_ex (\<lambda>parentId. parentId \<in> set (fst st)) (snd e)")
    case False
    with Cons.prems show ?thesis by (simp add: st1_def)
  next
    case True
    then obtain p where p: "p \<in> set (snd e)" "p \<in> set (fst st)"
      by (auto simp: list_ex_iff)
    with Cons.prems have "p \<in> justified seeds ctp fams" by blast
    with e p have "fst e \<in> justified seeds ctp fams"
      by (blast intro: justified.child)
    with Cons.prems show ?thesis by (simp add: st1_def)
  qed
  with Cons.IH [of st1] Cons.prems show ?case unfolding step by simp
qed

lemma addSpousesOf_justified:
  assumes "(key, fam) \<in> set fams" and "set (fst st) \<subseteq> justified seeds ctp fams"
  shows "set (fst (addSpousesOf fam st)) \<subseteq> justified seeds ctp fams"
proof (cases "list_ex (\<lambda>spouseId. spouseId \<in> set (fst st)) (spouses fam) \<or>
              list_ex (\<lambda>childId. childId \<in> set (fst st)) (children fam)")
  case False
  with assms show ?thesis by (simp add: addSpousesOf_def)
next
  case True
  have "set (spouses fam) \<subseteq> justified seeds ctp fams"
  proof
    fix s assume s: "s \<in> set (spouses fam)"
    from True show "s \<in> justified seeds ctp fams"
    proof
      assume "list_ex (\<lambda>spouseId. spouseId \<in> set (fst st)) (spouses fam)"
      then obtain other where "other \<in> set (spouses fam)" "other \<in> set (fst st)"
        by (auto simp: list_ex_iff)
      with assms s show ?thesis by (blast intro: justified.spouse_of_spouse)
    next
      assume "list_ex (\<lambda>childId. childId \<in> set (fst st)) (children fam)"
      then obtain ch where "ch \<in> set (children fam)" "ch \<in> set (fst st)"
        by (auto simp: list_ex_iff)
      with assms s show ?thesis by (blast intro: justified.spouse_of_child)
    qed
  qed
  moreover have "set (fst (addSpousesOf fam st)) \<subseteq> set (fst st) \<union> set (spouses fam)"
    using addSpousesOf_grows [of fam st] by (simp add: grows_def)
  ultimately show ?thesis using assms(2) by blast
qed

lemma addSpousesPass_justified:
  assumes "set fs \<subseteq> set fams" and "set (fst st) \<subseteq> justified seeds ctp fams"
  shows "set (fst (addSpousesPass fs st)) \<subseteq> justified seeds ctp fams"
  using assms
proof (induction fs arbitrary: st)
  case Nil
  then show ?case by (simp add: addSpousesPass_def)
next
  case (Cons e fs)
  have step: "addSpousesPass (e # fs) st = addSpousesPass fs (addSpousesOf (snd e) st)"
    by (simp add: addSpousesPass_def)
  from Cons.prems have "(fst e, snd e) \<in> set fams" by simp
  then have "set (fst (addSpousesOf (snd e) st)) \<subseteq> justified seeds ctp fams"
    using Cons.prems(2) by (rule addSpousesOf_justified)
  with Cons.IH [of "addSpousesOf (snd e) st"] Cons.prems show ?case unfolding step by simp
qed

lemma expandOnce_justified:
  assumes "set c \<subseteq> justified seeds ctp fams"
  shows "set (fst (expandOnce ctp fams c)) \<subseteq> justified seeds ctp fams"
proof -
  have "set (fst (addChildrenPass ctp (c, False))) \<subseteq> justified seeds ctp fams"
    using assms by (intro addChildrenPass_justified) simp_all
  then have "set (fst (addSpousesPass fams (addChildrenPass ctp (c, False)))) \<subseteq> justified seeds ctp fams"
    by (intro addSpousesPass_justified) simp_all
  then show ?thesis by (simp add: expandOnce_def Let_def)
qed

lemma expandLoop_justified:
  "set c \<subseteq> justified seeds ctp fams \<Longrightarrow> set (expandLoop ctp fams c) \<subseteq> justified seeds ctp fams"
proof (induction ctp fams c rule: expandLoop.induct)
  case (1 ctp fams c)
  from "1.prems" have j: "set (fst (expandOnce ctp fams c)) \<subseteq> justified seeds ctp fams"
    by (rule expandOnce_justified)
  show ?case
  proof (cases "snd (expandOnce ctp fams c)")
    case True
    with "1.IH" j have "set (expandLoop ctp fams (fst (expandOnce ctp fams c))) \<subseteq> justified seeds ctp fams"
      by simp
    with True show ?thesis by (subst expandLoop.simps) simp
  next
    case False
    with j show ?thesis by (subst expandLoop.simps) simp
  qed
qed

lemma expandLoop_mono: "set c \<subseteq> set (expandLoop ctp fams c)"
proof (induction ctp fams c rule: expandLoop.induct)
  case (1 ctp fams c)
  have g: "set c \<subseteq> set (fst (expandOnce ctp fams c))"
    using expandOnce_grows [of ctp fams c] by (simp add: grows_def)
  show ?case
  proof (cases "snd (expandOnce ctp fams c)")
    case True
    with "1.IH" g have "set c \<subseteq> set (expandLoop ctp fams (fst (expandOnce ctp fams c)))"
      by blast
    with True show ?thesis by (subst expandLoop.simps) simp
  next
    case False
    with g show ?thesis by (subst expandLoop.simps) simp
  qed
qed

lemma addAncestrySpouses_mono: "set c \<subseteq> set (addAncestrySpouses fs c)"
proof (induction fs arbitrary: c)
  case Nil
  then show ?case by (simp add: addAncestrySpouses_def)
next
  case (Cons e fs)
  define c1 where "c1 = (if list_ex (\<lambda>spouseId. spouseId \<in> set c) (spouses (snd e))
              then foldl setAdd c (spouses (snd e)) else c)"
  have step: "addAncestrySpouses (e # fs) c = addAncestrySpouses fs c1"
    by (simp add: addAncestrySpouses_def c1_def)
  have "set c \<subseteq> set c1" by (simp add: c1_def set_foldl_setAdd)
  with Cons [of c1] show ?case unfolding step by blast
qed

text \<open>
  C3, as the code has it. With a non-empty seed set, a run of the loop body never removes
  anybody, the final set holds the seeds, and everybody in it is a seed, a child of a
  connectable parent, or a spouse of a family in which a spouse or a child is
  connectable. The last case makes a parent connectable through a connectable child.
\<close>

theorem connectable_monotone_and_justified:
  assumes "seeds \<noteq> []"
  shows "set c \<subseteq> set (fst (expandOnce childToParents families c)) \<and>
         set seeds \<subseteq> set (connectablePersonsOf (Some seeds) childToParents families) \<and>
         set (connectablePersonsOf (Some seeds) childToParents families)
           \<subseteq> justified seeds childToParents families"
proof (intro conjI)
  show "set c \<subseteq> set (fst (expandOnce childToParents families c))"
    using expandOnce_grows [of childToParents families c] by (simp add: grows_def)
  have "set (newSet seeds) = set seeds"
    by (simp add: newSet_def set_foldl_setAdd)
  with assms have "newSet seeds \<noteq> []" by auto
  then have n: "length (newSet seeds) > 0" by simp
  define c0 where "c0 = addAncestrySpouses families (foldl setAdd [] seeds)"
  have e: "connectablePersonsOf (Some seeds) childToParents families = expandLoop childToParents families c0"
    using n by (simp add: connectablePersonsOf_def c0_def)
  have "set seeds \<subseteq> set c0"
    unfolding c0_def using addAncestrySpouses_mono [of "foldl setAdd [] seeds" families]
    by (simp add: set_foldl_setAdd)
  then show "set seeds \<subseteq> set (connectablePersonsOf (Some seeds) childToParents families)"
    unfolding e using expandLoop_mono [of c0 childToParents families] by blast
  have "set (foldl setAdd [] seeds) \<subseteq> justified seeds childToParents families"
    by (auto simp: set_foldl_setAdd intro: justified.seed)
  then have "set c0 \<subseteq> justified seeds childToParents families"
    unfolding c0_def by (intro addAncestrySpouses_justified) simp_all
  then show "set (connectablePersonsOf (Some seeds) childToParents families)
           \<subseteq> justified seeds childToParents families"
    unfolding e by (rule expandLoop_justified)
qed

theorem connectable_monotone_and_justified_witness:
  "set [''C''] \<subseteq> set (fst (expandOnce [(''C'', [''P1''])]
      [(''single-P1'', \<lparr>spouses = [''P1''], children = [''C'']\<rparr>)] [''C''])) \<and>
   set [''C''] \<subseteq> set (connectablePersonsOf (Some [''C'']) [(''C'', [''P1''])]
      [(''single-P1'', \<lparr>spouses = [''P1''], children = [''C'']\<rparr>)]) \<and>
   set (connectablePersonsOf (Some [''C'']) [(''C'', [''P1''])]
      [(''single-P1'', \<lparr>spouses = [''P1''], children = [''C'']\<rparr>)])
     \<subseteq> justified [''C''] [(''C'', [''P1''])]
         [(''single-P1'', \<lparr>spouses = [''P1''], children = [''C'']\<rparr>)]"
  by (rule connectable_monotone_and_justified) simp

text \<open>
  C3 as stated fails where it says that nobody is added merely because a child is
  connectable. Here P1 is no seed, nobody's child and the only spouse of its family; its
  child C is the seed, and step 3b adds P1 because the family has a connectable child.
\<close>

theorem parent_added_for_connectable_child_counterexample:
  "graphOf [plainPerson ''P1'', plainPerson ''C'']
     (Some [plainRel ''r1'' ''http://gedcomx.org/ParentChild'' ''P1'' ''C'']) =
     ([(''C'', [''P1''])], [(''single-P1'', \<lparr>spouses = [''P1''], children = [''C'']\<rparr>)]) \<and>
   connectablePersonsOf (Some [''C'']) [(''C'', [''P1''])]
     [(''single-P1'', \<lparr>spouses = [''P1''], children = [''C'']\<rparr>)] = [''C'', ''P1'']"
  by code_simp


section \<open>HUSB and WIFE\<close>

text \<open>
  C5 as stated fails both ways: with two unknown genders the second spouse is HUSB, and
  with a female second spouse the first spouse is HUSB.
\<close>

theorem husb_wife_unknown_genders_counterexample:
  "convertLines (dateAt 5 0) [plainPerson ''A'', plainPerson ''B'']
     (Some [plainRel ''r1'' ''http://gedcomx.org/Couple'' ''A'' ''B''])
     (seedOptions (Some [''A''])) =
   [''0 HEAD'', ''1 SOUR FamilySearch'', ''2 VERS 1.0'', ''2 NAME FamilySearch API'',
    ''1 DEST ANY'', ''1 DATE 5 JAN 2024'', ''1 SUBM @SUBM1@'', ''1 FILE FamilySearch Import'',
    ''1 GEDC'', ''2 VERS 5.5'', ''2 FORM LINEAGE-LINKED'', ''1 CHAR UTF-8'', ''0 @SUBM1@ SUBM'',
    ''0 @I1@ INDI'', ''1 FAMS @F1@'', ''1 _FS_ID A'',
    ''1 _FS_LINK https://www.familysearch.org/tree/person/A'',
    ''0 @I2@ INDI'', ''1 FAMS @F1@'', ''1 _FS_ID B'',
    ''1 _FS_LINK https://www.familysearch.org/tree/person/B'',
    ''0 @F1@ FAM'', ''1 HUSB @I2@'', ''1 WIFE @I1@'', ''0 TRLR''] \<and>
   convertLines (dateAt 5 0)
     [plainPerson ''A'', (plainPerson ''B'')\<lparr>gender_type := Some ''http://gedcomx.org/Female''\<rparr>]
     (Some [plainRel ''r1'' ''http://gedcomx.org/Couple'' ''A'' ''B''])
     (seedOptions (Some [''A''])) =
   [''0 HEAD'', ''1 SOUR FamilySearch'', ''2 VERS 1.0'', ''2 NAME FamilySearch API'',
    ''1 DEST ANY'', ''1 DATE 5 JAN 2024'', ''1 SUBM @SUBM1@'', ''1 FILE FamilySearch Import'',
    ''1 GEDC'', ''2 VERS 5.5'', ''2 FORM LINEAGE-LINKED'', ''1 CHAR UTF-8'', ''0 @SUBM1@ SUBM'',
    ''0 @I1@ INDI'', ''1 FAMS @F1@'', ''1 _FS_ID A'',
    ''1 _FS_LINK https://www.familysearch.org/tree/person/A'',
    ''0 @I2@ INDI'', ''1 FAMS @F1@'', ''1 _FS_ID B'',
    ''1 _FS_LINK https://www.familysearch.org/tree/person/B'', ''1 SEX F'',
    ''0 @F1@ FAM'', ''1 HUSB @I1@'', ''1 WIFE @I2@'', ''0 TRLR'']"
  by code_simp


section \<open>The shape of the lines\<close>

lemma gedcomTagOf_cases:
  "gedcomTagOf t \<in> set [''BURI'', ''CHR'', ''BAPM'', ''MARR'', ''DIV'', ''RESI'', ''OCCU'', ''IMMI'',
       ''EMIG'', ''NATU'', ''CENS'', ''EVEN'', ''[object Object]''] \<or>
   prefix ''function '' (gedcomTagOf t)"
  by (simp add: gedcomTagOf_def typeMap_def inheritedTag_def)

text \<open>A line below a record header: level 1 or 2, and none of the lines that refer to a record.\<close>

definition plainLine :: "string \<Rightarrow> bool" where
  "plainLine l = ((prefix ''1 '' l \<or> prefix ''2 '' l) \<and> \<not> prefix ''1 HUSB '' l \<and>
      \<not> prefix ''1 WIFE '' l \<and> \<not> prefix ''1 CHIL '' l \<and> \<not> prefix ''1 SOUR @'' l)"

lemma plainLine_level2: "plainLine (''2 '' @ s)"
  by (simp add: plainLine_def)

lemma tagLine_plain: "plainLine (''1 '' @ gedcomTagOf t)"
  using gedcomTagOf_cases [of t] by (auto simp: plainLine_def prefix_def)

lemma convertFactToGedcom_plain: "\<forall>l\<in>set (convertFactToGedcom f). plainLine l"
proof -
  have "plainLine (''1 OCCU '' @ v)" for v by (simp add: plainLine_def)
  moreover have "plainLine (''2 _FS_LINK '' @ v)" "plainLine (''2 DATE '' @ v)"
    "plainLine (''2 PLAC '' @ v)" "plainLine (''2 NOTE '' @ v)" for v
    by (simp_all add: plainLine_def)
  ultimately show ?thesis
    using tagLine_plain by (auto simp: convertFactToGedcom_def Let_def)
qed

lemma linkLines_plain: "\<forall>l\<in>set (linkLines il env person). plainLine l"
proof -
  have "plainLine (''1 _FS_LINK '' @ v)" for v by (simp add: plainLine_def)
  then show ?thesis by (auto simp: linkLines_def Let_def)
qed

lemma factLines_plain:
  "tag = ''1 BIRT'' \<or> tag = ''1 DEAT'' \<Longrightarrow> \<forall>l\<in>set (factLines tag r). plainLine l"
proof -
  assume t: "tag = ''1 BIRT'' \<or> tag = ''1 DEAT''"
  have "plainLine (''2 DATE '' @ v)" "plainLine (''2 PLAC '' @ v)" for v
    by (simp_all add: plainLine_def)
  moreover from t have "plainLine tag" by (auto simp: plainLine_def)
  ultimately show ?thesis by (auto simp: factLines_def split: option.splits)
qed

lemma otherFactLines_plain: "\<forall>l\<in>set (otherFactLines pd). plainLine l"
  using convertFactToGedcom_plain by (auto simp: otherFactLines_def split: option.splits)

lemma noteLines_plain: "\<forall>l\<in>set (noteLines inc person). plainLine l"
proof -
  have p: "plainLine (''1 NOTE '' @ v)" for v by (simp add: plainLine_def)
  have k: "\<forall>l\<in>set (if inc then concat (map (\<lambda>note. if truthy note
      then [''1 NOTE '' @ replaceNewlines (the note)] else []) ns) else []). plainLine l" for ns
    using p by auto
  have e: "noteLines inc person = [] \<or> (\<exists>ns. noteLines inc person =
      (if inc then concat (map (\<lambda>note. if truthy note
            then [''1 NOTE '' @ replaceNewlines (the note)] else []) ns) else []))"
    by (cases "notes_persons person")
      (force simp: noteLines_def split: option.splits list.splits)+
  then show ?thesis
  proof
    assume "noteLines inc person = []"
    then show ?thesis by simp
  next
    assume "\<exists>ns. noteLines inc person =
      (if inc then concat (map (\<lambda>note. if truthy note
            then [''1 NOTE '' @ replaceNewlines (the note)] else []) ns) else [])"
    then obtain ns where "noteLines inc person =
      (if inc then concat (map (\<lambda>note. if truthy note
            then [''1 NOTE '' @ replaceNewlines (the note)] else []) ns) else [])" ..
    then show ?thesis using k [of ns] by simp
  qed
qed

lemma qualifierLines_plain: "\<forall>l\<in>set (qualifierLines r). plainLine l"
proof -
  have "plainLine (''2 NOTE '' @ v)" for v by (simp add: plainLine_def)
  then show ?thesis by (auto simp: qualifierLines_def split: option.splits)
qed

text \<open>A citation of one of the sources of the map.\<close>

definition citationOf :: "nat \<Rightarrow> string \<Rightarrow> bool" where
  "citationOf m l = (\<exists>n. 1 \<le> n \<and> n \<le> m \<and> l = ''1 SOUR @S'' @ showNat n @ ''@'')"

lemma citationLines_shape:
  "\<forall>l\<in>set (citationLines sourceMap r). plainLine l \<or> citationOf (length sourceMap) l"
proof (cases "truthy (descriptionId r)")
  case False
  then show ?thesis by (simp add: citationLines_def)
next
  case True
  show ?thesis
  proof (cases "indexOf (map fst sourceMap) (the (descriptionId r))")
    case None
    with True show ?thesis by (simp add: citationLines_def)
  next
    case (Some i)
    then have "i < length sourceMap"
      using findIndex_less [of _ "map fst sourceMap" i] by (simp add: indexOf_def)
    then have "citationOf (length sourceMap) (''1 SOUR @S'' @ showNat (i + 1) @ ''@'')"
      unfolding citationOf_def by (intro exI [of _ "i + 1"]) simp
    with True Some qualifierLines_plain [of r] show ?thesis
      by (simp add: citationLines_def)
  qed
qed

lemma sourceCitationLines_shape:
  "\<forall>l\<in>set (sourceCitationLines sourceMap pd). plainLine l \<or> citationOf (length sourceMap) l"
  using citationLines_shape by (auto simp: sourceCitationLines_def split: option.splits)

lemma indiRecord_shape:
  "\<exists>rest. indiRecord il inc env sourceMap g person = (''0 '' @ g @ '' INDI'') # rest \<and>
     (\<forall>l\<in>set rest. plainLine l \<or> citationOf (length sourceMap) l)"
proof -
  have "plainLine (''1 _FS_ID '' @ v)" "plainLine (''1 NAME '' @ v)" "plainLine (''1 SEX '' @ v)" for v
    by (simp_all add: plainLine_def)
  then show ?thesis
    using linkLines_plain [of il env person] factLines_plain [of "''1 BIRT''"]
      factLines_plain [of "''1 DEAT''"] otherFactLines_plain [of "personDataOf person"]
      noteLines_plain [of inc person] sourceCitationLines_shape [of sourceMap "personDataOf person"]
    by (auto simp: indiRecord_def Let_def split: option.splits)
qed

lemma sourceRecord_shape:
  "\<exists>rest. sourceRecord n src = (''0 @S'' @ showNat n @ ''@ SOUR'') # rest \<and> (\<forall>l\<in>set rest. plainLine l)"
proof -
  have "plainLine (''1 TITL '' @ v)" "plainLine (''1 TEXT '' @ v)" "plainLine (''1 WWW '' @ v)"
    "plainLine (''1 NOTE Resource Type: '' @ v)" for v
    by (simp_all add: plainLine_def)
  then show ?thesis
    by (auto simp: sourceRecord_def split: option.splits list.splits)
qed

lemma addMarriageFacts_plain: "\<forall>l\<in>set (addMarriageFacts rels p1 p2). plainLine l"
  using convertFactToGedcom_plain by (auto simp: addMarriageFacts_def Let_def split: option.splits)

section \<open>The family graph refers to persons of the input\<close>

definition ctpOk :: "string set \<Rightarrow> ChildToParents \<Rightarrow> bool" where
  "ctpOk V ctp = (\<forall>e\<in>set ctp. fst e \<in> V \<and> snd e \<noteq> [] \<and> set (snd e) \<subseteq> V)"

definition famOk :: "string set \<Rightarrow> Family \<Rightarrow> bool" where
  "famOk V f = (spouses f \<noteq> [] \<and> length (spouses f) \<le> 2 \<and> set (spouses f) \<subseteq> V \<and>
      set (children f) \<subseteq> V)"

definition famsOk :: "string set \<Rightarrow> Families \<Rightarrow> bool" where
  "famsOk V fams = (\<forall>e\<in>set fams. famOk V (snd e))"

lemma set_update_subset: "set (AList.update k v al) \<subseteq> insert (k, v) (set al)"
  by (induction al) auto

lemma length_foldl_setAdd: "length (foldl setAdd c xs) \<le> length c + length xs"
proof (induction xs arbitrary: c)
  case Nil
  then show ?case by simp
next
  case (Cons x xs)
  have "length (setAdd c x) \<le> Suc (length c)" by (simp add: setAdd_def)
  with Cons [of "setAdd c x"] show ?case by simp
qed

lemma newSet_props:
  "set (newSet xs) = set xs" "length (newSet xs) \<le> length xs" "xs \<noteq> [] \<Longrightarrow> newSet xs \<noteq> []"
proof -
  show s: "set (newSet xs) = set xs" by (simp add: newSet_def set_foldl_setAdd)
  show "length (newSet xs) \<le> length xs"
    using length_foldl_setAdd [of "[]" xs] by (simp add: newSet_def)
  show "newSet xs \<noteq> []" if "xs \<noteq> []"
    using that s by (metis set_empty)
qed

lemma famOk_new: "xs \<noteq> [] \<Longrightarrow> length xs \<le> 2 \<Longrightarrow> set xs \<subseteq> V \<Longrightarrow>
    famOk V \<lparr>spouses = newSet xs, children = []\<rparr>"
  using newSet_props [of xs] by (simp add: famOk_def)

lemma famsOk_append: "famsOk V fams \<Longrightarrow> famOk V f \<Longrightarrow> famsOk V (fams @ [(k, f)])"
  by (simp add: famsOk_def)

lemma ctpOk_update:
  assumes "ctpOk V ctp" and "c \<in> V" and "ps \<noteq> []" and "set ps \<subseteq> V"
  shows "ctpOk V (AList.update c ps ctp)"
  unfolding ctpOk_def
proof
  fix e assume "e \<in> set (AList.update c ps ctp)"
  with set_update_subset have "e = (c, ps) \<or> e \<in> set ctp" by fastforce
  with assms show "fst e \<in> V \<and> snd e \<noteq> [] \<and> set (snd e) \<subseteq> V"
    by (auto simp: ctpOk_def)
qed

lemma processRelationship_ok:
  assumes "ctpOk (set valid) (fst st)" and "famsOk (set valid) (snd st)"
  shows "ctpOk (set valid) (fst (processRelationship valid st rel)) \<and>
         famsOk (set valid) (snd (processRelationship valid st rel))"
proof (cases "optIncludes (rel_type rel) ''ParentChild''")
  case True
  define validParents where "validParents =
      (if the (refId (person1 rel)) \<in> set valid then [the (refId (person1 rel))] else []) @
      (if truthy (refId (parent2 rel)) \<and> the (refId (parent2 rel)) \<in> set valid
       then [the (refId (parent2 rel))] else [])"
  define old where "old = (case map_of (fst st) (the (refId (person2 rel))) of
      None \<Rightarrow> [] | Some parents \<Rightarrow> parents)"
  have v: "set validParents \<subseteq> set valid" by (auto simp: validParents_def)
  have o: "set old \<subseteq> set valid"
  proof (cases "map_of (fst st) (the (refId (person2 rel)))")
    case None
    then show ?thesis by (simp add: old_def)
  next
    case (Some parents)
    then have "(the (refId (person2 rel)), parents) \<in> set (fst st)" by (rule map_of_SomeD)
    with assms(1) Some show ?thesis by (force simp: ctpOk_def old_def)
  qed
  have r: "processRelationship valid st rel = st \<or>
      (the (refId (person2 rel)) \<in> set valid \<and> validParents \<noteq> [] \<and>
       processRelationship valid st rel =
         (AList.update (the (refId (person2 rel))) (foldl setAdd old validParents) (fst st), snd st))"
    using True by (simp add: processRelationship_def Let_def validParents_def old_def)
  then show ?thesis
  proof
    assume "processRelationship valid st rel = st"
    with assms show ?thesis by simp
  next
    assume a: "the (refId (person2 rel)) \<in> set valid \<and> validParents \<noteq> [] \<and>
       processRelationship valid st rel =
         (AList.update (the (refId (person2 rel))) (foldl setAdd old validParents) (fst st), snd st)"
    have s: "set (foldl setAdd old validParents) = set old \<union> set validParents"
      by (rule set_foldl_setAdd)
    with a have "foldl setAdd old validParents \<noteq> []" by (metis Un_empty set_empty)
    moreover from s v o have "set (foldl setAdd old validParents) \<subseteq> set valid" by simp
    ultimately have "ctpOk (set valid)
        (AList.update (the (refId (person2 rel))) (foldl setAdd old validParents) (fst st))"
      using assms(1) a by (intro ctpOk_update) simp_all
    with a assms(2) show ?thesis by simp
  qed
next
  case False
  show ?thesis
  proof (cases "optIncludes (rel_type rel) ''Couple''")
    case c: False
    with False assms show ?thesis by (simp add: processRelationship_def)
  next
    case c: True
    have r: "processRelationship valid st rel = st \<or>
      (the (refId (person1 rel)) \<in> set valid \<and> the (refId (person2 rel)) \<in> set valid \<and>
       processRelationship valid st rel =
         (fst st, snd st @ [(join ''-'' (sortPair (the (refId (person1 rel))) (the (refId (person2 rel)))),
            \<lparr>spouses = newSet [the (refId (person1 rel)), the (refId (person2 rel))], children = []\<rparr>)]))"
      using False c by (simp add: processRelationship_def Let_def)
    then show ?thesis
    proof
      assume "processRelationship valid st rel = st"
      with assms show ?thesis by simp
    next
      assume a: "the (refId (person1 rel)) \<in> set valid \<and> the (refId (person2 rel)) \<in> set valid \<and>
       processRelationship valid st rel =
         (fst st, snd st @ [(join ''-'' (sortPair (the (refId (person1 rel))) (the (refId (person2 rel)))),
            \<lparr>spouses = newSet [the (refId (person1 rel)), the (refId (person2 rel))], children = []\<rparr>)])"
      then have "famOk (set valid)
          \<lparr>spouses = newSet [the (refId (person1 rel)), the (refId (person2 rel))], children = []\<rparr>"
        by (intro famOk_new) simp_all
      with assms(2) have "famsOk (set valid) (snd (processRelationship valid st rel))"
        using a by (simp add: famsOk_append)
      with a assms(1) show ?thesis by simp
    qed
  qed
qed

lemma foldl_processRelationship_ok:
  assumes "ctpOk (set valid) (fst st)" and "famsOk (set valid) (snd st)"
  shows "ctpOk (set valid) (fst (foldl (processRelationship valid) st rels)) \<and>
         famsOk (set valid) (snd (foldl (processRelationship valid) st rels))"
  using assms
proof (induction rels arbitrary: st)
  case Nil
  then show ?case by simp
next
  case (Cons r rels)
  from processRelationship_ok [OF Cons.prems, of r] Cons.IH [of "processRelationship valid st r"]
  show ?case by simp
qed

lemma pushChild_ok:
  assumes "famsOk V fams" and "c \<in> V"
  shows "famsOk V (pushChild k c fams)"
proof (cases "map_of fams k")
  case None
  with assms show ?thesis by (simp add: pushChild_def)
next
  case (Some f)
  then have "(k, f) \<in> set fams" by (rule map_of_SomeD)
  with assms(1) have "famOk V f" by (force simp: famsOk_def)
  with assms(2) have n: "famOk V (f\<lparr>children := children f @ [c]\<rparr>)" by (simp add: famOk_def)
  have "famsOk V (AList.update k (f\<lparr>children := children f @ [c]\<rparr>) fams)"
    unfolding famsOk_def
  proof
    fix e assume "e \<in> set (AList.update k (f\<lparr>children := children f @ [c]\<rparr>) fams)"
    with set_update_subset have "e = (k, f\<lparr>children := children f @ [c]\<rparr>) \<or> e \<in> set fams"
      by fastforce
    with n assms(1) show "famOk V (snd e)" by (auto simp: famsOk_def)
  qed
  with Some show ?thesis by (simp add: pushChild_def)
qed

lemma attachChild_ok:
  assumes "famsOk V fams" and "fst e \<in> V" and "set (snd e) \<subseteq> V"
  shows "famsOk V (attachChild fams e)"
proof -
  have t: "famOk V \<lparr>spouses = newSet (take 2 (snd e)), children = []\<rparr>" if "length (snd e) \<ge> 2"
  proof (rule famOk_new)
    from that show "take 2 (snd e) \<noteq> []" by auto
    show "length (take 2 (snd e)) \<le> 2" by simp
    from assms(3) show "set (take 2 (snd e)) \<subseteq> V" by (meson set_take_subset subset_trans)
  qed
  have u: "famOk V \<lparr>spouses = newSet [snd e ! 0], children = []\<rparr>" if "length (snd e) = 1"
  proof (rule famOk_new)
    from that have "snd e ! 0 \<in> set (snd e)" by (intro nth_mem) simp
    with assms(3) show "set [snd e ! 0] \<subseteq> V" by auto
  qed simp_all
  show ?thesis
    using assms(1,2) t u
    by (simp add: attachChild_def Let_def pushChild_ok famsOk_append)
qed

lemma foldl_attachChild_ok:
  assumes "famsOk V fams" and "ctpOk V es"
  shows "famsOk V (foldl attachChild fams es)"
  using assms
proof (induction es arbitrary: fams)
  case Nil
  then show ?case by simp
next
  case (Cons e es)
  from Cons.prems have "famsOk V (attachChild fams e)"
    by (intro attachChild_ok) (simp_all add: ctpOk_def)
  moreover from Cons.prems have "ctpOk V es" by (simp add: ctpOk_def)
  ultimately show ?case using Cons.IH by simp
qed

lemma buildGraph_ok:
  "ctpOk (person_id ` set ps) (fst (buildGraph ps rels)) \<and>
   famsOk (person_id ` set ps) (snd (buildGraph ps rels))"
proof -
  define st where "st = foldl (processRelationship (map person_id ps)) ([], []) rels"
  have "ctpOk (set (map person_id ps)) (fst st) \<and> famsOk (set (map person_id ps)) (snd st)"
    unfolding st_def by (rule foldl_processRelationship_ok) (simp_all add: ctpOk_def famsOk_def)
  then have a: "ctpOk (person_id ` set ps) (fst st)" "famsOk (person_id ` set ps) (snd st)"
    by simp_all
  from a(2,1) have "famsOk (person_id ` set ps) (foldl attachChild (snd st) (fst st))"
    by (rule foldl_attachChild_ok)
  with a(1) show ?thesis by (simp add: buildGraph_def Let_def st_def)
qed

lemma buildPersonIdMap_keys:
  "fst ` set (buildPersonIdMap i ps m) = fst ` set m \<union> person_id ` set ps"
  by (induction ps arbitrary: i m) (simp_all add: dom_update Un_commute insert_commute)

lemma mapHas_personIdMapOf: "mapHas (personIdMapOf ps) k \<longleftrightarrow> k \<in> person_id ` set ps"
  using buildPersonIdMap_keys [of 0 ps "[]"]
  by (simp add: mapHas_def personIdMapOf_def map_of_eq_None_iff)

section \<open>FAM records\<close>

text \<open>Reading a record: its HUSB and WIFE lines, and its CHIL lines.\<close>

definition isSpouseLine :: "string \<Rightarrow> bool" where
  "isSpouseLine l = (prefix ''1 HUSB '' l \<or> prefix ''1 WIFE '' l)"

definition spouseCount :: "string list \<Rightarrow> nat" where
  "spouseCount r = length (filter isSpouseLine r)"

definition childCount :: "string list \<Rightarrow> nat" where
  "childCount r = length (filter (prefix ''1 CHIL '') r)"

lemma counts_append:
  "spouseCount (a @ b) = spouseCount a + spouseCount b"
  "childCount (a @ b) = childCount a + childCount b"
  by (simp_all add: spouseCount_def childCount_def)

lemma counts_plain:
  assumes "\<forall>l\<in>set xs. plainLine l"
  shows "spouseCount xs = 0" "childCount xs = 0"
proof -
  from assms have "\<forall>l\<in>set xs. \<not> isSpouseLine l" "\<forall>l\<in>set xs. \<not> prefix ''1 CHIL '' l"
    by (auto simp: plainLine_def isSpouseLine_def)
  then show "spouseCount xs = 0" "childCount xs = 0"
    by (simp_all add: spouseCount_def childCount_def)
qed

text \<open>A line of a FAM record that refers to a person.\<close>

definition refLine :: "string \<Rightarrow> bool" where
  "refLine l = (prefix ''1 HUSB '' l \<or> prefix ''1 WIFE '' l \<or> prefix ''1 CHIL '' l)"

lemma childLines_shape: "\<forall>l\<in>set (childLines pm cs). refLine l"
  by (auto simp: childLines_def refLine_def split: option.splits)

lemma childLines_counts:
  assumes "\<forall>c\<in>set cs. mapHas pm c"
  shows "spouseCount (childLines pm cs) = 0 \<and> childCount (childLines pm cs) = length cs"
  using assms
proof (induction cs)
  case Nil
  then show ?case by (simp add: childLines_def spouseCount_def childCount_def)
next
  case (Cons c cs)
  then obtain i where i: "map_of pm c = Some i" by (auto simp: mapHas_def)
  have e: "childLines pm (c # cs) = [''1 CHIL '' @ i] @ childLines pm cs"
    using i by (simp add: childLines_def)
  have "spouseCount [''1 CHIL '' @ i] = 0" "childCount [''1 CHIL '' @ i] = 1"
    by (simp_all add: spouseCount_def childCount_def isSpouseLine_def)
  with Cons show ?case unfolding e counts_append by simp
qed

lemma spouseLines_shape: "\<forall>l\<in>set (spouseLines ps pm rels ss). plainLine l \<or> refLine l"
proof -
  have r: "refLine (''1 HUSB '' @ v)" "refLine (''1 WIFE '' @ v)" for v
    by (simp_all add: refLine_def)
  consider (none) "ss = []" | (one) p where "ss = [p]" | (two) p1 p2 where "ss = [p1, p2]"
    | (more) p1 p2 p3 rest where "ss = p1 # p2 # p3 # rest"
    by (cases ss rule: list.exhaust; cases "tl ss"; cases "tl (tl ss)") auto
  then show ?thesis
  proof cases
    case none
    then show ?thesis by (simp add: spouseLines_def)
  next
    case one
    then show ?thesis using r by (simp add: spouseLines_def)
  next
    case two
    have "\<forall>l\<in>set ((case map_of pm a of None \<Rightarrow> [] | Some i \<Rightarrow> [''1 HUSB '' @ i]) @
            (case map_of pm b of None \<Rightarrow> [] | Some i \<Rightarrow> [''1 WIFE '' @ i])). refLine l" for a b
      using r by (auto split: option.splits)
    then show ?thesis
      using two addMarriageFacts_plain [of rels p1 p2]
      by (auto simp: spouseLines_def Let_def)
  next
    case more
    then show ?thesis by (simp add: spouseLines_def)
  qed
qed

lemma spouseLines_counts:
  assumes "ss \<noteq> []" and "length ss \<le> 2" and "\<forall>s\<in>set ss. mapHas pm s"
  shows "spouseCount (spouseLines ps pm rels ss) = length ss \<and>
         childCount (spouseLines ps pm rels ss) = 0"
proof -
  have h: "spouseCount [''1 HUSB '' @ v] = 1" "childCount [''1 HUSB '' @ v] = 0"
    "spouseCount [''1 WIFE '' @ v] = 1" "childCount [''1 WIFE '' @ v] = 0" for v
    by (simp_all add: spouseCount_def childCount_def isSpouseLine_def)
  from assms(1,2) consider (one) p where "ss = [p]" | (two) p1 p2 where "ss = [p1, p2]"
    by (cases ss rule: list.exhaust; cases "tl ss"; cases "tl (tl ss)") auto
  then show ?thesis
  proof cases
    case one
    then show ?thesis using h by (simp add: spouseLines_def)
  next
    case two
    with assms(3) obtain i1 i2 where i: "map_of pm p1 = Some i1" "map_of pm p2 = Some i2"
      by (auto simp: mapHas_def)
    have m: "spouseCount (addMarriageFacts rels p1 p2) = 0" "childCount (addMarriageFacts rels p1 p2) = 0"
      using counts_plain [OF addMarriageFacts_plain] by simp_all
    have "spouseLines ps pm rels ss =
        ([''1 HUSB '' @ i1] @ [''1 WIFE '' @ i2]) @ addMarriageFacts rels p1 p2 \<or>
      spouseLines ps pm rels ss =
        ([''1 HUSB '' @ i2] @ [''1 WIFE '' @ i1]) @ addMarriageFacts rels p1 p2"
      using two i by (simp add: spouseLines_def Let_def)
    then show ?thesis
      using two by (elim disjE) (simp_all only: counts_append h m list.size, simp_all)
  qed
qed

lemma famRecord_shape:
  "\<exists>rest. famRecord ps pm rels c allow fid f = (''0 '' @ fid @ '' FAM'') # rest \<and>
     (\<forall>l\<in>set rest. plainLine l \<or> refLine l)"
proof -
  have "plainLine ''1 _IS_ORPHAN_FAMILY Y''" by (simp add: plainLine_def)
  then show ?thesis
    using spouseLines_shape [of ps pm rels "spouses f"] childLines_shape [of pm "children f"]
    by (auto simp: famRecord_def)
qed

lemma famRecord_counts:
  assumes "famOk V f" and "\<forall>v\<in>V. mapHas pm v"
  shows "spouseCount (famRecord ps pm rels c allow fid f) = length (spouses f) \<and>
         childCount (famRecord ps pm rels c allow fid f) = length (children f)"
proof -
  have h: "spouseCount [''0 '' @ fid @ '' FAM''] = 0" "childCount [''0 '' @ fid @ '' FAM''] = 0"
    by (simp_all add: spouseCount_def childCount_def isSpouseLine_def)
  have o: "spouseCount (if \<not> anyMemberConnectable c f \<and> allow then [''1 _IS_ORPHAN_FAMILY Y''] else []) = 0"
    "childCount (if \<not> anyMemberConnectable c f \<and> allow then [''1 _IS_ORPHAN_FAMILY Y''] else []) = 0"
    by (simp_all add: spouseCount_def childCount_def isSpouseLine_def)
  from assms have s: "spouseCount (spouseLines ps pm rels (spouses f)) = length (spouses f) \<and>
         childCount (spouseLines ps pm rels (spouses f)) = 0"
    by (intro spouseLines_counts) (auto simp: famOk_def)
  from assms have k: "spouseCount (childLines pm (children f)) = 0 \<and>
      childCount (childLines pm (children f)) = length (children f)"
    by (intro childLines_counts) (auto simp: famOk_def)
  show ?thesis
    unfolding famRecord_def counts_append using h o s k by simp
qed

text \<open>Of a family that is not suppressed, every spouse is in the person map.\<close>

lemma not_suppressed_counts:
  assumes "famOk V f" and "\<forall>v\<in>V. mapHas pm v" and "\<not> famSuppressed pm c allow f"
  shows "1 \<le> length (spouses f) \<and> (length (spouses f) = 1 \<longrightarrow> 1 \<le> length (children f))"
proof -
  from assms(1,2) have "filter (mapHas pm) (spouses f) = spouses f"
    by (auto simp: famOk_def intro!: filter_True)
  with assms(3) show ?thesis
    by (auto simp: famSuppressed_def Let_def Suc_le_eq)
qed

section \<open>The FAM loop\<close>

lemma famStep_fold:
  "foldl (famStep ps pm rels c allow) (n, m, ls) fams =
     (n + length (filter (\<lambda>e. \<not> famSuppressed pm c allow (snd e)) fams),
      fst (snd (foldl (famStep ps pm rels c allow) (n, m, ls) fams)),
      ls @ concat (map (\<lambda>ie. famRecord ps pm rels c allow (''@F'' @ showNat (fst ie) @ ''@'') (snd (snd ie)))
              (enumerate n (filter (\<lambda>e. \<not> famSuppressed pm c allow (snd e)) fams))))"
proof (induction fams arbitrary: n m ls)
  case Nil
  then show ?case by simp
next
  case (Cons e fams)
  show ?case
  proof (cases "famSuppressed pm c allow (snd e)")
    case True
    then have "famStep ps pm rels c allow (n, m, ls) e = (n, m, ls)"
      by (simp add: famStep_def)
    with True Cons [of n m ls] show ?thesis by simp
  next
    case False
    define r where "r = famRecord ps pm rels c allow (''@F'' @ showNat n @ ''@'') (snd e)"
    define m1 where "m1 = AList.update (fst e) (''@F'' @ showNat n @ ''@'') m"
    have s: "famStep ps pm rels c allow (n, m, ls) e = (Suc n, m1, ls @ r)"
      using False by (simp add: famStep_def Let_def r_def m1_def)
    from Cons [of "Suc n" m1 "ls @ r"] False show ?thesis
      unfolding foldl_Cons s by (simp add: r_def)
  qed
qed

lemma famStep_keys:
  "fst ` set (fst (snd (foldl (famStep ps pm rels c allow) (n, m, ls) fams))) =
     fst ` set m \<union> fst ` set (filter (\<lambda>e. \<not> famSuppressed pm c allow (snd e)) fams)"
proof (induction fams arbitrary: n m ls)
  case Nil
  then show ?case by simp
next
  case (Cons e fams)
  show ?case
  proof (cases "famSuppressed pm c allow (snd e)")
    case True
    then have "famStep ps pm rels c allow (n, m, ls) e = (n, m, ls)"
      by (simp add: famStep_def)
    with True Cons [of n m ls] show ?thesis by simp
  next
    case False
    have s: "famStep ps pm rels c allow (n, m, ls) e =
        (Suc n, AList.update (fst e) (''@F'' @ showNat n @ ''@'') m,
         ls @ famRecord ps pm rels c allow (''@F'' @ showNat n @ ''@'') (snd e))"
      using False by (simp add: famStep_def Let_def)
    show ?thesis
      unfolding foldl_Cons s Cons using False by (simp add: dom_update)
  qed
qed

section \<open>Splicing leaves the FAM records alone\<close>

lemma countFamc_le: "countFamc ys \<le> length ys"
  by (induction ys) simp_all

lemma countFamc_append:
  assumes "S = [] \<or> \<not> prefix ''1 FAMC'' (hd S)"
  shows "countFamc (ys @ S) = countFamc ys"
proof -
  from assms have "countFamc S = 0" by (cases S) auto
  then show ?thesis by (induction ys) simp_all
qed

lemma splice_suffix:
  assumes "\<forall>l\<in>set S. \<not> P l" and "\<And>ys. k (ys @ S) = k ys" and "\<And>ys. k ys \<le> length ys"
  shows "(case findIndex P (xs @ S) of
            None \<Rightarrow> xs @ S
          | Some i \<Rightarrow> insertAt (i + 1 + k (drop (i + 1) (xs @ S))) x (xs @ S)) =
         (case findIndex P xs of
            None \<Rightarrow> xs
          | Some i \<Rightarrow> insertAt (i + 1 + k (drop (i + 1) xs)) x xs) @ S"
proof (cases "findIndex P xs")
  case None
  then have "\<forall>l\<in>set xs. \<not> P l" by (simp add: findIndex_None)
  moreover from assms(1) have "findIndex P S = None" by (simp add: findIndex_None)
  ultimately have "findIndex P (xs @ S) = None" by (simp add: findIndex_append)
  with None show ?thesis by simp
next
  case (Some i)
  then have i: "i < length xs" by (rule findIndex_less)
  from Some have f: "findIndex P (xs @ S) = Some i" by (rule findIndex_append_left)
  from i have d: "drop (i + 1) (xs @ S) = drop (i + 1) xs @ S" by simp
  have "k (drop (i + 1) xs) \<le> length (drop (i + 1) xs)" by (rule assms(3))
  with i have "i + 1 + k (drop (i + 1) xs) \<le> length xs" by simp
  then have "insertAt (i + 1 + k (drop (i + 1) xs)) x (xs @ S) =
             insertAt (i + 1 + k (drop (i + 1) xs)) x xs @ S"
    by (rule insertAt_append_left)
  then show ?thesis
    by (simp only: f Some d assms(2) option.case)
qed

text \<open>
  The lines after the INDI records: none is an INDI header, and the first, if there is
  one, is no FAMC line.
\<close>

definition famTail :: "string list \<Rightarrow> bool" where
  "famTail S = ((\<forall>l\<in>set S. \<not> prefix ''0 @I'' l) \<and> (S = [] \<or> \<not> prefix ''1 FAMC'' (hd S)))"

lemma famTail_target:
  assumes "indiIds pm" and "map_of pm k = Some g" and "famTail S"
  shows "\<forall>l\<in>set S. \<not> (l = ''0 '' @ g @ '' INDI'')"
  using assms by (intro indiIds_target [OF assms(1,2)]) (simp add: famTail_def)

lemma famcStep_suffix:
  assumes "indiIds pm" and "famTail S"
  shows "famcStep pm fm (xs @ S) e = famcStep pm fm xs e @ S"
proof (cases "map_of pm (fst e)")
  case None
  then show ?thesis by (simp add: famcStep_def)
next
  case (Some g)
  show ?thesis
  proof (cases "case famKeyOfParents (snd e) of None \<Rightarrow> None | Some famKey \<Rightarrow> map_of fm famKey")
    case None
    with Some show ?thesis by (simp add: famcStep_def)
  next
    case fam: (Some famId)
    define t where "t = ''0 '' @ g @ '' INDI''"
    have u: "famcStep pm fm X e =
        (case findIndex (\<lambda>line. line = t) X of
           None \<Rightarrow> X
         | Some i \<Rightarrow> insertAt (i + 1 + 0) (''1 FAMC '' @ famId) X)" for X
      by (simp add: famcStep_def Some fam t_def split: option.splits)
    have n: "\<forall>l\<in>set S. \<not> (l = t)"
      unfolding t_def using assms(1) Some assms(2) by (rule famTail_target)
    show ?thesis
      unfolding u by (rule splice_suffix [of S "\<lambda>line. line = t" "\<lambda>_. 0", OF n]) simp_all
  qed
qed

lemma famsInsert_suffix:
  assumes "indiIds pm" and "famTail S"
  shows "famsInsert pm famId (xs @ S) s = famsInsert pm famId xs s @ S"
proof (cases "map_of pm s")
  case None
  then show ?thesis by (simp add: famsInsert_def)
next
  case (Some g)
  define t where "t = ''0 '' @ g @ '' INDI''"
  have u: "famsInsert pm famId X s =
      (case findIndex (\<lambda>line. line = t) X of
         None \<Rightarrow> X
       | Some i \<Rightarrow> insertAt (i + 1 + countFamc (drop (i + 1) X)) (''1 FAMS '' @ famId) X)" for X
    by (simp add: famsInsert_def Some t_def split: option.splits)
  have n: "\<forall>l\<in>set S. \<not> (l = t)"
    unfolding t_def using assms(1) Some assms(2) by (rule famTail_target)
  have c: "countFamc (ys @ S) = countFamc ys" for ys
    using assms(2) by (intro countFamc_append) (simp add: famTail_def)
  show ?thesis
    unfolding u by (rule splice_suffix [OF n c countFamc_le])
qed

lemma spliceBackReferences_suffix:
  assumes "indiIds pm" and "famTail S"
  shows "spliceBackReferences pm fm ctp fams (xs @ S) = spliceBackReferences pm fm ctp fams xs @ S"
proof -
  have a: "foldl (famcStep pm fm) (ys @ S) es = foldl (famcStep pm fm) ys es @ S" for ys es
    by (induction es arbitrary: ys) (simp_all add: famcStep_suffix [OF assms])
  have b: "foldl (famsInsert pm famId) (ys @ S) ss = foldl (famsInsert pm famId) ys ss @ S" for famId ys ss
    by (induction ss arbitrary: ys) (simp_all add: famsInsert_suffix [OF assms])
  have c: "famsStep pm fm (ys @ S) e = famsStep pm fm ys e @ S" for ys e
    by (simp add: famsStep_def b split: option.splits)
  have d: "foldl (famsStep pm fm) (ys @ S) es = foldl (famsStep pm fm) ys es @ S" for ys es
    by (induction es arbitrary: ys) (simp_all add: c)
  show ?thesis by (simp add: spliceBackReferences_def a d)
qed

section \<open>Splicing only adds FAMC and FAMS lines\<close>

lemma spliceBackReferences_filter:
  assumes "\<And>s. \<not> Q (''1 FAMC '' @ s)" and "\<And>s. \<not> Q (''1 FAMS '' @ s)"
  shows "filter Q (spliceBackReferences pm fm ctp fams ls) = filter Q ls"
proof -
  have a: "filter Q (famcStep pm fm ys e) = filter Q ys" for ys e
  proof -
    have "famcStep pm fm ys e = ys \<or> (\<exists>i famId. famcStep pm fm ys e = insertAt i (''1 FAMC '' @ famId) ys)"
      by (auto simp: famcStep_def split: option.splits)
    then show ?thesis
      using filter_insertAt [of Q, OF assms(1)] by (elim disjE exE) (simp_all only:)
  qed
  have a': "filter Q (foldl (famcStep pm fm) ys es) = filter Q ys" for ys es
    by (induction es arbitrary: ys) (simp_all add: a)
  have b: "filter Q (famsInsert pm famId ys s) = filter Q ys" for famId ys s
  proof -
    have "famsInsert pm famId ys s = ys \<or> (\<exists>i. famsInsert pm famId ys s = insertAt i (''1 FAMS '' @ famId) ys)"
      by (auto simp: famsInsert_def split: option.splits)
    then show ?thesis
      using filter_insertAt [of Q, OF assms(2)] by (elim disjE exE) (simp_all only:)
  qed
  have b': "filter Q (foldl (famsInsert pm famId) ys ss) = filter Q ys" for famId ys ss
    by (induction ss arbitrary: ys) (simp_all add: b)
  have c: "filter Q (famsStep pm fm ys e) = filter Q ys" for ys e
    by (simp add: famsStep_def b' split: option.splits)
  have c': "filter Q (foldl (famsStep pm fm) ys es) = filter Q ys" for ys es
    by (induction es arbitrary: ys) (simp_all add: c)
  show ?thesis by (simp add: spliceBackReferences_def a' c')
qed

section \<open>The layout of the document\<close>

lemma plain_or_ref_sub: "plainLine l \<or> refLine l \<Longrightarrow> \<not> prefix ''0 '' l \<and> \<not> prefix ''0 @I'' l"
  by (auto simp: plainLine_def refLine_def prefix_def)

lemma famRecord_noIndi:
  "\<forall>l\<in>set (famRecord ps pm rels c allow (''@F'' @ n) f). \<not> prefix ''0 @I'' l"
proof -
  obtain rest where r: "famRecord ps pm rels c allow (''@F'' @ n) f = (''0 '' @ (''@F'' @ n) @ '' FAM'') # rest"
    "\<forall>l\<in>set rest. plainLine l \<or> refLine l"
    using famRecord_shape by blast
  from r(2) have "\<forall>l\<in>set rest. \<not> prefix ''0 @I'' l"
    using plain_or_ref_sub by blast
  then show ?thesis unfolding r(1) by simp
qed

lemma famRecord_hd:
  "famRecord ps pm rels c allow fid f \<noteq> [] \<and> \<not> prefix ''1 FAMC'' (hd (famRecord ps pm rels c allow fid f))"
  by (simp add: famRecord_def)

lemma famRecords_tail:
  "famTail (concat (map (\<lambda>ie. famRecord ps pm rels c allow (''@F'' @ showNat (fst ie) @ ''@'') (snd (snd ie))) es))"
proof -
  have a: "\<forall>l\<in>set (concat (map (\<lambda>ie. famRecord ps pm rels c allow
      (''@F'' @ showNat (fst ie) @ ''@'') (snd (snd ie))) es)). \<not> prefix ''0 @I'' l"
    using famRecord_noIndi by (induction es) (simp_all only: list.map concat.simps set_append ball_Un ball_empty list.set, blast+)
  have b: "concat (map (\<lambda>ie. famRecord ps pm rels c allow
      (''@F'' @ showNat (fst ie) @ ''@'') (snd (snd ie))) es) = [] \<or>
    \<not> prefix ''1 FAMC'' (hd (concat (map (\<lambda>ie. famRecord ps pm rels c allow
      (''@F'' @ showNat (fst ie) @ ''@'') (snd (snd ie))) es)))"
  proof (cases es)
    case Nil
    then show ?thesis by simp
  next
    case (Cons ie es')
    show ?thesis
      unfolding Cons list.map concat.simps
      using famRecord_hd [of ps pm rels c allow "''@F'' @ showNat (fst ie) @ ''@''" "snd (snd ie)"]
      by (simp only: hd_append2 simp_thms)
  qed
  from a b show ?thesis unfolding famTail_def by (rule conjI)
qed

lemma famLines_tail: "famTail (snd (snd (famStateOf ps rels options)))"
  unfolding famStateOf_def famLoop_def
  by (subst famStep_fold) (simp only: snd_conv append_Nil famRecords_tail)

theorem convertLines_layout:
  "convertLines now ps rels options =
     headerLines now (case treeName options of None \<Rightarrow> ''FamilySearch Import'' | Some t \<Rightarrow> t) @
     sourceRecords 1 (buildSourceMap ps) @
     spliceBackReferences (personIdMapOf ps) (fst (snd (famStateOf ps rels options)))
       (fst (graphOf ps rels)) (snd (graphOf ps rels)) (indiLinesOf ps rels options) @
     snd (snd (famStateOf ps rels options)) @
     [''0 TRLR'']"
  unfolding convertLines_structure
  by (simp add: spliceBackReferences_suffix [OF personIdMapOf_ids famLines_tail])

section \<open>The lines of the INDI records\<close>

lemma indiStep_shape:
  assumes "indiIds pm"
  shows "indiStep il inc env sm pm allow p2f orphans person = [] \<or>
     (\<exists>g rest. prefix ''@I'' g \<and>
        indiStep il inc env sm pm allow p2f orphans person = (''0 '' @ g @ '' INDI'') # rest \<and>
        (\<forall>l\<in>set rest. plainLine l \<or> citationOf (length sm) l))"
proof (cases "map_of pm (person_id person)")
  case None
  then show ?thesis by (simp add: indiStep_def)
next
  case (Some g)
  with assms have g: "prefix ''@I'' g" unfolding indiIds_def by blast
  show ?thesis
  proof (cases "isOrphanPerson allow p2f orphans (person_id person)")
    case True
    with Some show ?thesis by (simp add: indiStep_def)
  next
    case False
    with Some have "indiStep il inc env sm pm allow p2f orphans person = indiRecord il inc env sm g person"
      by (simp add: indiStep_def)
    with g indiRecord_shape [of il inc env sm g person] show ?thesis by auto
  qed
qed

lemma citationOf_sub: "citationOf m l \<Longrightarrow> \<not> prefix ''0 '' l \<and> prefix ''1 SOUR @'' l"
  by (auto simp: citationOf_def)

lemma plainLine_sub: "plainLine l \<Longrightarrow> \<not> prefix ''0 '' l \<and> \<not> prefix ''1 SOUR @'' l"
  by (auto simp: plainLine_def prefix_def)

text \<open>What a line of the INDI records is, before splicing.\<close>

lemma indiLines_shape:
  assumes "l \<in> set (indiLinesOf ps rels options)"
  shows "prefix ''0 @I'' l \<or> plainLine l \<or> citationOf (length (buildSourceMap ps)) l"
proof -
  from assms obtain person where l: "l \<in> set (indiStep
      (case includeLinks options of None \<Rightarrow> True | Some b \<Rightarrow> b)
      (case includeNotes options of None \<Rightarrow> True | Some b \<Rightarrow> b)
      (case environment options of None \<Rightarrow> production | Some e \<Rightarrow> e)
      (buildSourceMap ps) (personIdMapOf ps) (allowOrphanOf options)
      (buildPersonToFamKeys (snd (graphOf ps rels)))
      (orphanFamKeysOf (connectableOf ps rels options) (snd (graphOf ps rels))) person)"
    by (auto simp: indiLinesOf_def)
  from indiStep_shape [OF personIdMapOf_ids, of _ _ _ "buildSourceMap ps" ps] l
  obtain g rest where g: "prefix ''@I'' g" and r: "l \<in> set ((''0 '' @ g @ '' INDI'') # rest)"
    and p: "\<forall>l\<in>set rest. plainLine l \<or> citationOf (length (buildSourceMap ps)) l"
    by (metis empty_iff empty_set)
  from g have "prefix ''0 @I'' (''0 '' @ g @ '' INDI'')" by (auto simp: prefix_def)
  with r p show ?thesis by auto
qed

section \<open>Structural validity of the FAM records\<close>

lemma graphOf_ok:
  "famsOk (person_id ` set ps) (snd (graphOf ps rels))"
  unfolding graphOf_def using buildGraph_ok by blast

lemma famRecord_valid:
  assumes "famOk V f" and "\<forall>v\<in>V. mapHas pm v" and "\<not> famSuppressed pm c allow f"
  shows "1 \<le> spouseCount (famRecord ps pm rels c allow fid f) \<and>
         (spouseCount (famRecord ps pm rels c allow fid f) = 1 \<longrightarrow>
            1 \<le> childCount (famRecord ps pm rels c allow fid f))"
  using famRecord_counts [OF assms(1,2)] not_suppressed_counts [OF assms] by simp

text \<open>A FAM record of the output: its header, the lines below it, and its validity.\<close>

definition validFamRecord :: "string list \<Rightarrow> bool" where
  "validFamRecord r =
     ((\<exists>n rest. r = (''0 @F'' @ showNat n @ ''@ FAM'') # rest \<and> (\<forall>l\<in>set rest. \<not> prefix ''0 '' l)) \<and>
      1 \<le> spouseCount r \<and> (spouseCount r = 1 \<longrightarrow> 1 \<le> childCount r))"

lemma famLines_valid:
  "\<exists>recs. snd (snd (famStateOf ps rels options)) = concat recs \<and> (\<forall>r\<in>set recs. validFamRecord r)"
proof -
  define pm where "pm = personIdMapOf ps"
  define c where "c = connectableOf ps rels options"
  define allow where "allow = allowOrphanOf options"
  define em where "em = enumerate 1 (filter (\<lambda>e. \<not> famSuppressed pm c allow (snd e)) (snd (graphOf ps rels)))"
  define recs where "recs = map (\<lambda>ie. famRecord ps pm (collectRelationships ps rels) c allow
      (''@F'' @ showNat (fst ie) @ ''@'') (snd (snd ie))) em"
  have e: "snd (snd (famStateOf ps rels options)) = concat recs"
    unfolding famStateOf_def famLoop_def
    by (subst famStep_fold) (simp only: snd_conv append_Nil recs_def em_def pm_def c_def allow_def)
  have "validFamRecord r" if "r \<in> set recs" for r
  proof -
    from that obtain ie where ie: "ie \<in> set em"
      and r: "r = famRecord ps pm (collectRelationships ps rels) c allow
        (''@F'' @ showNat (fst ie) @ ''@'') (snd (snd ie))"
      by (auto simp: recs_def)
    from ie have "snd ie \<in> snd ` set em" by (rule imageI)
    then have "snd ie \<in> set (filter (\<lambda>e. \<not> famSuppressed pm c allow (snd e)) (snd (graphOf ps rels)))"
      unfolding em_def set_map [symmetric] map_snd_enumerate .
    then have m: "snd ie \<in> set (snd (graphOf ps rels))" and n: "\<not> famSuppressed pm c allow (snd (snd ie))"
      by simp_all
    from m graphOf_ok [of ps rels] have ok: "famOk (person_id ` set ps) (snd (snd ie))"
      by (simp add: famsOk_def)
    have has: "\<forall>v\<in>person_id ` set ps. mapHas pm v"
      by (simp add: pm_def mapHas_personIdMapOf)
    obtain rest where s: "r = (''0 '' @ (''@F'' @ showNat (fst ie) @ ''@'') @ '' FAM'') # rest"
      "\<forall>l\<in>set rest. plainLine l \<or> refLine l"
      unfolding r using famRecord_shape by blast
    from s(2) have "\<forall>l\<in>set rest. \<not> prefix ''0 '' l" using plain_or_ref_sub by blast
    with s(1) have "\<exists>n rest. r = (''0 @F'' @ showNat n @ ''@ FAM'') # rest \<and> (\<forall>l\<in>set rest. \<not> prefix ''0 '' l)"
      by (intro exI [of _ "fst ie"] exI [of _ rest]) simp
    with famRecord_valid [OF ok has n] show ?thesis
      unfolding validFamRecord_def r by blast
  qed
  with e show ?thesis by blast
qed

lemma subLine_hd:
  "plainLine l \<or> refLine l \<or> citationOf m l \<Longrightarrow> hd l = CHR ''1'' \<or> hd l = CHR ''2''"
  by (auto simp: plainLine_def refLine_def citationOf_def prefix_def)

lemma subLine_not_header:
  assumes "plainLine l \<or> refLine l \<or> citationOf m l"
  shows "\<not> prefix (CHR ''0'' # q) l"
proof
  assume "prefix (CHR ''0'' # q) l"
  then have "hd l = CHR ''0''" by (auto simp: prefix_def)
  with subLine_hd [OF assms] show False by simp
qed

lemma indiHeader_not_fam: "prefix ''0 @I'' l \<Longrightarrow> \<not> prefix ''0 @F'' l"
  by (auto simp: prefix_def)

lemma spliced_indi_filter:
  assumes "\<And>s. \<not> Q (''1 FAMC '' @ s)" and "\<And>s. \<not> Q (''1 FAMS '' @ s)"
  shows "filter Q (convertLines now ps rels options) =
     filter Q (headerLines now (case treeName options of None \<Rightarrow> ''FamilySearch Import'' | Some t \<Rightarrow> t)) @
     filter Q (sourceRecords 1 (buildSourceMap ps)) @
     filter Q (indiLinesOf ps rels options) @
     filter Q (snd (snd (famStateOf ps rels options))) @
     filter Q [''0 TRLR'']"
  unfolding convertLines_layout filter_append spliceBackReferences_filter [of Q, OF assms] ..

text \<open>
  The lines the converter pushes are a part without any FAM header, then the FAM records,
  then the trailer; every FAM record has its header, no other record header below it, at
  least one HUSB or WIFE line, and at least one CHIL line when it has exactly one HUSB or
  WIFE line. A family with no spouse in the person map, or with one spouse and no child,
  is suppressed by \<open>famSuppressed\<close> and has no record.
\<close>

lemma pushed_fam_records_valid:
  "\<exists>pre recs. convertLines now ps rels options = pre @ concat recs @ [''0 TRLR''] \<and>
      (\<forall>l\<in>set pre. \<not> prefix ''0 @F'' l) \<and> (\<forall>r\<in>set recs. validFamRecord r)"
proof -
  define pre where "pre =
     headerLines now (case treeName options of None \<Rightarrow> ''FamilySearch Import'' | Some t \<Rightarrow> t) @
     sourceRecords 1 (buildSourceMap ps) @
     spliceBackReferences (personIdMapOf ps) (fst (snd (famStateOf ps rels options)))
       (fst (graphOf ps rels)) (snd (graphOf ps rels)) (indiLinesOf ps rels options)"
  obtain recs where recs: "snd (snd (famStateOf ps rels options)) = concat recs"
    "\<forall>r\<in>set recs. validFamRecord r"
    using famLines_valid by blast
  have l: "convertLines now ps rels options = pre @ concat recs @ [''0 TRLR'']"
    unfolding convertLines_layout pre_def recs(1) by simp
  have h: "\<forall>l\<in>set (headerLines now tn). \<not> prefix ''0 @F'' l" for tn
    by (simp add: headerLines_def)
  have s: "\<forall>l\<in>set (sourceRecords n sm). \<not> prefix ''0 @F'' l" for n sm
  proof (induction sm arbitrary: n)
    case Nil
    then show ?case by simp
  next
    case (Cons e sm)
    obtain k src where e: "e = (k, src)" by (cases e)
    obtain rest where r: "sourceRecord n src = (''0 @S'' @ showNat n @ ''@ SOUR'') # rest"
      "\<forall>l\<in>set rest. plainLine l"
      using sourceRecord_shape by blast
    from r(2) have "\<forall>l\<in>set rest. \<not> prefix ''0 @F'' l" using subLine_not_header by blast
    with Cons [of "Suc n"] show ?case unfolding e by (simp add: r(1) ball_Un)
  qed
  have i: "\<forall>l\<in>set (indiLinesOf ps rels options). \<not> prefix ''0 @F'' l"
  proof
    fix l assume "l \<in> set (indiLinesOf ps rels options)"
    from indiLines_shape [OF this] show "\<not> prefix ''0 @F'' l"
      using subLine_not_header [of l] indiHeader_not_fam [of l] by blast
  qed
  have "filter (prefix ''0 @F'') (spliceBackReferences (personIdMapOf ps)
       (fst (snd (famStateOf ps rels options)))
       (fst (graphOf ps rels)) (snd (graphOf ps rels)) (indiLinesOf ps rels options)) =
     filter (prefix ''0 @F'') (indiLinesOf ps rels options)"
    by (rule spliceBackReferences_filter) simp_all
  also have "\<dots> = []" using i by (simp add: filter_empty_conv)
  finally have x: "\<forall>l\<in>set (spliceBackReferences (personIdMapOf ps)
       (fst (snd (famStateOf ps rels options)))
       (fst (graphOf ps rels)) (snd (graphOf ps rels)) (indiLinesOf ps rels options)).
       \<not> prefix ''0 @F'' l"
    by (simp add: filter_empty_conv)
  from h s x have "\<forall>l\<in>set pre. \<not> prefix ''0 @F'' l"
    unfolding pre_def by (simp add: ball_Un)
  with l recs(2) show ?thesis by blast
qed

section \<open>The orphan toggle\<close>

lemma indiHeaders_of_output:
  "filter (prefix ''0 @I'') (convertLines now ps rels options) =
   filter (prefix ''0 @I'') (indiLinesOf ps rels options)"
proof -
  have h: "filter (prefix ''0 @I'') (headerLines now tn) = []" for tn
    using headerLines_noIndi [of now tn] by (simp add: filter_empty_conv)
  have s: "filter (prefix ''0 @I'') (sourceRecords n (buildSourceMap ps)) = []" for n
    using sourceRecords_noIndi [of n "buildSourceMap ps"] by (simp add: filter_empty_conv)
  have f: "filter (prefix ''0 @I'') (snd (snd (famStateOf ps rels options))) = []"
    using famLines_tail [of ps rels options] by (simp add: famTail_def filter_empty_conv)
  show ?thesis
    by (subst spliced_indi_filter) (simp_all add: h s f)
qed

lemma indiStep_allow:
  "set (indiStep il inc env sm pm allow p2f orphans person) \<subseteq>
   set (indiStep il inc env sm pm True p2f orphans person)"
  by (auto simp: indiStep_def isOrphanPerson_def split: option.splits)

lemma indiLinesOf_allow:
  "set (indiLinesOf ps rels options) \<subseteq>
   set (indiLinesOf ps rels (options\<lparr>allowOrphanFamilies := Some True\<rparr>))"
proof -
  have c: "connectableOf ps rels (options\<lparr>allowOrphanFamilies := Some True\<rparr>) = connectableOf ps rels options"
    by (simp add: connectableOf_def)
  have a: "allowOrphanOf (options\<lparr>allowOrphanFamilies := Some True\<rparr>) = True"
    by (simp add: allowOrphanOf_def)
  show ?thesis
    unfolding indiLinesOf_def c a using indiStep_allow by (fastforce simp del: set_concat simp: set_concat)
qed

lemma famSuppressed_allow:
  "\<not> famSuppressed pm c allow f \<Longrightarrow> \<not> famSuppressed pm c True f"
  by (simp add: famSuppressed_def Let_def)

lemma familyKeys_allow:
  "fst ` set (fst (snd (famStateOf ps rels options))) \<subseteq>
   fst ` set (fst (snd (famStateOf ps rels (options\<lparr>allowOrphanFamilies := Some True\<rparr>))))"
proof -
  have c: "connectableOf ps rels (options\<lparr>allowOrphanFamilies := Some True\<rparr>) = connectableOf ps rels options"
    by (simp add: connectableOf_def)
  have a: "allowOrphanOf (options\<lparr>allowOrphanFamilies := Some True\<rparr>) = True"
    by (simp add: allowOrphanOf_def)
  show ?thesis
    unfolding famStateOf_def famLoop_def famStep_keys c a
    using famSuppressed_allow by auto
qed

text \<open>
  C7: the INDI headers of the output, and the keys of the families that have a FAM record,
  with any options are among those with \<open>allowOrphanFamilies\<close> set to true.
\<close>

theorem allowOrphanFamilies_superset:
  "set (filter (prefix ''0 @I'') (convertLines now ps rels options)) \<subseteq>
   set (filter (prefix ''0 @I'')
          (convertLines now ps rels (options\<lparr>allowOrphanFamilies := Some True\<rparr>))) \<and>
   fst ` set (fst (snd (famStateOf ps rels options))) \<subseteq>
   fst ` set (fst (snd (famStateOf ps rels (options\<lparr>allowOrphanFamilies := Some True\<rparr>))))"
proof
  show "set (filter (prefix ''0 @I'') (convertLines now ps rels options)) \<subseteq>
   set (filter (prefix ''0 @I'')
          (convertLines now ps rels (options\<lparr>allowOrphanFamilies := Some True\<rparr>)))"
    unfolding indiHeaders_of_output using indiLinesOf_allow [of ps rels options] by auto
  show "fst ` set (fst (snd (famStateOf ps rels options))) \<subseteq>
   fst ` set (fst (snd (famStateOf ps rels (options\<lparr>allowOrphanFamilies := Some True\<rparr>))))"
    by (rule familyKeys_allow)
qed

theorem allowOrphanFamilies_superset_witness:
  "set (filter (prefix ''0 @I'')
     (convertLines (dateAt 5 0) [plainPerson ''P4'', plainPerson ''P5'', plainPerson ''P1'']
        (Some [plainRel ''r1'' ''http://gedcomx.org/Couple'' ''P4'' ''P5''])
        (seedOptions (Some [''P1''])))) \<subseteq>
   set (filter (prefix ''0 @I'')
     (convertLines (dateAt 5 0) [plainPerson ''P4'', plainPerson ''P5'', plainPerson ''P1'']
        (Some [plainRel ''r1'' ''http://gedcomx.org/Couple'' ''P4'' ''P5''])
        ((seedOptions (Some [''P1'']))\<lparr>allowOrphanFamilies := Some True\<rparr>))) \<and>
   fst ` set (fst (snd (famStateOf [plainPerson ''P4'', plainPerson ''P5'', plainPerson ''P1'']
        (Some [plainRel ''r1'' ''http://gedcomx.org/Couple'' ''P4'' ''P5''])
        (seedOptions (Some [''P1''])))))
   \<subseteq> fst ` set (fst (snd (famStateOf [plainPerson ''P4'', plainPerson ''P5'', plainPerson ''P1'']
        (Some [plainRel ''r1'' ''http://gedcomx.org/Couple'' ''P4'' ''P5''])
        ((seedOptions (Some [''P1'']))\<lparr>allowOrphanFamilies := Some True\<rparr>))))"
  by (rule allowOrphanFamilies_superset)

section \<open>Source citations\<close>

lemma sourceRecords_headers:
  "k \<le> n \<Longrightarrow> n < k + length sm \<Longrightarrow> (''0 @S'' @ showNat n @ ''@ SOUR'') \<in> set (sourceRecords k sm)"
proof (induction sm arbitrary: k)
  case Nil
  then show ?case by simp
next
  case (Cons e sm)
  obtain key src where e: "e = (key, src)" by (cases e)
  obtain rest where r: "sourceRecord k src = (''0 @S'' @ showNat k @ ''@ SOUR'') # rest"
    using sourceRecord_shape by blast
  show ?case
  proof (cases "n = k")
    case True
    then show ?thesis unfolding e by (simp add: r)
  next
    case False
    with Cons.prems have "Suc k \<le> n" "n < Suc k + length sm" by simp_all
    then have "(''0 @S'' @ showNat n @ ''@ SOUR'') \<in> set (sourceRecords (Suc k) sm)"
      by (rule Cons.IH)
    then show ?thesis unfolding e by simp
  qed
qed

lemma sourceRecords_noCitation: "\<forall>l\<in>set (sourceRecords k sm). \<not> prefix ''1 SOUR @'' l"
proof (induction sm arbitrary: k)
  case Nil
  then show ?case by simp
next
  case (Cons e sm)
  obtain key src where e: "e = (key, src)" by (cases e)
  obtain rest where r: "sourceRecord k src = (''0 @S'' @ showNat k @ ''@ SOUR'') # rest"
    "\<forall>l\<in>set rest. plainLine l"
    using sourceRecord_shape by blast
  from r(2) have "\<forall>l\<in>set rest. \<not> prefix ''1 SOUR @'' l" by (simp add: plainLine_def)
  with Cons [of "Suc k"] show ?case unfolding e by (simp add: r(1) ball_Un)
qed

lemma famLines_shape:
  assumes "l \<in> set (snd (snd (famStateOf ps rels options)))"
  shows "prefix ''0 @F'' l \<or> plainLine l \<or> refLine l"
proof -
  have "snd (snd (famStateOf ps rels options)) =
      concat (map (\<lambda>ie. famRecord ps (personIdMapOf ps) (collectRelationships ps rels)
           (connectableOf ps rels options) (allowOrphanOf options)
           (''@F'' @ showNat (fst ie) @ ''@'') (snd (snd ie)))
        (enumerate 1 (filter (\<lambda>e. \<not> famSuppressed (personIdMapOf ps) (connectableOf ps rels options)
           (allowOrphanOf options) (snd e)) (snd (graphOf ps rels)))))"
    unfolding famStateOf_def famLoop_def
    by (subst famStep_fold) (simp only: snd_conv append_Nil)
  with assms obtain ie where "l \<in> set (famRecord ps (personIdMapOf ps) (collectRelationships ps rels)
           (connectableOf ps rels options) (allowOrphanOf options)
           (''@F'' @ showNat (fst ie) @ ''@'') (snd (snd ie)))"
    by auto
  moreover obtain rest where "famRecord ps (personIdMapOf ps) (collectRelationships ps rels)
           (connectableOf ps rels options) (allowOrphanOf options)
           (''@F'' @ showNat (fst ie) @ ''@'') (snd (snd ie)) =
        (''0 '' @ (''@F'' @ showNat (fst ie) @ ''@'') @ '' FAM'') # rest"
    "\<forall>l\<in>set rest. plainLine l \<or> refLine l"
    using famRecord_shape by blast
  ultimately have "l = ''0 '' @ (''@F'' @ showNat (fst ie) @ ''@'') @ '' FAM'' \<or> plainLine l \<or> refLine l"
    by auto
  then show ?thesis by auto
qed

lemma noCitation: "prefix ''0 @F'' l \<or> prefix ''0 @I'' l \<or> plainLine l \<or> refLine l \<Longrightarrow> \<not> prefix ''1 SOUR @'' l"
  by (auto simp: plainLine_def refLine_def prefix_def)

text \<open>
  A line that the converter pushes and that starts with \<^verbatim>\<open>1 SOUR @\<close> is \<^verbatim>\<open>1 SOUR @S<n>@\<close>
  for some \<open>n\<close> from 1 to the number of sources of the deduplicated map, and the header
  \<^verbatim>\<open>0 @S<n>@ SOUR\<close> of that source record is a line pushed before it.
\<close>

lemma pushed_citations_resolve:
  assumes "i < length (convertLines now ps rels options)"
    and "prefix ''1 SOUR @'' (convertLines now ps rels options ! i)"
  shows "\<exists>n j. 1 \<le> n \<and> n \<le> length (buildSourceMap ps) \<and>
     convertLines now ps rels options ! i = ''1 SOUR @S'' @ showNat n @ ''@'' \<and>
     j < i \<and> convertLines now ps rels options ! j = ''0 @S'' @ showNat n @ ''@ SOUR''"
proof -
  define L where "L = convertLines now ps rels options"
  define H where "H = headerLines now (case treeName options of None \<Rightarrow> ''FamilySearch Import'' | Some t \<Rightarrow> t)"
  define R where "R = sourceRecords 1 (buildSourceMap ps)"
  define rest where "rest = spliceBackReferences (personIdMapOf ps) (fst (snd (famStateOf ps rels options)))
       (fst (graphOf ps rels)) (snd (graphOf ps rels)) (indiLinesOf ps rels options) @
     snd (snd (famStateOf ps rels options)) @ [''0 TRLR'']"
  have lay: "L = (H @ R) @ rest"
    unfolding L_def H_def R_def rest_def convertLines_layout by simp
  have nH: "\<forall>l\<in>set H. \<not> prefix ''1 SOUR @'' l" by (simp add: H_def headerLines_def)
  have nR: "\<forall>l\<in>set R. \<not> prefix ''1 SOUR @'' l" unfolding R_def by (rule sourceRecords_noCitation)
  have ge: "length (H @ R) \<le> i"
  proof (rule ccontr)
    assume "\<not> length (H @ R) \<le> i"
    then have "i < length (H @ R)" by simp
    then have "L ! i = (H @ R) ! i" "(H @ R) ! i \<in> set (H @ R)"
      unfolding lay by (simp_all add: nth_append del: append_assoc)
    with nH nR assms(2) show False unfolding L_def [symmetric] by auto
  qed
  have "L ! i \<in> set (filter (prefix ''1 SOUR @'') L)"
    using assms unfolding L_def [symmetric] by simp
  also have "filter (prefix ''1 SOUR @'') L =
     filter (prefix ''1 SOUR @'') H @ filter (prefix ''1 SOUR @'') R @
     filter (prefix ''1 SOUR @'') (indiLinesOf ps rels options) @
     filter (prefix ''1 SOUR @'') (snd (snd (famStateOf ps rels options))) @
     filter (prefix ''1 SOUR @'') [''0 TRLR'']"
    unfolding L_def H_def R_def by (rule spliced_indi_filter) simp_all
  finally have "L ! i \<in> set H \<or> L ! i \<in> set R \<or> L ! i \<in> set (indiLinesOf ps rels options) \<or>
      L ! i \<in> set (snd (snd (famStateOf ps rels options)))"
    by auto
  with nH nR assms(2) famLines_shape [of "L ! i" ps rels options] noCitation [of "L ! i"]
  have "L ! i \<in> set (indiLinesOf ps rels options)"
    unfolding L_def [symmetric] by blast
  from indiLines_shape [OF this] assms(2) noCitation [of "L ! i"]
  have "citationOf (length (buildSourceMap ps)) (L ! i)"
    unfolding L_def [symmetric] by blast
  then obtain n where n: "1 \<le> n" "n \<le> length (buildSourceMap ps)"
    "L ! i = ''1 SOUR @S'' @ showNat n @ ''@''"
    unfolding citationOf_def by blast
  from n(1,2) have "(''0 @S'' @ showNat n @ ''@ SOUR'') \<in> set R"
    unfolding R_def by (intro sourceRecords_headers) simp_all
  then obtain j where j: "j < length R" "R ! j = ''0 @S'' @ showNat n @ ''@ SOUR''"
    by (auto simp: in_set_conv_nth)
  have "L ! (length H + j) = R ! j"
    unfolding lay using j(1) by (simp add: nth_append)
  moreover have "length H + j < i" using j(1) ge by simp
  ultimately show ?thesis
    using n j(2) unfolding L_def [symmetric] by metis
qed

section \<open>Record identifiers\<close>

text \<open>The record headers, by number.\<close>

definition sourceHeader :: "nat \<Rightarrow> string" where
  "sourceHeader n = ''0 @S'' @ showNat n @ ''@ SOUR''"

definition indiHeader :: "nat \<Rightarrow> string" where
  "indiHeader n = ''0 @I'' @ showNat n @ ''@ INDI''"

definition famHeader :: "nat \<Rightarrow> string" where
  "famHeader n = ''0 @F'' @ showNat n @ ''@ FAM''"

lemma digitChar_inj: "a < 10 \<Longrightarrow> b < 10 \<Longrightarrow> digitChar a = digitChar b \<Longrightarrow> a = b"
proof -
  assume a: "a < 10" and b: "b < 10" and e: "digitChar a = digitChar b"
  from e have "(of_char (digitChar a) :: nat) = of_char (digitChar b)" by simp
  then have "(48 + a) mod 256 = (48 + b) mod 256"
    by (simp add: digitChar_def take_bit_eq_mod)
  with a b show "a = b" by simp
qed

lemma showNat_nonempty: "showNat n \<noteq> []"
  by (subst showNat.simps) simp

lemma showNat_length: "length (showNat n) = 1 \<longleftrightarrow> n < 10"
proof (cases "n < 10")
  case True
  then show ?thesis by (simp add: showNat.simps)
next
  case False
  then have "showNat n = showNat (n div 10) @ [digitChar (n mod 10)]"
    by (subst showNat.simps) simp
  with False showNat_nonempty [of "n div 10"] show ?thesis by simp
qed

lemma showNat_inj: "showNat m = showNat n \<Longrightarrow> m = n"
proof (induction m arbitrary: n rule: showNat.induct)
  case (1 m)
  from "1.prems" have l: "m < 10 \<longleftrightarrow> n < 10"
    using showNat_length [of m] showNat_length [of n] by simp
  show ?case
  proof (cases "m < 10")
    case True
    with l "1.prems" show ?thesis by (simp add: showNat.simps digitChar_inj)
  next
    case False
    with l have n: "\<not> n < 10" by simp
    from "1.prems" False n have "showNat (m div 10) @ [digitChar (m mod 10)] =
        showNat (n div 10) @ [digitChar (n mod 10)]"
      by (simp add: showNat.simps [of m] showNat.simps [of n])
    then have "showNat (m div 10) = showNat (n div 10)" "digitChar (m mod 10) = digitChar (n mod 10)"
      by simp_all
    with "1.IH" [OF False] have "m div 10 = n div 10" "m mod 10 = n mod 10"
      by (simp_all add: digitChar_inj)
    then show ?thesis by (metis div_mult_mod_eq)
  qed
qed

lemma upt_shift: "[k ..< k + Suc n] = k # [Suc k ..< Suc k + n]"
  by (subst upt_rec) simp

lemma buildPersonIdMap_other:
  "key \<notin> person_id ` set ps \<Longrightarrow> map_of (buildPersonIdMap k ps m) key = map_of m key"
  by (induction ps arbitrary: k m) (simp_all add: update_conv')

lemma buildPersonIdMap_position:
  assumes "distinct (map person_id ps)" and "ip \<in> set (enumerate k ps)"
  shows "map_of (buildPersonIdMap k ps m) (person_id (snd ip)) = Some (''@I'' @ showNat (fst ip + 1) @ ''@'')"
  using assms
proof (induction ps arbitrary: k m)
  case Nil
  then show ?case by simp
next
  case (Cons p ps)
  from Cons.prems(2) have "ip = (k, p) \<or> ip \<in> set (enumerate (Suc k) ps)" by simp
  then show ?case
  proof
    assume ip: "ip = (k, p)"
    from Cons.prems(1) have "person_id p \<notin> person_id ` set ps" by simp
    then show ?thesis
      unfolding ip by (simp add: buildPersonIdMap_other update_conv')
  next
    assume "ip \<in> set (enumerate (Suc k) ps)"
    with Cons.prems(1) Cons.IH [of "Suc k"] show ?thesis by simp
  qed
qed

lemma concat_if_map:
  "concat (map (\<lambda>x. if c x then [] else [h x]) xs) = map h (filter (\<lambda>x. \<not> c x) xs)"
  by (induction xs) simp_all

lemma sourceRecord_filter: "filter (prefix ''0 '') (sourceRecord k src) = [sourceHeader k]"
proof -
  obtain rest where r: "sourceRecord k src = (''0 @S'' @ showNat k @ ''@ SOUR'') # rest"
    "\<forall>l\<in>set rest. plainLine l"
    using sourceRecord_shape by blast
  from r(2) have "filter (prefix ''0 '') rest = []"
    using subLine_not_header [of _ undefined "'' ''"] by (auto simp: filter_empty_conv)
  then show ?thesis unfolding r(1) sourceHeader_def by simp
qed

lemma sourceRecords_filter:
  "filter (prefix ''0 '') (sourceRecords k sm) = map sourceHeader [k ..< k + length sm]"
proof (induction sm arbitrary: k)
  case Nil
  then show ?case by simp
next
  case (Cons e sm)
  obtain key src where e: "e = (key, src)" by (cases e)
  have u: "[k ..< k + length ((key, src) # sm)] = k # [Suc k ..< Suc k + length sm]"
  proof -
    have l: "length ((key, src) # sm) = Suc (length sm)" by simp
    show ?thesis unfolding l by (rule upt_shift)
  qed
  have "filter (prefix ''0 '') (sourceRecords k ((key, src) # sm)) =
      [sourceHeader k] @ map sourceHeader [Suc k ..< Suc k + length sm]"
    by (simp only: sourceRecords.simps filter_append sourceRecord_filter Cons.IH)
  then show ?case unfolding e u by (simp only: list.map append_Cons append_Nil)
qed

lemma famRecord_filter:
  "filter (prefix ''0 '') (famRecord ps pm rels c allow (''@F'' @ showNat n @ ''@'') f) = [famHeader n]"
proof -
  obtain rest where r: "famRecord ps pm rels c allow (''@F'' @ showNat n @ ''@'') f =
      (''0 '' @ (''@F'' @ showNat n @ ''@'') @ '' FAM'') # rest"
    "\<forall>l\<in>set rest. plainLine l \<or> refLine l"
    using famRecord_shape by blast
  from r(2) have "filter (prefix ''0 '') rest = []"
    using subLine_not_header [of _ undefined "'' ''"] by (auto simp: filter_empty_conv)
  then show ?thesis unfolding r(1) famHeader_def by simp
qed

lemma famLines_filter:
  "filter (prefix ''0 '') (snd (snd (famStateOf ps rels options))) =
   map famHeader [1 ..< fst (famStateOf ps rels options)]"
proof -
  define em where "em = filter (\<lambda>e. \<not> famSuppressed (personIdMapOf ps) (connectableOf ps rels options)
           (allowOrphanOf options) (snd e)) (snd (graphOf ps rels))"
  have st: "famStateOf ps rels options =
     (1 + length em, fst (snd (famStateOf ps rels options)),
      [] @ concat (map (\<lambda>ie. famRecord ps (personIdMapOf ps) (collectRelationships ps rels)
           (connectableOf ps rels options) (allowOrphanOf options)
           (''@F'' @ showNat (fst ie) @ ''@'') (snd (snd ie))) (enumerate 1 em)))"
    unfolding famStateOf_def famLoop_def em_def by (rule famStep_fold)
  have g: "filter (prefix ''0 '') (concat (map (\<lambda>ie. famRecord ps pm rs c allow
           (''@F'' @ showNat (fst ie) @ ''@'') (snd (snd ie))) es)) =
      map famHeader (map fst es)" for pm rs c allow es
  proof (induction es)
    case Nil
    show ?case by simp
  next
    case (Cons e es)
    have "filter (prefix ''0 '') (concat (map (\<lambda>ie. famRecord ps pm rs c allow
           (''@F'' @ showNat (fst ie) @ ''@'') (snd (snd ie))) (e # es))) =
        [famHeader (fst e)] @ map famHeader (map fst es)"
      by (simp only: list.map concat.simps filter_append famRecord_filter Cons.IH)
    then show ?case by (simp only: list.map append_Cons append_Nil)
  qed
  have "filter (prefix ''0 '') (snd (snd (famStateOf ps rels options))) =
      map famHeader (map fst (enumerate 1 em))"
    by (subst st) (simp only: snd_conv append_Nil g)
  also have "map fst (enumerate 1 em) = [1 ..< 1 + length em]" by (rule map_fst_enumerate)
  also have "1 + length em = fst (famStateOf ps rels options)" by (subst st) simp
  finally show ?thesis .
qed

lemma indiStep_filter:
  assumes "map_of pm (person_id person) = Some g"
  shows "filter (prefix ''0 '') (indiStep il inc env sm pm allow p2f orphans person) =
     (if isOrphanPerson allow p2f orphans (person_id person) then [] else [''0 '' @ g @ '' INDI''])"
proof (cases "isOrphanPerson allow p2f orphans (person_id person)")
  case True
  with assms show ?thesis by (simp add: indiStep_def)
next
  case False
  obtain rest where r: "indiRecord il inc env sm g person = (''0 '' @ g @ '' INDI'') # rest"
    "\<forall>l\<in>set rest. plainLine l \<or> citationOf (length sm) l"
    using indiRecord_shape by blast
  from r(2) have "filter (prefix ''0 '') rest = []"
    using subLine_not_header [of _ "length sm" "'' ''"] by (auto simp: filter_empty_conv)
  with False assms show ?thesis by (simp add: indiStep_def r(1))
qed

lemma indiLines_filter:
  assumes "distinct (map person_id ps)"
  shows "filter (prefix ''0 '') (indiLinesOf ps rels options) =
     map (\<lambda>ip. indiHeader (fst ip + 1))
       (filter (\<lambda>ip. \<not> isOrphanPerson (allowOrphanOf options)
                        (buildPersonToFamKeys (snd (graphOf ps rels)))
                        (orphanFamKeysOf (connectableOf ps rels options) (snd (graphOf ps rels)))
                        (person_id (snd ip)))
          (enumerate 0 ps))"
proof -
  define G where "G = (\<lambda>person. filter (prefix ''0 '') (indiStep
      (case includeLinks options of None \<Rightarrow> True | Some b \<Rightarrow> b)
      (case includeNotes options of None \<Rightarrow> True | Some b \<Rightarrow> b)
      (case environment options of None \<Rightarrow> production | Some e \<Rightarrow> e)
      (buildSourceMap ps) (personIdMapOf ps) (allowOrphanOf options)
      (buildPersonToFamKeys (snd (graphOf ps rels)))
      (orphanFamKeysOf (connectableOf ps rels options) (snd (graphOf ps rels))) person))"
  define c where "c = (\<lambda>ip :: nat \<times> EnhancedPerson. isOrphanPerson (allowOrphanOf options)
                        (buildPersonToFamKeys (snd (graphOf ps rels)))
                        (orphanFamKeysOf (connectableOf ps rels options) (snd (graphOf ps rels)))
                        (person_id (snd ip)))"
  define h where "h = (\<lambda>ip :: nat \<times> EnhancedPerson. indiHeader (fst ip + 1))"
  have "filter (prefix ''0 '') (indiLinesOf ps rels options) = concat (map G ps)"
    by (simp add: indiLinesOf_def G_def filter_concat comp_def)
  also have "map G ps = map G (map snd (enumerate 0 ps))" by (simp only: map_snd_enumerate)
  also have "\<dots> = map (\<lambda>ip. G (snd ip)) (enumerate 0 ps)" by (simp only: map_map comp_def)
  also have "\<dots> = map (\<lambda>ip. if c ip then [] else [h ip]) (enumerate 0 ps)"
  proof (rule map_cong [OF refl])
    fix ip assume "ip \<in> set (enumerate 0 ps)"
    with assms have m: "map_of (personIdMapOf ps) (person_id (snd ip)) = Some (''@I'' @ showNat (fst ip + 1) @ ''@'')"
      unfolding personIdMapOf_def by (rule buildPersonIdMap_position)
    show "G (snd ip) = (if c ip then [] else [h ip])"
      unfolding G_def c_def h_def indiHeader_def indiStep_filter [OF m] by simp
  qed
  also have "concat \<dots> = map h (filter (\<lambda>ip. \<not> c ip) (enumerate 0 ps))" by (rule concat_if_map)
  finally show ?thesis unfolding c_def h_def .
qed

text \<open>Headers of different kinds differ in their fourth or last character.\<close>

definition headerKind :: "string \<Rightarrow> char \<times> char" where
  "headerKind l = (l ! 3, last l)"

lemma headerKind_simps:
  "headerKind ''0 HEAD'' = (CHR ''E'', CHR ''D'')"
  "headerKind ''0 @SUBM1@ SUBM'' = (CHR ''S'', CHR ''M'')"
  "headerKind ''0 TRLR'' = (CHR ''R'', CHR ''R'')"
  "headerKind (sourceHeader n) = (CHR ''S'', CHR ''R'')"
  "headerKind (indiHeader n) = (CHR ''I'', CHR ''I'')"
  "headerKind (famHeader n) = (CHR ''F'', CHR ''M'')"
  by (simp_all add: headerKind_def sourceHeader_def indiHeader_def famHeader_def)

lemma headerKind_neq: "headerKind a \<noteq> headerKind b \<Longrightarrow> a \<noteq> b"
  by auto

lemma header_inj: "inj sourceHeader" "inj indiHeader" "inj famHeader"
  by (auto simp: inj_def sourceHeader_def indiHeader_def famHeader_def dest: showNat_inj)

lemma notin_map: "(\<And>x. a \<noteq> f x) \<Longrightarrow> a \<notin> set (map f xs)"
  by auto

lemma disjoint_maps: "(\<And>x y. f x \<noteq> g y) \<Longrightarrow> set (map f xs) \<inter> set (map g ys) = {}"
  by auto

lemma headers_distinct:
  assumes "distinct ns" and "distinct is" and "distinct fs"
  shows "distinct ([''0 HEAD'', ''0 @SUBM1@ SUBM''] @ map sourceHeader ns @ map indiHeader is @
     map famHeader fs @ [''0 TRLR''])"
proof -
  have d: "distinct (map sourceHeader ns)" "distinct (map indiHeader is)" "distinct (map famHeader fs)"
    using assms header_inj by (simp_all add: distinct_map inj_on_def inj_def)
  have n: "''0 HEAD'' \<noteq> ''0 @SUBM1@ SUBM''" "''0 HEAD'' \<noteq> ''0 TRLR''" "''0 @SUBM1@ SUBM'' \<noteq> ''0 TRLR''"
    "\<And>n. ''0 HEAD'' \<noteq> sourceHeader n" "\<And>n. ''0 HEAD'' \<noteq> indiHeader n" "\<And>n. ''0 HEAD'' \<noteq> famHeader n"
    "\<And>n. ''0 @SUBM1@ SUBM'' \<noteq> sourceHeader n" "\<And>n. ''0 @SUBM1@ SUBM'' \<noteq> indiHeader n"
    "\<And>n. ''0 @SUBM1@ SUBM'' \<noteq> famHeader n"
    "\<And>n. ''0 TRLR'' \<noteq> sourceHeader n" "\<And>n. ''0 TRLR'' \<noteq> indiHeader n" "\<And>n. ''0 TRLR'' \<noteq> famHeader n"
    "\<And>n m. sourceHeader n \<noteq> indiHeader m" "\<And>n m. sourceHeader n \<noteq> famHeader m"
    "\<And>n m. indiHeader n \<noteq> famHeader m"
    by (rule headerKind_neq, simp only: headerKind_simps, simp)+
  have m: "''0 HEAD'' \<notin> set (map sourceHeader ns)" "''0 HEAD'' \<notin> set (map indiHeader is)"
    "''0 HEAD'' \<notin> set (map famHeader fs)"
    "''0 @SUBM1@ SUBM'' \<notin> set (map sourceHeader ns)" "''0 @SUBM1@ SUBM'' \<notin> set (map indiHeader is)"
    "''0 @SUBM1@ SUBM'' \<notin> set (map famHeader fs)"
    "''0 TRLR'' \<notin> set (map sourceHeader ns)" "''0 TRLR'' \<notin> set (map indiHeader is)"
    "''0 TRLR'' \<notin> set (map famHeader fs)"
    "set (map sourceHeader ns) \<inter> set (map indiHeader is) = {}"
    "set (map sourceHeader ns) \<inter> set (map famHeader fs) = {}"
    "set (map indiHeader is) \<inter> set (map famHeader fs) = {}"
    by (rule notin_map disjoint_maps, rule n)+
  define S where "S = map sourceHeader ns"
  define I where "I = map indiHeader is"
  define F where "F = map famHeader fs"
  define a where "a = ''0 HEAD''"
  define b where "b = ''0 @SUBM1@ SUBM''"
  define t where "t = ''0 TRLR''"
  from d m n(1-3) have "distinct ([a, b] @ S @ I @ F @ [t])"
    unfolding S_def [symmetric] I_def [symmetric] F_def [symmetric] a_def [symmetric]
      b_def [symmetric] t_def [symmetric]
    by auto
  then show ?thesis unfolding S_def I_def F_def a_def b_def t_def .
qed

text \<open>
  Two persons without any link to the seed person come first in the list and are
  suppressed: the only INDI record of the output is the third person's, \<open>@I3@\<close>, and
  \<open>@I1@\<close> and \<open>@I2@\<close> are missing.
\<close>

theorem person_identifiers_gap_counterexample:
  "filter (prefix ''0 @I'')
     (convertLines (dateAt 5 0) [plainPerson ''P4'', plainPerson ''P5'', plainPerson ''P1'']
        (Some [plainRel ''r1'' ''http://gedcomx.org/Couple'' ''P4'' ''P5''])
        (seedOptions (Some [''P1'']))) = [''0 @I3@ INDI'']"
  by code_simp

section \<open>The lines of the returned text\<close>

text \<open>
  The converter returns \<^verbatim>\<open>lines.join("\n")\<close>. A reader of the text sees its lines: the
  pieces between line feeds, \<^verbatim>\<open>text.split("\n")\<close>.
\<close>

fun textLines :: "string \<Rightarrow> string list" where
  "textLines [] = [[]]"
| "textLines (c # cs) =
     (if c = CHR 0x0A then [] # textLines cs
      else (case textLines cs of [] \<Rightarrow> [[c]] | l # ls \<Rightarrow> (c # l) # ls))"

text \<open>A string without a line feed.\<close>

definition noBreak :: "string \<Rightarrow> bool" where
  "noBreak s = (CHR 0x0A \<notin> set s)"

definition noBreakOpt :: "string option \<Rightarrow> bool" where
  "noBreakOpt v = (case v of None \<Rightarrow> True | Some s \<Rightarrow> noBreak s)"

lemma noBreak_simps [simp]:
  "noBreak []"
  "noBreak (c # s) \<longleftrightarrow> c \<noteq> CHR 0x0A \<and> noBreak s"
  "noBreak (a @ b) \<longleftrightarrow> noBreak a \<and> noBreak b"
  by (auto simp: noBreak_def)

lemma noBreakOpt_simps [simp]:
  "noBreakOpt None"
  "noBreakOpt (Some s) = noBreak s"
  by (simp_all add: noBreakOpt_def)

lemma textLines_line: "noBreak l \<Longrightarrow> textLines (l @ CHR 0x0A # t) = l # textLines t"
  by (induction l) simp_all

lemma textLines_single: "noBreak l \<Longrightarrow> textLines l = [l]"
  by (induction l) simp_all

lemma textLines_join:
  "ls \<noteq> [] \<Longrightarrow> list_all noBreak ls \<Longrightarrow> textLines (join [CHR 0x0A] ls) = ls"
proof (induction ls)
  case Nil
  then show ?case by simp
next
  case (Cons l ls)
  show ?case
  proof (cases ls)
    case Nil
    with Cons.prems show ?thesis by (simp add: textLines_single)
  next
    case (Cons m ms)
    with Cons.prems Cons.IH show ?thesis by (simp add: textLines_line)
  qed
qed

section \<open>Values without line breaks\<close>

text \<open>
  The values of the input that the converter writes into a line, each required to be free
  of line feeds. The notes are not among them: the converter replaces their line feeds.
\<close>

definition cleanFact :: "PersonFact \<Rightarrow> bool" where
  "cleanFact f = (noBreakOpt (date_formal f) \<and> noBreakOpt (date_original f) \<and>
     noBreakOpt (place_original f) \<and> noBreakOpt (fact_value f) \<and> noBreakOpt (conclusion_href f))"

definition cleanFacts :: "PersonFact list option \<Rightarrow> bool" where
  "cleanFacts fs = (case fs of None \<Rightarrow> True | Some l \<Rightarrow> list_all cleanFact l)"

definition cleanNameForm :: "NameForm \<Rightarrow> bool" where
  "cleanNameForm nf = (noBreakOpt (fullText nf) \<and>
     (case parts nf of None \<Rightarrow> True | Some ps \<Rightarrow> list_all (\<lambda>p. noBreakOpt (part_value p)) ps))"

definition cleanDisplay :: "PersonDisplay \<Rightarrow> bool" where
  "cleanDisplay d = (noBreakOpt (display_name d) \<and> noBreakOpt (birthDate d) \<and>
     noBreakOpt (birthPlace d) \<and> noBreakOpt (deathDate d) \<and> noBreakOpt (deathPlace d))"

definition cleanSourceRef :: "SourceReference \<Rightarrow> bool" where
  "cleanSourceRef r =
     (case qualifiers r of
        None \<Rightarrow> True
      | Some qs \<Rightarrow> list_all (\<lambda>q. noBreakOpt (qualifier_name q) \<and> noBreakOpt (qualifier_value q)) qs)"

definition cleanPersonData :: "'a PersonData_scheme \<Rightarrow> bool" where
  "cleanPersonData p =
     (noBreak (person_id p) \<and>
      (case display p of None \<Rightarrow> True | Some d \<Rightarrow> cleanDisplay d) \<and>
      (case names p of
         None \<Rightarrow> True
       | Some ns \<Rightarrow> list_all (\<lambda>n. case n of None \<Rightarrow> True | Some fs \<Rightarrow> list_all cleanNameForm fs) ns) \<and>
      cleanFacts (facts p) \<and>
      noBreakOpt (person_href p) \<and>
      (case identifiers p of None \<Rightarrow> True | Some ids \<Rightarrow> list_all (\<lambda>kv. list_all noBreak (snd kv)) ids) \<and>
      (case sources p of None \<Rightarrow> True | Some rs \<Rightarrow> list_all cleanSourceRef rs))"

definition cleanSource :: "SourceDescription \<Rightarrow> bool" where
  "cleanSource sd =
     ((case titles sd of None \<Rightarrow> True | Some l \<Rightarrow> list_all noBreakOpt l) \<and>
      (case citations sd of None \<Rightarrow> True | Some l \<Rightarrow> list_all noBreakOpt l) \<and>
      noBreakOpt (about sd) \<and> noBreakOpt (resourceType sd))"

definition cleanRel :: "Relationship \<Rightarrow> bool" where
  "cleanRel r =
     (cleanFacts (rel_facts r) \<and> cleanFacts (details_facts r) \<and>
      (case details_persons r of None \<Rightarrow> True | Some l \<Rightarrow> list_all cleanFacts l))"

definition cleanDetails :: "PersonWithRelationships \<Rightarrow> bool" where
  "cleanDetails fd =
     ((case fd_persons fd of None \<Rightarrow> True | Some l \<Rightarrow> list_all cleanPersonData l) \<and>
      (case fd_relationships fd of None \<Rightarrow> True | Some l \<Rightarrow> list_all cleanRel l) \<and>
      (case sourceDescriptions fd of None \<Rightarrow> True | Some l \<Rightarrow> list_all cleanSource l))"

definition cleanPerson :: "EnhancedPerson \<Rightarrow> bool" where
  "cleanPerson p =
     (cleanPersonData p \<and> (case fullDetails p of None \<Rightarrow> True | Some fd \<Rightarrow> cleanDetails fd))"

definition cleanInput ::
  "EnhancedPerson list \<Rightarrow> Relationship list option \<Rightarrow> GedcomConversionOptions \<Rightarrow> bool" where
  "cleanInput ps rels options =
     (list_all cleanPerson ps \<and>
      (case rels of None \<Rightarrow> True | Some l \<Rightarrow> list_all cleanRel l) \<and>
      noBreakOpt (treeName options))"

section \<open>No line of the document holds a line break\<close>

lemma digitChar_noBreak: "n < 10 \<Longrightarrow> digitChar n \<noteq> CHR 0x0A"
proof
  assume n: "n < 10" and e: "digitChar n = CHR 0x0A"
  from e have "(of_char (digitChar n) :: nat) = of_char (CHR 0x0A)" by simp
  then have "(48 + n) mod 256 = 10" by (simp add: digitChar_def take_bit_eq_mod)
  with n show False by simp
qed

lemma noBreak_showNat [simp]: "noBreak (showNat n)"
proof (induction n rule: showNat.induct)
  case (1 n)
  show ?case
  proof (cases "n < 10")
    case True
    then show ?thesis by (subst showNat.simps) (simp add: digitChar_noBreak)
  next
    case False
    with 1 have "noBreak (showNat (n div 10))" by simp
    moreover have "digitChar (n mod 10) \<noteq> CHR 0x0A" by (rule digitChar_noBreak) simp
    ultimately show ?thesis using False by (subst showNat.simps) simp
  qed
qed

lemma noBreak_showInt [simp]: "noBreak (showInt i)"
  by (simp add: showInt_def)

lemma noBreak_formatDate [simp]: "noBreak (formatDateForGedcom d)"
proof -
  have "list_all noBreak months" by (simp add: months_def)
  then have "k < length months \<Longrightarrow> noBreak (months ! k)" for k by (simp add: list_all_length)
  then show ?thesis by (simp add: formatDateForGedcom_def)
qed

lemma noBreak_stripSign: "noBreak s \<Longrightarrow> noBreak (stripSign s)"
  by (cases s) auto

lemma noBreak_sub:
  "noBreak s \<Longrightarrow> noBreak (takeWhile P s)"
  "noBreak s \<Longrightarrow> noBreak (dropWhile P s)"
  "noBreak s \<Longrightarrow> noBreak (drop n s)"
  "noBreak s \<Longrightarrow> noBreak (rev s)"
  by (auto simp: noBreak_def dest: set_takeWhileD set_dropWhileD in_set_dropD)

lemma noBreak_trim: "noBreak s \<Longrightarrow> noBreak (trim s)"
  by (simp add: trim_def noBreak_sub)

lemma noBreak_replaceNewlines [simp]: "noBreak (replaceNewlines s)"
  by (induction s) (simp_all add: replaceNewlines_def)

lemma noBreak_detectBaseUrl [simp]: "noBreak (detectBaseUrl url)"
  by (simp add: detectBaseUrl_def)

lemma noBreak_matchPersonId: "matchPersonId url = Some p \<Longrightarrow> noBreak url \<Longrightarrow> noBreak p"
proof (induction url)
  case Nil
  then show ?case by simp
next
  case (Cons c cs)
  define b where "b = (prefix ''persons/'' (c # cs) \<and> takeWhile notSlashQ (drop 8 (c # cs)) \<noteq> [])"
  have m: "matchPersonId (c # cs) =
      (if b then Some (takeWhile notSlashQ (drop 8 (c # cs))) else matchPersonId cs)"
    by (simp only: matchPersonId.simps b_def)
  show ?case
  proof (cases b)
    case True
    with Cons.prems(1) m have "p = takeWhile notSlashQ (drop 8 (c # cs))" by simp
    with Cons.prems(2) show ?thesis by (simp only: noBreak_sub)
  next
    case False
    with Cons.prems(1) m have "matchPersonId cs = Some p" by simp
    moreover from Cons.prems(2) have "noBreak cs" by simp
    ultimately show ?thesis by (rule Cons.IH)
  qed
qed

lemma noBreak_transformFamilySearchUrl:
  "noBreak url \<Longrightarrow> noBreak (transformFamilySearchUrl url)"
proof (cases "matchPersonId url")
  case None
  then show "noBreak url \<Longrightarrow> ?thesis" by (simp add: transformFamilySearchUrl_def)
next
  case (Some p)
  assume u: "noBreak url"
  with Some have "noBreak p" by (rule noBreak_matchPersonId)
  with u Some show ?thesis by (simp add: transformFamilySearchUrl_def)
qed

lemma noBreak_arkAt: "arkAt s = Some m \<Longrightarrow> noBreak s \<Longrightarrow> noBreak m"
proof -
  assume a: "arkAt s = Some m" and s: "noBreak s"
  from s have d: "noBreak (takeWhile notSlashQ (drop 5 s))" "noBreak (dropWhile notSlashQ (drop 5 s))"
    by (simp_all add: noBreak_sub)
  from a obtain c r' where r: "dropWhile notSlashQ (drop 5 s) = c # r'"
    and m: "m = ''ark:/'' @ takeWhile notSlashQ (drop 5 s) @ ''/'' @ takeWhile notSlashQ r'"
    by (auto simp: arkAt_def Let_def split: if_splits list.splits)
  from d(2) r have "noBreak r'" by simp
  then have "noBreak (takeWhile notSlashQ r')" by (rule noBreak_sub)
  with d(1) show ?thesis unfolding m by simp
qed

lemma noBreak_matchArk: "matchArk url = Some m \<Longrightarrow> noBreak url \<Longrightarrow> noBreak m"
proof (induction url)
  case Nil
  then show ?case by simp
next
  case (Cons c cs)
  show ?case
  proof (cases "arkAt (c # cs)")
    case None
    with Cons show ?thesis by simp
  next
    case (Some a)
    with Cons.prems show ?thesis using noBreak_arkAt [of "c # cs" a] by simp
  qed
qed

lemma noBreak_transformSourceUrl: "noBreak url \<Longrightarrow> noBreak (transformSourceUrl url)"
proof (cases "matchArk url")
  case None
  then show "noBreak url \<Longrightarrow> ?thesis" by (simp add: transformSourceUrl_def)
next
  case (Some m)
  assume u: "noBreak url"
  with Some have "noBreak m" by (rule noBreak_matchArk)
  with u Some show ?thesis by (simp add: transformSourceUrl_def)
qed

lemma noBreak_gedcomTagOf [simp]: "noBreak (gedcomTagOf t)"
proof -
  have "list_all (\<lambda>kv. noBreak (snd kv)) typeMap" by (simp add: typeMap_def)
  then have a: "map_of typeMap t = Some tag \<Longrightarrow> noBreak tag" for tag
    by (auto simp: list_all_iff dest!: map_of_SomeD)
  define names where "names = [''__defineGetter__'', ''__defineSetter__'', ''hasOwnProperty'',
                        ''__lookupGetter__'', ''__lookupSetter__'', ''isPrototypeOf'',
                        ''propertyIsEnumerable'', ''toString'', ''valueOf'', ''toLocaleString'']"
  have "list_all noBreak names" by (simp add: names_def)
  then have n: "t \<in> set names \<Longrightarrow> noBreak t" by (simp add: list_all_iff)
  have i: "inheritedTag t =
     (if t = ''constructor'' then Some ''function Object() { [native code] }''
      else if t = ''__proto__'' then Some ''[object Object]''
      else if t \<in> set names then Some (''function '' @ t @ ''() { [native code] }'')
      else None)"
    unfolding inheritedTag_def names_def ..
  have b: "inheritedTag t = Some tag \<Longrightarrow> noBreak tag" for tag
    unfolding i using n by (auto split: if_splits)
  show ?thesis using a b by (simp add: gedcomTagOf_def split: option.splits)
qed

lemma truthy_the: "truthy v \<Longrightarrow> noBreakOpt v \<Longrightarrow> noBreak (the v)"
  by (cases v) (simp_all add: truthy_def)

lemma noBreakOpt_orElse: "noBreakOpt a \<Longrightarrow> noBreakOpt b \<Longrightarrow> noBreakOpt (orElse a b)"
  by (simp add: orElse_def)

lemma noBreak_strOr: "noBreakOpt v \<Longrightarrow> noBreak d \<Longrightarrow> noBreak (strOr v d)"
  by (cases v) (simp_all add: strOr_def)

lemma convertFactToGedcom_noBreak:
  assumes "cleanFact f"
  shows "list_all noBreak (convertFactToGedcom f)"
proof -
  from assms have c: "noBreakOpt (date_formal f)" "noBreakOpt (date_original f)"
    "noBreakOpt (place_original f)" "noBreakOpt (fact_value f)" "noBreakOpt (conclusion_href f)"
    by (simp_all add: cleanFact_def)
  from c(1,2) have d: "noBreakOpt (orElse (date_formal f) (date_original f))"
    by (rule noBreakOpt_orElse)
  show ?thesis
    using c d
    by (simp add: convertFactToGedcom_def Let_def truthy_the noBreak_stripSign
        noBreak_transformFamilySearchUrl)
qed

lemma find_in_set: "find P xs = Some x \<Longrightarrow> x \<in> set xs"
  by (induction xs) (auto split: if_splits)

lemma list_all_concat_map:
  "(\<And>x. x \<in> set xs \<Longrightarrow> list_all P (f x)) \<Longrightarrow> list_all P (concat (map f xs))"
  by (induction xs) simp_all

lemma cleanPersonData_truncate: "cleanPersonData (PersonData.truncate p) = cleanPersonData p"
  by (simp add: cleanPersonData_def PersonData.truncate_def)

lemma personDataOf_clean: "cleanPerson p \<Longrightarrow> cleanPersonData (personDataOf p)"
  by (auto simp: personDataOf_def cleanPerson_def cleanDetails_def cleanPersonData_truncate
      split: option.splits list.splits)

lemma partValue_noBreak:
  assumes "list_all (\<lambda>p. noBreakOpt (part_value p)) ps"
  shows "noBreak (case find P ps of None \<Rightarrow> [] | Some p \<Rightarrow> strOr (part_value p) [])"
proof (cases "find P ps")
  case None
  then show ?thesis by simp
next
  case (Some p)
  then have "p \<in> set ps" by (rule find_in_set)
  with assms have "noBreakOpt (part_value p)" by (simp add: list_all_iff)
  with Some show ?thesis by (simp add: noBreak_strOr)
qed

lemma nameForm_noBreak:
  assumes "cleanNameForm nf" and "noBreakOpt d"
  shows "noBreakOpt
     (let ps = (case parts nf of None \<Rightarrow> [] | Some ps \<Rightarrow> ps);
          given = (case find (\<lambda>p. optIncludes (part_type p) ''Given'') ps of
                     None \<Rightarrow> [] | Some p \<Rightarrow> strOr (part_value p) []);
          surname = (case find (\<lambda>p. optIncludes (part_type p) ''Surname'') ps of
                     None \<Rightarrow> [] | Some p \<Rightarrow> strOr (part_value p) [])
      in if given \<noteq> [] \<or> surname \<noteq> [] then Some (trim (given @ '' /'' @ surname @ ''/''))
         else if truthy (fullText nf) then fullText nf
         else d)"
proof -
  define ps where "ps = (case parts nf of None \<Rightarrow> [] | Some ps \<Rightarrow> ps)"
  from assms(1) have a: "list_all (\<lambda>p. noBreakOpt (part_value p)) ps" and f: "noBreakOpt (fullText nf)"
    by (auto simp: cleanNameForm_def ps_def split: option.splits)
  define given where "given = (case find (\<lambda>p. optIncludes (part_type p) ''Given'') ps of
                     None \<Rightarrow> [] | Some p \<Rightarrow> strOr (part_value p) [])"
  define surname where "surname = (case find (\<lambda>p. optIncludes (part_type p) ''Surname'') ps of
                     None \<Rightarrow> [] | Some p \<Rightarrow> strOr (part_value p) [])"
  have g: "noBreak given" "noBreak surname"
    unfolding given_def surname_def using a by (rule partValue_noBreak)+
  then have "noBreak (trim (given @ '' /'' @ surname @ ''/''))"
    by (intro noBreak_trim) simp
  with f assms(2) show ?thesis
    unfolding Let_def ps_def [symmetric] given_def [symmetric] surname_def [symmetric] by simp
qed

lemma extractName_noBreak:
  assumes "cleanPersonData p"
  shows "noBreakOpt (extractName p)"
proof -
  define d where "d = (case display p of
               None \<Rightarrow> None
             | Some d \<Rightarrow> if truthy (display_name d) then display_name d else None)"
  from assms have d: "noBreakOpt d"
    by (auto simp: d_def cleanPersonData_def cleanDisplay_def split: option.splits)
  have e: "extractName p = d \<or> (\<exists>nf. cleanNameForm nf \<and> extractName p =
     (let ps = (case parts nf of None \<Rightarrow> [] | Some ps \<Rightarrow> ps);
          given = (case find (\<lambda>p. optIncludes (part_type p) ''Given'') ps of
                     None \<Rightarrow> [] | Some p \<Rightarrow> strOr (part_value p) []);
          surname = (case find (\<lambda>p. optIncludes (part_type p) ''Surname'') ps of
                     None \<Rightarrow> [] | Some p \<Rightarrow> strOr (part_value p) [])
      in if given \<noteq> [] \<or> surname \<noteq> [] then Some (trim (given @ '' /'' @ surname @ ''/''))
         else if truthy (fullText nf) then fullText nf
         else d))"
  proof (cases "names p")
    case None
    then show ?thesis by (simp add: extractName_def d_def)
  next
    case (Some ns)
    show ?thesis
    proof (cases ns)
      case Nil
      with Some show ?thesis by (simp add: extractName_def d_def)
    next
      case (Cons n ns')
      show ?thesis
      proof (cases n)
        case None
        with Some Cons show ?thesis by (simp add: extractName_def d_def)
      next
        case fs: (Some fs)
        show ?thesis
        proof (cases fs)
          case Nil
          with Some Cons fs show ?thesis by (simp add: extractName_def d_def)
        next
          case nf: (Cons nf fs')
          from assms Some Cons fs nf have "cleanNameForm nf"
            by (simp add: cleanPersonData_def)
          moreover from Some Cons fs nf have "extractName p =
     (let ps = (case parts nf of None \<Rightarrow> [] | Some ps \<Rightarrow> ps);
          given = (case find (\<lambda>p. optIncludes (part_type p) ''Given'') ps of
                     None \<Rightarrow> [] | Some p \<Rightarrow> strOr (part_value p) []);
          surname = (case find (\<lambda>p. optIncludes (part_type p) ''Surname'') ps of
                     None \<Rightarrow> [] | Some p \<Rightarrow> strOr (part_value p) [])
      in if given \<noteq> [] \<or> surname \<noteq> [] then Some (trim (given @ '' /'' @ surname @ ''/''))
         else if truthy (fullText nf) then fullText nf
         else d)"
            unfolding extractName_def d_def Let_def by simp
          ultimately show ?thesis by blast
        qed
      qed
    qed
  qed
  then show ?thesis
  proof
    assume "extractName p = d"
    with d show ?thesis by simp
  next
    assume "\<exists>nf. cleanNameForm nf \<and> extractName p =
     (let ps = (case parts nf of None \<Rightarrow> [] | Some ps \<Rightarrow> ps);
          given = (case find (\<lambda>p. optIncludes (part_type p) ''Given'') ps of
                     None \<Rightarrow> [] | Some p \<Rightarrow> strOr (part_value p) []);
          surname = (case find (\<lambda>p. optIncludes (part_type p) ''Surname'') ps of
                     None \<Rightarrow> [] | Some p \<Rightarrow> strOr (part_value p) [])
      in if given \<noteq> [] \<or> surname \<noteq> [] then Some (trim (given @ '' /'' @ surname @ ''/''))
         else if truthy (fullText nf) then fullText nf
         else d)"
    then obtain nf where n: "cleanNameForm nf" and x: "extractName p =
     (let ps = (case parts nf of None \<Rightarrow> [] | Some ps \<Rightarrow> ps);
          given = (case find (\<lambda>p. optIncludes (part_type p) ''Given'') ps of
                     None \<Rightarrow> [] | Some p \<Rightarrow> strOr (part_value p) []);
          surname = (case find (\<lambda>p. optIncludes (part_type p) ''Surname'') ps of
                     None \<Rightarrow> [] | Some p \<Rightarrow> strOr (part_value p) [])
      in if given \<noteq> [] \<or> surname \<noteq> [] then Some (trim (given @ '' /'' @ surname @ ''/''))
         else if truthy (fullText nf) then fullText nf
         else d)" by blast
    show ?thesis unfolding x using n d by (rule nameForm_noBreak)
  qed
qed

lemma extractGender_noBreak: "noBreakOpt (extractGender x)"
  by (simp add: extractGender_def split: option.splits)

lemma noBreakOpt_stripSign: "noBreakOpt v \<Longrightarrow> noBreakOpt (map_option stripSign v)"
  by (cases v) (simp_all add: noBreak_stripSign)

lemma extractFact_noBreak:
  assumes "cleanPersonData p" and "extractFact p k = Some r"
  shows "noBreakOpt (fst r) \<and> noBreakOpt (snd r)"
proof -
  define fct where "fct = find (\<lambda>f. fact_type f = Some (''http://gedcomx.org/'' @
      (if k = BIRTH then ''Birth'' else ''Death''))) (case facts p of None \<Rightarrow> [] | Some fs \<Rightarrow> fs)"
  define date0 where "date0 = (case fct of
                     None \<Rightarrow> None
                   | Some f \<Rightarrow>
                       if truthy (orElse (date_formal f) (date_original f))
                       then map_option stripSign (orElse (date_formal f) (date_original f))
                       else None)"
  define place0 where "place0 = (case fct of
                      None \<Rightarrow> None
                    | Some f \<Rightarrow> if truthy (place_original f) then place_original f else None)"
  define dispDate where "dispDate = (case display p of
                        None \<Rightarrow> None
                      | Some d \<Rightarrow> if k = BIRTH then birthDate d else deathDate d)"
  define dispPlace where "dispPlace = (case display p of
                         None \<Rightarrow> None
                       | Some d \<Rightarrow> if k = BIRTH then birthPlace d else deathPlace d)"
  have c: "cleanFact f" if "fct = Some f" for f
  proof -
    from that have "f \<in> set (case facts p of None \<Rightarrow> [] | Some fs \<Rightarrow> fs)"
      unfolding fct_def by (rule find_in_set)
    with assms(1) show ?thesis
      by (auto simp: cleanPersonData_def cleanFacts_def list_all_iff split: option.splits)
  qed
  have "noBreakOpt date0"
    unfolding date0_def using c
    by (auto simp: cleanFact_def noBreakOpt_stripSign noBreakOpt_orElse split: option.splits)
  moreover have "noBreakOpt place0"
    unfolding place0_def using c by (auto simp: cleanFact_def split: option.splits)
  moreover from assms(1) have "noBreakOpt dispDate" "noBreakOpt dispPlace"
    by (auto simp: dispDate_def dispPlace_def cleanPersonData_def cleanDisplay_def split: option.splits)
  ultimately have o: "noBreakOpt (orElse date0 dispDate)" "noBreakOpt (orElse place0 dispPlace)"
    by (simp_all add: noBreakOpt_orElse)
  have "extractFact p k =
     (if truthy (orElse date0 dispDate) \<or> truthy (orElse place0 dispPlace)
      then Some (orElse date0 dispDate, orElse place0 dispPlace) else None)"
    unfolding extractFact_def Let_def date0_def place0_def dispDate_def dispPlace_def fct_def ..
  with assms(2) have "r = (orElse date0 dispDate, orElse place0 dispPlace)"
    by (simp split: if_splits)
  with o show ?thesis by simp
qed

lemma factLines_noBreak:
  assumes "noBreak tag" and "\<And>v. r = Some v \<Longrightarrow> noBreakOpt (fst v) \<and> noBreakOpt (snd v)"
  shows "list_all noBreak (factLines tag r)"
  using assms by (cases r) (simp_all add: factLines_def truthy_the)

lemma otherFactLines_noBreak:
  assumes "cleanPersonData pd"
  shows "list_all noBreak (otherFactLines pd)"
  unfolding otherFactLines_def
proof (rule list_all_concat_map)
  fix f assume "f \<in> set (case facts pd of None \<Rightarrow> [] | Some fs \<Rightarrow> fs)"
  with assms have "cleanFact f"
    by (auto simp: cleanPersonData_def cleanFacts_def list_all_iff split: option.splits)
  then show "list_all noBreak (if truthy (fact_type f) \<and> fact_type f \<noteq> Some ''http://gedcomx.org/Birth''
                           \<and> fact_type f \<noteq> Some ''http://gedcomx.org/Death''
                        then convertFactToGedcom f else [])"
    by (simp add: convertFactToGedcom_noBreak)
qed

lemma noteLines_noBreak: "list_all noBreak (noteLines inc person)"
proof -
  have k: "list_all noBreak (if inc then concat (map (\<lambda>note. if truthy note
      then [''1 NOTE '' @ replaceNewlines (the note)] else []) ns) else [])" for ns
    by (auto intro: list_all_concat_map)
  have e: "noteLines inc person = [] \<or> (\<exists>ns. noteLines inc person =
      (if inc then concat (map (\<lambda>note. if truthy note
            then [''1 NOTE '' @ replaceNewlines (the note)] else []) ns) else []))"
    by (cases "notes_persons person")
      (force simp: noteLines_def split: option.splits list.splits)+
  then show ?thesis
  proof
    assume "noteLines inc person = []"
    then show ?thesis by simp
  next
    assume "\<exists>ns. noteLines inc person =
      (if inc then concat (map (\<lambda>note. if truthy note
            then [''1 NOTE '' @ replaceNewlines (the note)] else []) ns) else [])"
    then obtain ns where "noteLines inc person =
      (if inc then concat (map (\<lambda>note. if truthy note
            then [''1 NOTE '' @ replaceNewlines (the note)] else []) ns) else [])" ..
    then show ?thesis using k [of ns] by simp
  qed
qed

lemma qualifierLines_noBreak:
  assumes "cleanSourceRef r"
  shows "list_all noBreak (qualifierLines r)"
  unfolding qualifierLines_def
proof (rule list_all_concat_map)
  fix q assume "q \<in> set (case qualifiers r of None \<Rightarrow> [] | Some qs \<Rightarrow> qs)"
  with assms have "noBreakOpt (qualifier_name q)" "noBreakOpt (qualifier_value q)"
    by (auto simp: cleanSourceRef_def list_all_iff split: option.splits)
  then show "list_all noBreak (if truthy (qualifier_name q) \<and> truthy (qualifier_value q)
                        then [''2 NOTE '' @ the (qualifier_name q) @ '': '' @ the (qualifier_value q)]
                        else [])"
    by (simp add: truthy_the)
qed

lemma citationLines_noBreak:
  "cleanSourceRef r \<Longrightarrow> list_all noBreak (citationLines sm r)"
  by (simp add: citationLines_def qualifierLines_noBreak split: option.splits)

lemma sourceCitationLines_noBreak:
  assumes "cleanPersonData pd"
  shows "list_all noBreak (sourceCitationLines sm pd)"
  unfolding sourceCitationLines_def
proof (rule list_all_concat_map)
  fix r assume "r \<in> set (case sources pd of None \<Rightarrow> [] | Some rs \<Rightarrow> rs)"
  with assms have "cleanSourceRef r"
    by (auto simp: cleanPersonData_def list_all_iff split: option.splits)
  then show "list_all noBreak (citationLines sm r)" by (rule citationLines_noBreak)
qed

lemma linkLines_noBreak:
  assumes "cleanPersonData person"
  shows "list_all noBreak (linkLines il env person)"
proof -
  define alt where "alt = (case identifiers person of
                    None \<Rightarrow> None
                  | Some ids \<Rightarrow>
                      (case map_of ids ''http://gedcomx.org/Persistent'' of
                         Some (u # _) \<Rightarrow> Some u
                       | _ \<Rightarrow> None))"
  have "noBreakOpt alt"
  proof (cases "identifiers person")
    case None
    then show ?thesis by (simp add: alt_def)
  next
    case (Some ids)
    show ?thesis
    proof (cases "map_of ids ''http://gedcomx.org/Persistent''")
      case None
      with Some show ?thesis by (simp add: alt_def)
    next
      case us: (Some us)
      then have "(''http://gedcomx.org/Persistent'', us) \<in> set ids" by (rule map_of_SomeD)
      with assms Some have "list_all noBreak us"
        by (auto simp: cleanPersonData_def list_all_iff)
      with Some us show ?thesis by (cases us) (simp_all add: alt_def)
    qed
  qed
  moreover from assms have "noBreakOpt (person_href person)" "noBreak (person_id person)"
    by (simp_all add: cleanPersonData_def)
  ultimately have "noBreakOpt (orElse (person_href person) alt)" "noBreak (person_id person)"
    by (simp_all add: noBreakOpt_orElse)
  moreover have "noBreak (environmentBaseUrl env)" by (simp add: environmentBaseUrl_def)
  ultimately show ?thesis
    unfolding linkLines_def Let_def alt_def [symmetric]
    by (simp add: truthy_the noBreak_transformFamilySearchUrl)
qed

lemma indiRecord_noBreak:
  assumes "cleanPerson person" and "noBreak g"
  shows "list_all noBreak (indiRecord il inc env sm g person)"
proof -
  from assms(1) have p: "cleanPersonData person" by (simp add: cleanPerson_def)
  from assms(1) have d: "cleanPersonData (personDataOf person)" by (rule personDataOf_clean)
  have n: "list_all noBreak (case extractName (personDataOf person) of
      None \<Rightarrow> [] | Some name \<Rightarrow> [''1 NAME '' @ name])"
    using extractName_noBreak [OF d] by (cases "extractName (personDataOf person)") simp_all
  have s: "list_all noBreak (case extractGender (Some (personDataOf person)) of
      None \<Rightarrow> [] | Some g \<Rightarrow> [''1 SEX '' @ g])"
    using extractGender_noBreak [of "Some (personDataOf person)"]
    by (cases "extractGender (Some (personDataOf person))") simp_all
  have b: "list_all noBreak (factLines ''1 BIRT'' (extractFact (personDataOf person) BIRTH))"
    "list_all noBreak (factLines ''1 DEAT'' (extractFact (personDataOf person) DEATH))"
    by (rule factLines_noBreak, simp, rule extractFact_noBreak [OF d], assumption)+
  from p have i: "noBreak (person_id person)" by (simp add: cleanPersonData_def)
  show ?thesis
    unfolding indiRecord_def Let_def
    using n s b i assms(2) linkLines_noBreak [OF p] otherFactLines_noBreak [OF d]
      noteLines_noBreak sourceCitationLines_noBreak [OF d]
    by simp
qed

text \<open>The identifiers a map holds are free of line breaks.\<close>

definition cleanMap :: "(string \<times> string) list \<Rightarrow> bool" where
  "cleanMap m = (\<forall>k v. map_of m k = Some v \<longrightarrow> noBreak v)"

lemma cleanMap_update: "cleanMap m \<Longrightarrow> noBreak v \<Longrightarrow> cleanMap (AList.update k v m)"
  by (simp add: cleanMap_def update_conv')

lemma buildPersonIdMap_clean: "cleanMap m \<Longrightarrow> cleanMap (buildPersonIdMap i ps m)"
proof (induction ps arbitrary: i m)
  case Nil
  then show ?case by simp
next
  case (Cons p ps)
  have "cleanMap (AList.update (person_id p) (''@I'' @ showNat (i + 1) @ ''@'') m)"
    using Cons.prems by (rule cleanMap_update) simp
  then show ?case using Cons.IH by simp
qed

lemma personIdMapOf_clean: "cleanMap (personIdMapOf ps)"
  unfolding personIdMapOf_def by (rule buildPersonIdMap_clean) (simp add: cleanMap_def)

lemma indiStep_noBreak:
  assumes "cleanPerson person" and "cleanMap pm"
  shows "list_all noBreak (indiStep il inc env sm pm allow p2f orphans person)"
proof (cases "map_of pm (person_id person)")
  case None
  then show ?thesis by (simp add: indiStep_def)
next
  case (Some g)
  with assms(2) have "noBreak g" by (simp add: cleanMap_def)
  with assms(1) have "list_all noBreak (indiRecord il inc env sm g person)"
    by (rule indiRecord_noBreak)
  with Some show ?thesis by (simp add: indiStep_def)
qed

lemma indiLinesOf_noBreak:
  assumes "list_all cleanPerson ps"
  shows "list_all noBreak (indiLinesOf ps rels options)"
  unfolding indiLinesOf_def
proof (rule list_all_concat_map)
  fix person assume "person \<in> set ps"
  with assms have "cleanPerson person" by (simp add: list_all_iff)
  then show "list_all noBreak (indiStep
                    (case includeLinks options of None \<Rightarrow> True | Some b \<Rightarrow> b)
                    (case includeNotes options of None \<Rightarrow> True | Some b \<Rightarrow> b)
                    (case environment options of None \<Rightarrow> production | Some e \<Rightarrow> e)
                    (buildSourceMap ps) (personIdMapOf ps) (allowOrphanOf options)
                    (buildPersonToFamKeys (snd (graphOf ps rels)))
                    (orphanFamKeysOf (connectableOf ps rels options) (snd (graphOf ps rels))) person)"
    using personIdMapOf_clean by (rule indiStep_noBreak)
qed

text \<open>Source records.\<close>

lemma sourceRecord_noBreak:
  assumes "cleanSource src"
  shows "list_all noBreak (sourceRecord n src)"
proof -
  from assms have t: "noBreakOpt (case titles src of Some (t # _) \<Rightarrow> t | _ \<Rightarrow> None)"
    by (auto simp: cleanSource_def split: option.splits list.splits)
  from assms have c: "list_all noBreak (case citations src of
        Some (c # _) \<Rightarrow> if truthy c then [''1 TEXT '' @ the c] else []
      | _ \<Rightarrow> [])"
    by (auto simp: cleanSource_def truthy_the split: option.splits list.splits)
  from assms have a: "noBreakOpt (about src)" "noBreakOpt (resourceType src)"
    by (simp_all add: cleanSource_def)
  show ?thesis
    unfolding sourceRecord_def using t c a
    by (simp add: noBreak_strOr truthy_the noBreak_transformSourceUrl)
qed

lemma collectSource_clean:
  "list_all (\<lambda>e. cleanSource (snd e)) sm \<Longrightarrow> cleanSource src \<Longrightarrow>
   list_all (\<lambda>e. cleanSource (snd e)) (collectSource sm src)"
  by (simp add: collectSource_def)

lemma foldl_collectSource_clean:
  "list_all (\<lambda>e. cleanSource (snd e)) sm \<Longrightarrow> list_all cleanSource srcs \<Longrightarrow>
   list_all (\<lambda>e. cleanSource (snd e)) (foldl collectSource sm srcs)"
  by (induction srcs arbitrary: sm) (simp_all add: collectSource_clean)

lemma personSourceDescriptions_clean:
  "cleanPerson p \<Longrightarrow> list_all cleanSource (personSourceDescriptions p)"
  by (auto simp: personSourceDescriptions_def cleanPerson_def cleanDetails_def split: option.splits)

lemma buildSourceMap_clean:
  assumes "list_all cleanPerson ps"
  shows "list_all (\<lambda>e. cleanSource (snd e)) (buildSourceMap ps)"
proof -
  have "list_all (\<lambda>e. cleanSource (snd e)) sm \<Longrightarrow> list_all cleanPerson qs \<Longrightarrow>
      list_all (\<lambda>e. cleanSource (snd e))
        (foldl (\<lambda>sourceMap person. foldl collectSource sourceMap (personSourceDescriptions person)) sm qs)"
    for sm qs
    by (induction qs arbitrary: sm)
      (simp_all add: foldl_collectSource_clean personSourceDescriptions_clean)
  from this [of "[]" ps] assms show ?thesis by (simp add: buildSourceMap_def)
qed

lemma sourceRecords_noBreak:
  "list_all (\<lambda>e. cleanSource (snd e)) sm \<Longrightarrow> list_all noBreak (sourceRecords n sm)"
proof (induction sm arbitrary: n)
  case Nil
  then show ?case by simp
next
  case (Cons e sm)
  obtain k src where e: "e = (k, src)" by (cases e)
  with Cons show ?case by (simp add: sourceRecord_noBreak)
qed

text \<open>The merged relationships.\<close>

lemma compositeEdges_clean: "list_all cleanRel (compositeEdges capRel)"
  by (auto simp: compositeEdges_def parentChildRel_def cleanRel_def cleanFacts_def
      split: option.splits)

lemma detailCandidates_clean:
  assumes "cleanPerson p"
  shows "list_all cleanRel (detailCandidates p)"
proof -
  from assms have "list_all cleanRel (personRelationships p)"
    by (auto simp: personRelationships_def cleanPerson_def cleanDetails_def split: option.splits)
  moreover have "list_all cleanRel (concat (map compositeEdges (childAndParentsRels p)))"
    by (rule list_all_concat_map) (rule compositeEdges_clean)
  ultimately show ?thesis by (simp add: detailCandidates_def)
qed

lemma collectRelationships_clean:
  assumes "list_all cleanPerson ps" and "case rels of None \<Rightarrow> True | Some l \<Rightarrow> list_all cleanRel l"
  shows "list_all cleanRel (collectRelationships ps rels)"
proof -
  define base where "base = (case rels of None \<Rightarrow> [] | Some rs \<Rightarrow> rs)"
  define cands where "cands = concat (map detailCandidates ps)"
  from assms(2) have b: "list_all cleanRel base" by (simp add: base_def split: option.splits)
  have c: "list_all cleanRel cands"
    unfolding cands_def
  proof (rule list_all_concat_map)
    fix p assume "p \<in> set ps"
    with assms(1) have "cleanPerson p" by (simp add: list_all_iff)
    then show "list_all cleanRel (detailCandidates p)" by (rule detailCandidates_clean)
  qed
  obtain added where a: "foldl pushIfNew base cands = base @ added" "set added \<subseteq> set cands"
    using merge_added [of base cands] by blast
  from a(2) c have "list_all cleanRel added" by (auto simp: list_all_iff)
  with b a(1) show ?thesis
    unfolding collectRelationships_merge base_def [symmetric] cands_def [symmetric] by simp
qed

text \<open>FAM records.\<close>

lemma marriageFactsOf_clean:
  assumes "cleanRel rel"
  shows "list_all cleanFact (marriageFactsOf rel)"
proof -
  from assms have a: "list_all cleanFact (case rel_facts rel of None \<Rightarrow> [] | Some fs \<Rightarrow> fs)"
    "list_all cleanFact (case details_facts rel of None \<Rightarrow> [] | Some fs \<Rightarrow> fs)"
    by (auto simp: cleanRel_def cleanFacts_def split: option.splits)
  have c: "list_all cleanFact (concat (map (\<lambda>p. filter (\<lambda>f. optIncludes (fact_type f) ''Marriage'')
                        (case p of None \<Rightarrow> [] | Some fs \<Rightarrow> fs))
               (case details_persons rel of None \<Rightarrow> [] | Some ps \<Rightarrow> ps)))"
  proof (rule list_all_concat_map)
    fix p assume "p \<in> set (case details_persons rel of None \<Rightarrow> [] | Some ps \<Rightarrow> ps)"
    with assms have "cleanFacts p"
      by (auto simp: cleanRel_def list_all_iff split: option.splits)
    then show "list_all cleanFact (filter (\<lambda>f. optIncludes (fact_type f) ''Marriage'')
                        (case p of None \<Rightarrow> [] | Some fs \<Rightarrow> fs))"
      by (auto simp: cleanFacts_def list_all_iff split: option.splits)
  qed
  from a have "list_all cleanFact (filter (\<lambda>f. optIncludes (fact_type f) ''Marriage'')
       (case rel_facts rel of None \<Rightarrow> [] | Some fs \<Rightarrow> fs))"
    "list_all cleanFact (filter (\<lambda>f. optIncludes (fact_type f) ''Marriage'')
       (case details_facts rel of None \<Rightarrow> [] | Some fs \<Rightarrow> fs))"
    by (simp_all add: list_all_iff)
  with c show ?thesis by (simp add: marriageFactsOf_def)
qed

lemma addMarriageFacts_noBreak:
  assumes "list_all cleanRel rels"
  shows "list_all noBreak (addMarriageFacts rels p1 p2)"
proof -
  have "list_all noBreak (concat (map convertFactToGedcom (marriageFactsOf rel)))"
    if "rel \<in> set rels" for rel
  proof (rule list_all_concat_map)
    fix f assume "f \<in> set (marriageFactsOf rel)"
    moreover from that assms have "cleanRel rel" by (simp add: list_all_iff)
    ultimately have "cleanFact f" using marriageFactsOf_clean [of rel] by (simp add: list_all_iff)
    then show "list_all noBreak (convertFactToGedcom f)" by (rule convertFactToGedcom_noBreak)
  qed
  then show ?thesis
    by (auto simp: addMarriageFacts_def Let_def split: option.splits dest!: find_in_set)
qed

lemma idOf_noBreak:
  "cleanMap pm \<Longrightarrow> noBreak (case map_of pm p of None \<Rightarrow> ''undefined'' | Some i \<Rightarrow> i)"
  by (auto simp: cleanMap_def split: option.splits)

lemma refLines_noBreak:
  "cleanMap pm \<Longrightarrow> noBreak tag \<Longrightarrow>
   list_all noBreak (case map_of pm p of None \<Rightarrow> [] | Some i \<Rightarrow> [tag @ i])"
  by (auto simp: cleanMap_def split: option.splits)

lemma spouseLines_noBreak:
  assumes "cleanMap pm" and "list_all cleanRel rels"
  shows "list_all noBreak (spouseLines ps pm rels ss)"
proof -
  have h: "list_all noBreak (case map_of pm p of None \<Rightarrow> [] | Some i \<Rightarrow> [''1 HUSB '' @ i])"
    "list_all noBreak (case map_of pm p of None \<Rightarrow> [] | Some i \<Rightarrow> [''1 WIFE '' @ i])" for p
    by (rule refLines_noBreak [OF assms(1)], simp)+
  consider (none) "ss = []" | (one) p where "ss = [p]" | (two) p1 p2 where "ss = [p1, p2]"
    | (more) p1 p2 p3 rest where "ss = p1 # p2 # p3 # rest"
    by (cases ss rule: list.exhaust; cases "tl ss"; cases "tl (tl ss)") auto
  then show ?thesis
  proof cases
    case none
    then show ?thesis by (simp add: spouseLines_def)
  next
    case one
    then show ?thesis using idOf_noBreak [OF assms(1)] by (simp add: spouseLines_def)
  next
    case two
    then show ?thesis
      using h addMarriageFacts_noBreak [OF assms(2)] by (simp add: spouseLines_def Let_def)
  next
    case more
    then show ?thesis by (simp add: spouseLines_def)
  qed
qed

lemma childLines_noBreak: "cleanMap pm \<Longrightarrow> list_all noBreak (childLines pm cs)"
  unfolding childLines_def
  by (rule list_all_concat_map) (rule refLines_noBreak, simp_all)

lemma famRecord_noBreak:
  assumes "cleanMap pm" and "list_all cleanRel rels" and "noBreak fid"
  shows "list_all noBreak (famRecord ps pm rels c allow fid f)"
  unfolding famRecord_def
  using assms(3) spouseLines_noBreak [OF assms(1,2)] childLines_noBreak [OF assms(1)]
  by simp

lemma famStep_cleanMap:
  "cleanMap m \<Longrightarrow> cleanMap (fst (snd (foldl (famStep ps pm rels c allow) (n, m, ls) fams)))"
proof (induction fams arbitrary: n m ls)
  case Nil
  then show ?case by simp
next
  case (Cons e fams)
  show ?case
  proof (cases "famSuppressed pm c allow (snd e)")
    case True
    then have "famStep ps pm rels c allow (n, m, ls) e = (n, m, ls)"
      by (simp add: famStep_def)
    with Cons show ?thesis by simp
  next
    case False
    have u: "cleanMap (AList.update (fst e) (''@F'' @ showNat n @ ''@'') m)"
      using Cons.prems by (rule cleanMap_update) simp
    from False have "famStep ps pm rels c allow (n, m, ls) e =
        (Suc n, AList.update (fst e) (''@F'' @ showNat n @ ''@'') m,
         ls @ famRecord ps pm rels c allow (''@F'' @ showNat n @ ''@'') (snd e))"
      by (simp add: famStep_def Let_def)
    with Cons.IH [OF u] show ?thesis by simp
  qed
qed

lemma familyIdMap_clean: "cleanMap (fst (snd (famStateOf ps rels options)))"
  unfolding famStateOf_def famLoop_def by (rule famStep_cleanMap) (simp add: cleanMap_def)

lemma famLines_records:
  "snd (snd (famStateOf ps rels options)) =
     concat (map (\<lambda>ie. famRecord ps (personIdMapOf ps) (collectRelationships ps rels)
                   (connectableOf ps rels options) (allowOrphanOf options)
                   (''@F'' @ showNat (fst ie) @ ''@'') (snd (snd ie)))
       (enumerate 1 (filter (\<lambda>e. \<not> famSuppressed (personIdMapOf ps) (connectableOf ps rels options)
                               (allowOrphanOf options) (snd e)) (snd (graphOf ps rels)))))"
  unfolding famStateOf_def famLoop_def
  by (subst famStep_fold) (simp only: snd_conv append_Nil)

lemma famLines_noBreak:
  assumes "list_all cleanRel (collectRelationships ps rels)"
  shows "list_all noBreak (snd (snd (famStateOf ps rels options)))"
  unfolding famLines_records
proof (rule list_all_concat_map)
  fix ie :: "nat \<times> string \<times> Family"
  have "noBreak (''@F'' @ showNat (fst ie) @ ''@'')" by simp
  with personIdMapOf_clean assms
  show "list_all noBreak (famRecord ps (personIdMapOf ps) (collectRelationships ps rels)
                   (connectableOf ps rels options) (allowOrphanOf options)
                   (''@F'' @ showNat (fst ie) @ ''@'') (snd (snd ie)))"
    by (rule famRecord_noBreak)
qed

text \<open>Splicing.\<close>

lemma insertAt_all: "list_all P xs \<Longrightarrow> P x \<Longrightarrow> list_all P (insertAt i x xs)"
  by (auto simp: insertAt_def list_all_iff dest: in_set_takeD in_set_dropD)

lemma famcStep_noBreak:
  assumes "cleanMap fm" and "list_all noBreak ls"
  shows "list_all noBreak (famcStep pm fm ls e)"
proof -
  have "famcStep pm fm ls e = ls \<or>
      (\<exists>i k famId. map_of fm k = Some famId \<and> famcStep pm fm ls e = insertAt i (''1 FAMC '' @ famId) ls)"
    by (auto simp: famcStep_def split: option.splits)
  then show ?thesis
  proof
    assume "famcStep pm fm ls e = ls"
    with assms(2) show ?thesis by simp
  next
    assume "\<exists>i k famId. map_of fm k = Some famId \<and>
        famcStep pm fm ls e = insertAt i (''1 FAMC '' @ famId) ls"
    then obtain i k famId where f: "map_of fm k = Some famId"
      and e: "famcStep pm fm ls e = insertAt i (''1 FAMC '' @ famId) ls" by blast
    from f assms(1) have "noBreak famId" by (simp add: cleanMap_def)
    then have "noBreak (''1 FAMC '' @ famId)" by simp
    with assms(2) show ?thesis unfolding e by (rule insertAt_all)
  qed
qed

lemma famsInsert_noBreak:
  assumes "noBreak famId" and "list_all noBreak ls"
  shows "list_all noBreak (famsInsert pm famId ls s)"
proof -
  have "famsInsert pm famId ls s = ls \<or>
      (\<exists>i. famsInsert pm famId ls s = insertAt i (''1 FAMS '' @ famId) ls)"
    by (auto simp: famsInsert_def split: option.splits)
  moreover from assms(1) have "noBreak (''1 FAMS '' @ famId)" by simp
  ultimately show ?thesis using assms(2) insertAt_all [of noBreak ls "''1 FAMS '' @ famId"]
    by auto
qed

lemma famsStep_noBreak:
  assumes "cleanMap fm" and "list_all noBreak ls"
  shows "list_all noBreak (famsStep pm fm ls e)"
proof (cases "map_of fm (fst e)")
  case None
  with assms(2) show ?thesis by (simp add: famsStep_def)
next
  case (Some famId)
  with assms(1) have n: "noBreak famId" by (simp add: cleanMap_def)
  have "list_all noBreak xs \<Longrightarrow> list_all noBreak (foldl (famsInsert pm famId) xs ss)" for xs ss
    by (induction ss arbitrary: xs) (simp_all add: famsInsert_noBreak [OF n])
  with assms(2) Some show ?thesis by (simp add: famsStep_def)
qed

lemma spliceBackReferences_noBreak:
  assumes "cleanMap fm" and "list_all noBreak ls"
  shows "list_all noBreak (spliceBackReferences pm fm ctp fams ls)"
proof -
  have a: "list_all noBreak xs \<Longrightarrow> list_all noBreak (foldl (famcStep pm fm) xs es)" for xs es
    by (induction es arbitrary: xs) (simp_all add: famcStep_noBreak [OF assms(1)])
  have b: "list_all noBreak xs \<Longrightarrow> list_all noBreak (foldl (famsStep pm fm) xs es)" for xs es
    by (induction es arbitrary: xs) (simp_all add: famsStep_noBreak [OF assms(1)])
  show ?thesis unfolding spliceBackReferences_def by (intro a b assms(2))
qed

lemma headerLines_noBreak: "noBreak tn \<Longrightarrow> list_all noBreak (headerLines now tn)"
  by (simp add: headerLines_def)

text \<open>
  With an input whose values hold no line break, no line the converter pushes holds one,
  and the lines of the returned text are the lines pushed.
\<close>

lemma convertLines_noBreak:
  assumes "cleanInput ps rels options"
  shows "list_all noBreak (convertLines now ps rels options)"
proof -
  from assms have p: "list_all cleanPerson ps"
    and r: "case rels of None \<Rightarrow> True | Some l \<Rightarrow> list_all cleanRel l"
    and t: "noBreakOpt (treeName options)"
    by (simp_all add: cleanInput_def)
  from t have "noBreak (case treeName options of None \<Rightarrow> ''FamilySearch Import'' | Some t \<Rightarrow> t)"
    by (cases "treeName options") simp_all
  then have h: "list_all noBreak (headerLines now
      (case treeName options of None \<Rightarrow> ''FamilySearch Import'' | Some t \<Rightarrow> t))"
    by (rule headerLines_noBreak)
  have s: "list_all noBreak (sourceRecords 1 (buildSourceMap ps))"
    by (intro sourceRecords_noBreak buildSourceMap_clean p)
  have i: "list_all noBreak (indiLinesOf ps rels options)"
    using p by (rule indiLinesOf_noBreak)
  have f: "list_all noBreak (snd (snd (famStateOf ps rels options)))"
    by (intro famLines_noBreak collectRelationships_clean p r)
  have "list_all noBreak (headerLines now
      (case treeName options of None \<Rightarrow> ''FamilySearch Import'' | Some t \<Rightarrow> t) @
        sourceRecords 1 (buildSourceMap ps) @ indiLinesOf ps rels options @
        snd (snd (famStateOf ps rels options)))"
    using h s i f by (simp only: list_all_append simp_thms)
  with familyIdMap_clean have "list_all noBreak
     (spliceBackReferences (personIdMapOf ps) (fst (snd (famStateOf ps rels options)))
       (fst (graphOf ps rels)) (snd (graphOf ps rels))
       (headerLines now (case treeName options of None \<Rightarrow> ''FamilySearch Import'' | Some t \<Rightarrow> t) @
        sourceRecords 1 (buildSourceMap ps) @ indiLinesOf ps rels options @
        snd (snd (famStateOf ps rels options))))"
    by (rule spliceBackReferences_noBreak)
  then show ?thesis unfolding convertLines_def by simp
qed

lemma convertLines_nonempty: "convertLines now ps rels options \<noteq> []"
  by (simp add: convertLines_def)

lemma returned_text_lines:
  assumes "persons pd = Some ps" and "cleanInput ps (relationships pd) options"
  shows "\<exists>t. convertToGedcom now (Some pd) options = Inr t \<and>
     textLines t = convertLines now ps (relationships pd) options"
proof -
  have "textLines (join [CHR 0x0A] (convertLines now ps (relationships pd) options)) =
      convertLines now ps (relationships pd) options"
    using convertLines_nonempty convertLines_noBreak [OF assms(2)] by (rule textLines_join)
  with assms(1) show ?thesis by (simp add: convertToGedcom_def)
qed

section \<open>What is emitted, and under which number\<close>

text \<open>
  The persons that get an INDI record, each with its position in the input list, and the
  families that get a FAM record, in the iteration order of the family map: those that the
  tests of the two loops let through.
\<close>

definition emittedPersons ::
  "EnhancedPerson list \<Rightarrow> Relationship list option \<Rightarrow> GedcomConversionOptions \<Rightarrow>
     (nat \<times> EnhancedPerson) list" where
  "emittedPersons ps rels options =
     filter (\<lambda>ip. \<not> isOrphanPerson (allowOrphanOf options)
                      (buildPersonToFamKeys (snd (graphOf ps rels)))
                      (orphanFamKeysOf (connectableOf ps rels options) (snd (graphOf ps rels)))
                      (person_id (snd ip)))
       (enumerate 0 ps)"

definition emittedFamilies ::
  "EnhancedPerson list \<Rightarrow> Relationship list option \<Rightarrow> GedcomConversionOptions \<Rightarrow>
     (string \<times> Family) list" where
  "emittedFamilies ps rels options =
     filter (\<lambda>e. \<not> famSuppressed (personIdMapOf ps) (connectableOf ps rels options)
                    (allowOrphanOf options) (snd e))
       (snd (graphOf ps rels))"

text \<open>
  The source identifiers in the order of their discovery, person by person, and the first
  occurrence of each element of a list.
\<close>

definition discoveredSources :: "EnhancedPerson list \<Rightarrow> SourceDescription list" where
  "discoveredSources ps =
     filter (\<lambda>s. truthy (source_id s)) (concat (map personSourceDescriptions ps))"

definition firstOccurrences :: "'a list \<Rightarrow> 'a list" where
  "firstOccurrences xs = rev (remdups (rev xs))"

lemma firstOccurrences_snoc:
  "firstOccurrences (xs @ [x]) =
     (if x \<in> set xs then firstOccurrences xs else firstOccurrences xs @ [x])"
  by (simp add: firstOccurrences_def)

lemma set_firstOccurrences [simp]: "set (firstOccurrences xs) = set xs"
  by (simp add: firstOccurrences_def)

lemma foldl_collectSource_discovery:
  "foldl collectSource [] ds =
     map (\<lambda>k. (k, the (find (\<lambda>s. source_id s = Some k) ds)))
       (firstOccurrences (map (\<lambda>s. the (source_id s)) (filter (\<lambda>s. truthy (source_id s)) ds)))"
proof (induction ds rule: rev_induct)
  case Nil
  show ?case by (simp add: firstOccurrences_def)
next
  case (snoc d ds)
  define ids where "ids = map (\<lambda>s. the (source_id s)) (filter (\<lambda>s. truthy (source_id s)) ds)"
  define sm where "sm = foldl collectSource [] ds"
  have sm: "sm = map (\<lambda>k. (k, the (find (\<lambda>s. source_id s = Some k) ds))) (firstOccurrences ids)"
    unfolding sm_def ids_def by (rule snoc.IH)
  have keys: "fst ` set sm = set ids" unfolding sm by (simp add: image_image)
  have old: "the (find (\<lambda>s. source_id s = Some k) (ds @ [d])) = the (find (\<lambda>s. source_id s = Some k) ds)"
    if "k \<in> set ids" for k
  proof -
    from that obtain s where "s \<in> set ds" "source_id s = Some k"
      by (auto simp: ids_def truthy_def split: option.splits)
    then have "find (\<lambda>s. source_id s = Some k) ds \<noteq> None" by (auto simp: find_None_iff)
    then show ?thesis by (auto simp: find_append)
  qed
  have m: "map (\<lambda>k. (k, the (find (\<lambda>s. source_id s = Some k) (ds @ [d])))) (firstOccurrences ids) = sm"
    unfolding sm by (rule map_cong [OF refl]) (simp add: old)
  have step: "foldl collectSource [] (ds @ [d]) = collectSource sm d" by (simp add: sm_def)
  show ?case
  proof (cases "truthy (source_id d)")
    case False
    then have "collectSource sm d = sm" by (simp add: collectSource_def)
    with False m show ?thesis unfolding step ids_def by simp
  next
    case True
    then obtain k where k: "source_id d = Some k" by (cases "source_id d") (simp_all add: truthy_def)
    have i: "map (\<lambda>s. the (source_id s)) (filter (\<lambda>s. truthy (source_id s)) (ds @ [d])) = ids @ [k]"
      using True k by (simp add: ids_def)
    show ?thesis
    proof (cases "k \<in> set ids")
      case in_ids: True
      with keys have "mapHas sm k" by (simp add: mapHas_def map_of_eq_None_iff)
      with k have "collectSource sm d = sm" by (simp add: collectSource_def)
      with in_ids m show ?thesis unfolding step i by (simp add: firstOccurrences_snoc)
    next
      case new: False
      with keys have "\<not> mapHas sm k" by (simp add: mapHas_def map_of_eq_None_iff)
      with True k have c: "collectSource sm d = sm @ [(k, d)]" by (simp add: collectSource_def)
      have "\<forall>s\<in>set ds. source_id s \<noteq> Some k"
      proof
        fix s assume s: "s \<in> set ds"
        show "source_id s \<noteq> Some k"
        proof
          assume e: "source_id s = Some k"
          with k True have "truthy (source_id s)" by simp
          with s e have "k \<in> set ids" by (force simp: ids_def)
          with new show False ..
        qed
      qed
      then have "find (\<lambda>s. source_id s = Some k) ds = None" by (simp add: find_None_iff)
      with k have "the (find (\<lambda>s. source_id s = Some k) (ds @ [d])) = d" by (simp add: find_append)
      with new m c show ?thesis unfolding step i by (simp add: firstOccurrences_snoc)
    qed
  qed
qed

lemma buildSourceMap_concat:
  "buildSourceMap ps = foldl collectSource [] (concat (map personSourceDescriptions ps))"
proof -
  have "foldl (\<lambda>sourceMap person. foldl collectSource sourceMap (personSourceDescriptions person)) sm qs =
      foldl collectSource sm (concat (map personSourceDescriptions qs))" for sm qs
    by (induction qs arbitrary: sm) simp_all
  then show ?thesis by (simp add: buildSourceMap_def)
qed

lemma find_filter_source:
  "find (\<lambda>s. source_id s = Some k) (filter (\<lambda>s. truthy (source_id s)) ds) =
   (if k = [] then None else find (\<lambda>s. source_id s = Some k) ds)"
  by (induction ds) (auto simp: truthy_def)

lemma buildSourceMap_discovery:
  "buildSourceMap ps =
     map (\<lambda>k. (k, the (find (\<lambda>s. source_id s = Some k) (discoveredSources ps))))
       (firstOccurrences (map (\<lambda>s. the (source_id s)) (discoveredSources ps)))"
proof -
  define ds where "ds = concat (map personSourceDescriptions ps)"
  have "k \<in> set (map (\<lambda>s. the (source_id s)) (filter (\<lambda>s. truthy (source_id s)) ds)) \<Longrightarrow> k \<noteq> []" for k
    by (auto simp: truthy_def split: option.splits)
  then have "map (\<lambda>k. (k, the (find (\<lambda>s. source_id s = Some k) ds)))
       (firstOccurrences (map (\<lambda>s. the (source_id s)) (filter (\<lambda>s. truthy (source_id s)) ds))) =
     map (\<lambda>k. (k, the (find (\<lambda>s. source_id s = Some k) (filter (\<lambda>s. truthy (source_id s)) ds))))
       (firstOccurrences (map (\<lambda>s. the (source_id s)) (filter (\<lambda>s. truthy (source_id s)) ds)))"
    by (intro map_cong [OF refl]) (simp add: find_filter_source)
  then show ?thesis
    unfolding buildSourceMap_concat discoveredSources_def ds_def [symmetric]
    by (simp only: foldl_collectSource_discovery)
qed

lemma sourceRecords_enumerate:
  "sourceRecords k sm = concat (map (\<lambda>ne. sourceRecord (fst ne) (snd (snd ne))) (enumerate k sm))"
proof (induction sm arbitrary: k)
  case Nil
  then show ?case by simp
next
  case (Cons e sm)
  obtain key src where e: "e = (key, src)" by (cases e)
  show ?case unfolding e by (simp add: Cons.IH)
qed

lemma concat_map_if:
  "concat (map (\<lambda>x. if c x then [] else f x) xs) = concat (map f (filter (\<lambda>x. \<not> c x) xs))"
  by (induction xs) simp_all

lemma indiLinesOf_emitted:
  assumes "distinct (map person_id ps)"
  shows "indiLinesOf ps rels options =
     concat (map (\<lambda>ip. indiRecord
                    (case includeLinks options of None \<Rightarrow> True | Some b \<Rightarrow> b)
                    (case includeNotes options of None \<Rightarrow> True | Some b \<Rightarrow> b)
                    (case environment options of None \<Rightarrow> production | Some e \<Rightarrow> e)
                    (buildSourceMap ps) (''@I'' @ showNat (fst ip + 1) @ ''@'') (snd ip))
       (emittedPersons ps rels options))"
proof -
  define G where "G = indiStep
      (case includeLinks options of None \<Rightarrow> True | Some b \<Rightarrow> b)
      (case includeNotes options of None \<Rightarrow> True | Some b \<Rightarrow> b)
      (case environment options of None \<Rightarrow> production | Some e \<Rightarrow> e)
      (buildSourceMap ps) (personIdMapOf ps) (allowOrphanOf options)
      (buildPersonToFamKeys (snd (graphOf ps rels)))
      (orphanFamKeysOf (connectableOf ps rels options) (snd (graphOf ps rels)))"
  define R where "R = (\<lambda>ip :: nat \<times> EnhancedPerson. indiRecord
                    (case includeLinks options of None \<Rightarrow> True | Some b \<Rightarrow> b)
                    (case includeNotes options of None \<Rightarrow> True | Some b \<Rightarrow> b)
                    (case environment options of None \<Rightarrow> production | Some e \<Rightarrow> e)
                    (buildSourceMap ps) (''@I'' @ showNat (fst ip + 1) @ ''@'') (snd ip))"
  define c where "c = (\<lambda>ip :: nat \<times> EnhancedPerson. isOrphanPerson (allowOrphanOf options)
                        (buildPersonToFamKeys (snd (graphOf ps rels)))
                        (orphanFamKeysOf (connectableOf ps rels options) (snd (graphOf ps rels)))
                        (person_id (snd ip)))"
  have "indiLinesOf ps rels options = concat (map G ps)"
    by (simp only: indiLinesOf_def G_def)
  also have "map G ps = map G (map snd (enumerate 0 ps))" by (simp only: map_snd_enumerate)
  also have "\<dots> = map (\<lambda>ip. G (snd ip)) (enumerate 0 ps)" by (simp only: map_map comp_def)
  also have "\<dots> = map (\<lambda>ip. if c ip then [] else R ip) (enumerate 0 ps)"
  proof (rule map_cong [OF refl])
    fix ip assume "ip \<in> set (enumerate 0 ps)"
    with assms have m: "map_of (personIdMapOf ps) (person_id (snd ip)) =
        Some (''@I'' @ showNat (fst ip + 1) @ ''@'')"
      unfolding personIdMapOf_def by (rule buildPersonIdMap_position)
    show "G (snd ip) = (if c ip then [] else R ip)"
      unfolding G_def c_def R_def indiStep_def m by (simp only: option.case)
  qed
  also have "concat \<dots> = concat (map R (filter (\<lambda>ip. \<not> c ip) (enumerate 0 ps)))"
    by (rule concat_map_if)
  finally show ?thesis unfolding R_def c_def emittedPersons_def .
qed

lemma famLines_emitted:
  "snd (snd (famStateOf ps rels options)) =
     concat (map (\<lambda>ne. famRecord ps (personIdMapOf ps) (collectRelationships ps rels)
                   (connectableOf ps rels options) (allowOrphanOf options)
                   (''@F'' @ showNat (fst ne) @ ''@'') (snd (snd ne)))
       (enumerate 1 (emittedFamilies ps rels options)))"
  unfolding emittedFamilies_def by (rule famLines_records)

lemma famCount_emitted:
  "fst (famStateOf ps rels options) = 1 + length (emittedFamilies ps rels options)"
  unfolding famStateOf_def famLoop_def emittedFamilies_def
  by (subst famStep_fold) (simp only: fst_conv)

lemma header_filter:
  assumes "distinct (map person_id ps)"
  shows "filter (prefix ''0 '') (convertLines now ps rels options) =
       [''0 HEAD'', ''0 @SUBM1@ SUBM''] @
       map sourceHeader [1 ..< 1 + length (buildSourceMap ps)] @
       map (\<lambda>ip. indiHeader (fst ip + 1)) (emittedPersons ps rels options) @
       map famHeader [1 ..< 1 + length (emittedFamilies ps rels options)] @
       [''0 TRLR'']"
proof -
  have h: "filter (prefix ''0 '') (headerLines now tn) = [''0 HEAD'', ''0 @SUBM1@ SUBM'']" for tn
    by (simp add: headerLines_def)
  have q: "\<not> prefix ''0 '' (''1 FAMC '' @ s)" "\<not> prefix ''0 '' (''1 FAMS '' @ s)" for s
    by simp_all
  show ?thesis
    unfolding spliced_indi_filter [of "prefix ''0 ''", OF q] h sourceRecords_filter
      indiLines_filter [OF assms] famLines_filter famCount_emitted emittedPersons_def [symmetric]
    by simp
qed

lemma header_filter_distinct:
  "distinct ([''0 HEAD'', ''0 @SUBM1@ SUBM''] @
       map sourceHeader [1 ..< 1 + m] @
       map (\<lambda>ip. indiHeader (fst ip + 1)) (filter c (enumerate 0 ps)) @
       map famHeader [1 ..< 1 + k] @
       [''0 TRLR''])"
proof -
  have "distinct (map fst (filter c (enumerate 0 ps)))"
    by (rule distinct_map_filter) (simp add: map_fst_enumerate)
  then have "distinct (map (\<lambda>ip. fst ip + 1) (filter c (enumerate 0 ps)))"
    by (simp add: distinct_map inj_on_def)
  then have "distinct ([''0 HEAD'', ''0 @SUBM1@ SUBM''] @
     map sourceHeader [1 ..< 1 + m] @
     map indiHeader (map (\<lambda>ip. fst ip + 1) (filter c (enumerate 0 ps))) @
     map famHeader [1 ..< 1 + k] @
     [''0 TRLR''])"
    by (intro headers_distinct distinct_upt)
  then show ?thesis by (simp only: map_map comp_def)
qed

text \<open>
  C4, for an input whose persons have pairwise distinct ids and whose values hold no line
  break. The lines of the returned text are: the head; the source records, the entries of
  the source map numbered from 1; the INDI records, with the back references spliced in,
  of the persons that are not skipped, the person at position \<open>i\<close> of the input list under
  \<open>@I(i+1)@\<close>; the FAM records of the families that are not suppressed, numbered from 1 in
  the iteration order of the family map; and the trailer. So the record headers of the
  text are \<open>@S1@\<close> to \<open>@Sm@\<close> without a gap, \<open>@I(i+1)@\<close> for the positions \<open>i\<close> of the
  persons emitted, with a gap for every person skipped before the last one emitted, and
  \<open>@F1@\<close> to \<open>@Fk@\<close> without a gap; they are pairwise distinct. The source map holds the
  source ids in the order of their first discovery, each with the first description found
  under it.
\<close>

theorem record_identifiers_distinct_and_positional:
  assumes "cleanInput ps rels options" and "distinct (map person_id ps)"
  shows "\<exists>t. convertToGedcom now (Some \<lparr>persons = Some ps, relationships = rels\<rparr>) options = Inr t \<and>
     textLines t =
       headerLines now (case treeName options of None \<Rightarrow> ''FamilySearch Import'' | Some t \<Rightarrow> t) @
       concat (map (\<lambda>ne. sourceRecord (fst ne) (snd (snd ne))) (enumerate 1 (buildSourceMap ps))) @
       spliceBackReferences (personIdMapOf ps) (fst (snd (famStateOf ps rels options)))
         (fst (graphOf ps rels)) (snd (graphOf ps rels))
         (concat (map (\<lambda>ip. indiRecord
                    (case includeLinks options of None \<Rightarrow> True | Some b \<Rightarrow> b)
                    (case includeNotes options of None \<Rightarrow> True | Some b \<Rightarrow> b)
                    (case environment options of None \<Rightarrow> production | Some e \<Rightarrow> e)
                    (buildSourceMap ps) (''@I'' @ showNat (fst ip + 1) @ ''@'') (snd ip))
            (emittedPersons ps rels options))) @
       concat (map (\<lambda>ne. famRecord ps (personIdMapOf ps) (collectRelationships ps rels)
                     (connectableOf ps rels options) (allowOrphanOf options)
                     (''@F'' @ showNat (fst ne) @ ''@'') (snd (snd ne)))
         (enumerate 1 (emittedFamilies ps rels options))) @
       [''0 TRLR''] \<and>
     filter (prefix ''0 '') (textLines t) =
       [''0 HEAD'', ''0 @SUBM1@ SUBM''] @
       map sourceHeader [1 ..< 1 + length (buildSourceMap ps)] @
       map (\<lambda>ip. indiHeader (fst ip + 1)) (emittedPersons ps rels options) @
       map famHeader [1 ..< 1 + length (emittedFamilies ps rels options)] @
       [''0 TRLR''] \<and>
     distinct (filter (prefix ''0 '') (textLines t)) \<and>
     buildSourceMap ps =
       map (\<lambda>k. (k, the (find (\<lambda>s. source_id s = Some k) (discoveredSources ps))))
         (firstOccurrences (map (\<lambda>s. the (source_id s)) (discoveredSources ps)))"
proof -
  from assms(1) obtain t
    where t: "convertToGedcom now (Some \<lparr>persons = Some ps, relationships = rels\<rparr>) options = Inr t"
      and l: "textLines t = convertLines now ps rels options"
    using returned_text_lines [of "\<lparr>persons = Some ps, relationships = rels\<rparr>" ps options now]
    by auto
  have a: "textLines t =
       headerLines now (case treeName options of None \<Rightarrow> ''FamilySearch Import'' | Some t \<Rightarrow> t) @
       concat (map (\<lambda>ne. sourceRecord (fst ne) (snd (snd ne))) (enumerate 1 (buildSourceMap ps))) @
       spliceBackReferences (personIdMapOf ps) (fst (snd (famStateOf ps rels options)))
         (fst (graphOf ps rels)) (snd (graphOf ps rels))
         (concat (map (\<lambda>ip. indiRecord
                    (case includeLinks options of None \<Rightarrow> True | Some b \<Rightarrow> b)
                    (case includeNotes options of None \<Rightarrow> True | Some b \<Rightarrow> b)
                    (case environment options of None \<Rightarrow> production | Some e \<Rightarrow> e)
                    (buildSourceMap ps) (''@I'' @ showNat (fst ip + 1) @ ''@'') (snd ip))
            (emittedPersons ps rels options))) @
       concat (map (\<lambda>ne. famRecord ps (personIdMapOf ps) (collectRelationships ps rels)
                     (connectableOf ps rels options) (allowOrphanOf options)
                     (''@F'' @ showNat (fst ne) @ ''@'') (snd (snd ne)))
         (enumerate 1 (emittedFamilies ps rels options))) @
       [''0 TRLR'']"
    unfolding l convertLines_layout sourceRecords_enumerate
      indiLinesOf_emitted [OF assms(2), symmetric] famLines_emitted [symmetric] ..
  have b: "filter (prefix ''0 '') (textLines t) =
       [''0 HEAD'', ''0 @SUBM1@ SUBM''] @
       map sourceHeader [1 ..< 1 + length (buildSourceMap ps)] @
       map (\<lambda>ip. indiHeader (fst ip + 1)) (emittedPersons ps rels options) @
       map famHeader [1 ..< 1 + length (emittedFamilies ps rels options)] @
       [''0 TRLR'']"
    unfolding l using assms(2) by (rule header_filter)
  have c: "distinct (filter (prefix ''0 '') (textLines t))"
    unfolding b emittedPersons_def by (rule header_filter_distinct)
  from t a b c buildSourceMap_discovery show ?thesis by blast
qed

theorem record_identifiers_distinct_and_positional_witness:
  "\<exists>t. convertToGedcom (dateAt 5 0)
          (Some \<lparr>persons = Some [plainPerson ''X'', plainPerson ''Y'', sourcedPerson ''P1'' ''s1'',
                                   plainPerson ''C''],
                  relationships = Some [plainRel ''r1'' ''http://gedcomx.org/Couple'' ''X'' ''Y'',
                                        plainRel ''r2'' ''http://gedcomx.org/ParentChild'' ''P1'' ''C'']\<rparr>)
          (seedOptions (Some [''C''])) = Inr t \<and>
       filter (prefix ''0 '') (textLines t) =
         [''0 HEAD'', ''0 @SUBM1@ SUBM'', ''0 @S1@ SOUR'', ''0 @I3@ INDI'', ''0 @I4@ INDI'',
          ''0 @F1@ FAM'', ''0 TRLR''] \<and>
       distinct (filter (prefix ''0 '') (textLines t)) \<and>
       map fst (buildSourceMap [plainPerson ''X'', plainPerson ''Y'', sourcedPerson ''P1'' ''s1'',
                                plainPerson ''C'']) = [''s1'']"
proof -
  let ?ps = "[plainPerson ''X'', plainPerson ''Y'', sourcedPerson ''P1'' ''s1'', plainPerson ''C'']"
  let ?rels = "Some [plainRel ''r1'' ''http://gedcomx.org/Couple'' ''X'' ''Y'',
                     plainRel ''r2'' ''http://gedcomx.org/ParentChild'' ''P1'' ''C'']"
  let ?options = "seedOptions (Some [''C''])"
  have c: "cleanInput ?ps ?rels ?options" by code_simp
  have d: "distinct (map person_id ?ps)" by code_simp
  have h: "[''0 HEAD'', ''0 @SUBM1@ SUBM''] @
       map sourceHeader [1 ..< 1 + length (buildSourceMap ?ps)] @
       map (\<lambda>ip. indiHeader (fst ip + 1)) (emittedPersons ?ps ?rels ?options) @
       map famHeader [1 ..< 1 + length (emittedFamilies ?ps ?rels ?options)] @
       [''0 TRLR''] =
     [''0 HEAD'', ''0 @SUBM1@ SUBM'', ''0 @S1@ SOUR'', ''0 @I3@ INDI'', ''0 @I4@ INDI'',
      ''0 @F1@ FAM'', ''0 TRLR'']"
    by code_simp
  have s: "map fst (map (\<lambda>k. (k, the (find (\<lambda>s. source_id s = Some k) (discoveredSources ?ps))))
         (firstOccurrences (map (\<lambda>s. the (source_id s)) (discoveredSources ?ps)))) = [''s1'']"
    by code_simp
  from record_identifiers_distinct_and_positional [OF c d, of "dateAt 5 0"]
  obtain t where t: "convertToGedcom (dateAt 5 0) (Some \<lparr>persons = Some ?ps, relationships = ?rels\<rparr>)
        ?options = Inr t"
    and f: "filter (prefix ''0 '') (textLines t) =
       [''0 HEAD'', ''0 @SUBM1@ SUBM''] @
       map sourceHeader [1 ..< 1 + length (buildSourceMap ?ps)] @
       map (\<lambda>ip. indiHeader (fst ip + 1)) (emittedPersons ?ps ?rels ?options) @
       map famHeader [1 ..< 1 + length (emittedFamilies ?ps ?rels ?options)] @
       [''0 TRLR'']"
    and x: "distinct (filter (prefix ''0 '') (textLines t))"
    and m: "buildSourceMap ?ps =
       map (\<lambda>k. (k, the (find (\<lambda>s. source_id s = Some k) (discoveredSources ?ps))))
         (firstOccurrences (map (\<lambda>s. the (source_id s)) (discoveredSources ?ps)))"
    by blast
  from f have f': "filter (prefix ''0 '') (textLines t) =
     [''0 HEAD'', ''0 @SUBM1@ SUBM'', ''0 @S1@ SOUR'', ''0 @I3@ INDI'', ''0 @I4@ INDI'',
      ''0 @F1@ FAM'', ''0 TRLR'']"
    unfolding h .
  have k: "map fst (buildSourceMap ?ps) = [''s1'']" by (subst m) (rule s)
  show ?thesis by (intro exI [of _ t] conjI t f' x k)
qed


section \<open>Reading a record of the text\<close>

text \<open>
  In a run of records, each a header followed by lines that are no headers, and followed
  by a header, the header lines are the records' headers, and the lines from a header up
  to the next one are that record's lines.
\<close>

lemma record_run_hd:
  assumes "\<And>e. e \<in> set es \<Longrightarrow> rec e = hdr e # body e \<and> H (hdr e)" and "H x"
  shows "H (hd (concat (map rec es) @ x # xs))"
proof (cases es)
  case Nil
  with assms(2) show ?thesis by simp
next
  case (Cons e es')
  with assms(1) [of e] show ?thesis by simp
qed

lemma record_at:
  assumes "\<And>e. e \<in> set es \<Longrightarrow> rec e = hdr e # body e \<and> H (hdr e) \<and> (\<forall>l\<in>set (body e). \<not> H l)"
    and "H x" and "j < length (concat (map rec es))" and "H (concat (map rec es) ! j)"
  shows "\<exists>e\<in>set es. concat (map rec es) ! j = hdr e \<and>
           takeWhile (\<lambda>l. \<not> H l) (drop (Suc j) (concat (map rec es) @ x # xs)) = body e"
  using assms(1,3,4)
proof (induction es arbitrary: j)
  case Nil
  then show ?case by simp
next
  case (Cons e es)
  define R where "R = concat (map rec es)"
  from Cons.prems(1) [of e] have e: "rec e = hdr e # body e" "H (hdr e)" "\<forall>l\<in>set (body e). \<not> H l"
    by simp_all
  have r: "rec e' = hdr e' # body e' \<and> H (hdr e') \<and> (\<forall>l\<in>set (body e'). \<not> H l)"
    if "e' \<in> set es" for e'
  proof -
    from that have "e' \<in> set (e # es)" by simp
    then show ?thesis by (rule Cons.prems(1))
  qed
  have c: "concat (map rec (e # es)) = hdr e # body e @ R" by (simp add: R_def e(1))
  have h: "H (hd (R @ x # xs))"
    unfolding R_def
  proof (rule record_run_hd)
    fix e' assume "e' \<in> set es"
    with r show "rec e' = hdr e' # body e' \<and> H (hdr e')" by blast
  next
    show "H x" by (rule assms(2))
  qed
  have tw: "takeWhile (\<lambda>l. \<not> H l) (body e @ R @ x # xs) = body e"
  proof -
    have "R @ x # xs \<noteq> []" by simp
    then obtain y ys where y: "R @ x # xs = y # ys" by (cases "R @ x # xs") simp_all
    with h have "H y" by simp
    then have "takeWhile (\<lambda>l. \<not> H l) (R @ x # xs) = []" unfolding y by simp
    with e(3) show ?thesis by (simp add: takeWhile_append2)
  qed
  consider (zero) "j = 0" | (inside) "0 < j" "j \<le> length (body e)" | (later) "length (body e) < j"
    by linarith
  then show ?case
  proof cases
    case zero
    have "concat (map rec (e # es)) ! j = hdr e" unfolding c zero by simp
    moreover have "takeWhile (\<lambda>l. \<not> H l) (drop (Suc j) (concat (map rec (e # es)) @ x # xs)) = body e"
      unfolding c zero using tw by simp
    ultimately show ?thesis by auto
  next
    case inside
    then have "concat (map rec (e # es)) ! j = body e ! (j - 1)"
      unfolding c by (cases j) (simp_all add: nth_append)
    moreover from inside have "body e ! (j - 1) \<in> set (body e)" by (cases j) simp_all
    ultimately have "\<not> H (concat (map rec (e # es)) ! j)" using e(3) by simp
    with Cons.prems(3) show ?thesis by simp
  next
    case later
    define k where "k = j - Suc (length (body e))"
    from later have j: "j = Suc (length (body e)) + k" by (simp add: k_def)
    have n: "concat (map rec (e # es)) ! j = R ! k"
      unfolding c j by (simp add: nth_append)
    from Cons.prems(2) have kl: "k < length R" unfolding c j by simp
    have d: "drop (Suc j) (concat (map rec (e # es)) @ x # xs) = drop (Suc k) (R @ x # xs)"
      unfolding c j by simp
    from Cons.prems(3) have "H (R ! k)" unfolding n .
    with Cons.IH [of k] r kl have "\<exists>e'\<in>set es. R ! k = hdr e' \<and>
        takeWhile (\<lambda>l. \<not> H l) (drop (Suc k) (R @ x # xs)) = body e'"
      unfolding R_def by blast
    then show ?thesis unfolding n d by auto
  qed
qed

text \<open>The document up to the FAM records holds no FAM header.\<close>

definition documentHead ::
  "JsDate \<Rightarrow> EnhancedPerson list \<Rightarrow> Relationship list option \<Rightarrow> GedcomConversionOptions \<Rightarrow>
     string list" where
  "documentHead now ps rels options =
     headerLines now (case treeName options of None \<Rightarrow> ''FamilySearch Import'' | Some t \<Rightarrow> t) @
     sourceRecords 1 (buildSourceMap ps) @
     spliceBackReferences (personIdMapOf ps) (fst (snd (famStateOf ps rels options)))
       (fst (graphOf ps rels)) (snd (graphOf ps rels)) (indiLinesOf ps rels options)"

lemma documentHead_noFam: "\<forall>l\<in>set (documentHead now ps rels options). \<not> prefix ''0 @F'' l"
proof -
  have h: "\<forall>l\<in>set (headerLines now tn). \<not> prefix ''0 @F'' l" for tn
    by (simp add: headerLines_def)
  have s: "\<forall>l\<in>set (sourceRecords n sm). \<not> prefix ''0 @F'' l" for n sm
  proof (induction sm arbitrary: n)
    case Nil
    then show ?case by simp
  next
    case (Cons e sm)
    obtain k src where e: "e = (k, src)" by (cases e)
    obtain rest where r: "sourceRecord n src = (''0 @S'' @ showNat n @ ''@ SOUR'') # rest"
      "\<forall>l\<in>set rest. plainLine l"
      using sourceRecord_shape by blast
    from r(2) have "\<forall>l\<in>set rest. \<not> prefix ''0 @F'' l" using subLine_not_header by blast
    with Cons [of "Suc n"] show ?case unfolding e by (simp add: r(1) ball_Un)
  qed
  have i: "\<forall>l\<in>set (indiLinesOf ps rels options). \<not> prefix ''0 @F'' l"
  proof
    fix l assume "l \<in> set (indiLinesOf ps rels options)"
    from indiLines_shape [OF this] show "\<not> prefix ''0 @F'' l"
      using subLine_not_header [of l] indiHeader_not_fam [of l] by blast
  qed
  have "filter (prefix ''0 @F'') (spliceBackReferences (personIdMapOf ps)
       (fst (snd (famStateOf ps rels options)))
       (fst (graphOf ps rels)) (snd (graphOf ps rels)) (indiLinesOf ps rels options)) =
     filter (prefix ''0 @F'') (indiLinesOf ps rels options)"
    by (rule spliceBackReferences_filter) simp_all
  also have "\<dots> = []" using i by (simp add: filter_empty_conv)
  finally have x: "\<forall>l\<in>set (spliceBackReferences (personIdMapOf ps)
       (fst (snd (famStateOf ps rels options)))
       (fst (graphOf ps rels)) (snd (graphOf ps rels)) (indiLinesOf ps rels options)).
       \<not> prefix ''0 @F'' l"
    by (simp add: filter_empty_conv)
  from h s x show ?thesis unfolding documentHead_def by (simp add: ball_Un)
qed

lemma convertLines_famRecords:
  "convertLines now ps rels options =
     documentHead now ps rels options @
     concat (map (\<lambda>ne. famRecord ps (personIdMapOf ps) (collectRelationships ps rels)
                   (connectableOf ps rels options) (allowOrphanOf options)
                   (''@F'' @ showNat (fst ne) @ ''@'') (snd (snd ne)))
       (enumerate 1 (emittedFamilies ps rels options))) @
     [''0 TRLR'']"
  unfolding convertLines_layout documentHead_def famLines_emitted by simp

lemma famRecord_parts:
  "\<exists>body. famRecord ps pm rels c allow (''@F'' @ showNat n @ ''@'') f = famHeader n # body \<and>
     (\<forall>l\<in>set body. \<not> prefix ''0 '' l)"
proof -
  obtain rest where r: "famRecord ps pm rels c allow (''@F'' @ showNat n @ ''@'') f =
      (''0 '' @ (''@F'' @ showNat n @ ''@'') @ '' FAM'') # rest"
    "\<forall>l\<in>set rest. plainLine l \<or> refLine l"
    using famRecord_shape by blast
  from r(2) have "\<forall>l\<in>set rest. \<not> prefix ''0 '' l" using plain_or_ref_sub by blast
  moreover have "(''0 '' @ (''@F'' @ showNat n @ ''@'') @ '' FAM'') = famHeader n"
    by (simp add: famHeader_def)
  ultimately show ?thesis using r(1) by simp
qed

text \<open>The HUSB and WIFE lines of a FAM record.\<close>

lemma spouse_filter_simps:
  "filter isSpouseLine [''1 HUSB '' @ v] = [''1 HUSB '' @ v]"
  "filter isSpouseLine [''1 WIFE '' @ v] = [''1 WIFE '' @ v]"
  "filter isSpouseLine (if b then [''1 _IS_ORPHAN_FAMILY Y''] else []) = []"
  "filter isSpouseLine (addMarriageFacts rels p1 p2) = []"
  "filter isSpouseLine (childLines pm cs) = []"
proof -
  show "filter isSpouseLine [''1 HUSB '' @ v] = [''1 HUSB '' @ v]"
    "filter isSpouseLine [''1 WIFE '' @ v] = [''1 WIFE '' @ v]"
    "filter isSpouseLine (if b then [''1 _IS_ORPHAN_FAMILY Y''] else []) = []"
    by (simp_all add: isSpouseLine_def)
  have "\<forall>l\<in>set (addMarriageFacts rels p1 p2). \<not> isSpouseLine l"
    using addMarriageFacts_plain [of rels p1 p2] by (auto simp: plainLine_def isSpouseLine_def)
  then show "filter isSpouseLine (addMarriageFacts rels p1 p2) = []"
    by (simp add: filter_empty_conv)
  have "\<forall>l\<in>set (childLines pm cs). \<not> isSpouseLine l"
    by (auto simp: childLines_def isSpouseLine_def split: option.splits)
  then show "filter isSpouseLine (childLines pm cs) = []"
    by (simp add: filter_empty_conv)
qed

lemma famRecord_spouse_lines:
  assumes "famOk V f" and "\<forall>v\<in>V. mapHas pm v"
    and "famRecord ps pm rels c allow fid f = h # body"
  shows "case spouses f of
           [a, b] \<Rightarrow> \<exists>ia ib. map_of pm a = Some ia \<and> map_of pm b = Some ib \<and>
              filter isSpouseLine body =
                (if genderOf ps a = Some ''M'' \<or> genderOf ps b = Some ''F''
                 then [''1 HUSB '' @ ia, ''1 WIFE '' @ ib]
                 else [''1 HUSB '' @ ib, ''1 WIFE '' @ ia])
         | [a] \<Rightarrow> \<exists>ia. map_of pm a = Some ia \<and>
              filter isSpouseLine body =
                (if genderOf ps a = Some ''M'' then [''1 HUSB '' @ ia] else [''1 WIFE '' @ ia])
         | _ \<Rightarrow> False"
proof -
  define tag where "tag = (if \<not> anyMemberConnectable c f \<and> allow then [''1 _IS_ORPHAN_FAMILY Y''] else [])"
  have t: "filter isSpouseLine tag = []" by (simp add: tag_def isSpouseLine_def)
  from assms(3) have body: "body = tag @ spouseLines ps pm rels (spouses f) @ childLines pm (children f)"
    by (simp add: famRecord_def tag_def)
  have fb: "filter isSpouseLine body = filter isSpouseLine (spouseLines ps pm rels (spouses f))"
    unfolding body by (simp only: filter_append t spouse_filter_simps append_Nil append_Nil2)
  from assms(1) consider (one) a where "spouses f = [a]" | (two) a b where "spouses f = [a, b]"
    unfolding famOk_def
    by (cases "spouses f" rule: list.exhaust; cases "tl (spouses f)"; cases "tl (tl (spouses f))") auto
  then show ?thesis
  proof cases
    case one
    with assms(1,2) have "mapHas pm a" by (simp add: famOk_def)
    then obtain ia where ia: "map_of pm a = Some ia" by (auto simp: mapHas_def)
    define sp where "sp = (if genderOf ps a = Some ''M'' then [''1 HUSB '' @ ia] else [''1 WIFE '' @ ia])"
    have "spouseLines ps pm rels [a] = sp" by (simp add: spouseLines_def ia sp_def)
    moreover have "filter isSpouseLine sp = sp" by (simp add: sp_def isSpouseLine_def)
    ultimately have "filter isSpouseLine body = sp" unfolding fb one by simp
    with ia show ?thesis unfolding one sp_def by simp
  next
    case two
    with assms(1,2) have "mapHas pm a" "mapHas pm b" by (simp_all add: famOk_def)
    then obtain ia ib where i: "map_of pm a = Some ia" "map_of pm b = Some ib"
      by (auto simp: mapHas_def)
    define sp where "sp = (if genderOf ps a = Some ''M'' \<or> genderOf ps b = Some ''F''
         then [''1 HUSB '' @ ia, ''1 WIFE '' @ ib]
         else [''1 HUSB '' @ ib, ''1 WIFE '' @ ia])"
    have "spouseLines ps pm rels [a, b] = sp @ addMarriageFacts rels a b"
      by (simp add: spouseLines_def Let_def i sp_def)
    moreover have "filter isSpouseLine sp = sp" by (simp add: sp_def isSpouseLine_def)
    ultimately have "filter isSpouseLine body = sp"
      unfolding fb two by (simp only: filter_append spouse_filter_simps append_Nil2)
    with i show ?thesis unfolding two sp_def by simp
  qed
qed

text \<open>
  C5, as the code has it, for an input whose values hold no line break. Every line of the
  returned text that starts with \<^verbatim>\<open>0 @F\<close> is the header \<^verbatim>\<open>0 @F<n>@ FAM\<close> of the \<open>n\<close>-th
  family emitted. Among the lines from that header up to the next record, the HUSB and
  WIFE lines are these: when the family has two spouses, the first spouse is HUSB and the
  second WIFE if the first is male or the second is female, and in every other case,
  unknown genders included, the second spouse is HUSB and the first WIFE; when it has one
  spouse, that spouse is HUSB if male and WIFE otherwise. A family has one or two spouses,
  each a person of the input.
\<close>

theorem husb_wife_orientation:
  assumes "cleanInput ps rels options"
    and "convertToGedcom now (Some \<lparr>persons = Some ps, relationships = rels\<rparr>) options = Inr t"
    and "i < length (textLines t)" and "prefix ''0 @F'' (textLines t ! i)"
  shows "\<exists>n key fam. (n, key, fam) \<in> set (enumerate 1 (emittedFamilies ps rels options)) \<and>
      textLines t ! i = famHeader n \<and>
      (case spouses fam of
         [a, b] \<Rightarrow> \<exists>ia ib. map_of (personIdMapOf ps) a = Some ia \<and>
            map_of (personIdMapOf ps) b = Some ib \<and>
            filter isSpouseLine (takeWhile (\<lambda>l. \<not> prefix ''0 '' l) (drop (Suc i) (textLines t))) =
              (if genderOf ps a = Some ''M'' \<or> genderOf ps b = Some ''F''
               then [''1 HUSB '' @ ia, ''1 WIFE '' @ ib]
               else [''1 HUSB '' @ ib, ''1 WIFE '' @ ia])
       | [a] \<Rightarrow> \<exists>ia. map_of (personIdMapOf ps) a = Some ia \<and>
            filter isSpouseLine (takeWhile (\<lambda>l. \<not> prefix ''0 '' l) (drop (Suc i) (textLines t))) =
              (if genderOf ps a = Some ''M'' then [''1 HUSB '' @ ia] else [''1 WIFE '' @ ia])
       | _ \<Rightarrow> False)"
proof -
  define L where "L = textLines t"
  define pre where "pre = documentHead now ps rels options"
  define es where "es = enumerate 1 (emittedFamilies ps rels options)"
  define rec where "rec = (\<lambda>ne :: nat \<times> string \<times> Family.
      famRecord ps (personIdMapOf ps) (collectRelationships ps rels)
        (connectableOf ps rels options) (allowOrphanOf options)
        (''@F'' @ showNat (fst ne) @ ''@'') (snd (snd ne)))"
  define hdr where "hdr = (\<lambda>ne :: nat \<times> string \<times> Family. famHeader (fst ne))"
  define body where "body = (\<lambda>ne :: nat \<times> string \<times> Family. tl (rec ne))"
  define R where "R = concat (map rec es)"
  from assms(1) obtain t'
    where "convertToGedcom now (Some \<lparr>persons = Some ps, relationships = rels\<rparr>) options = Inr t'"
      and "textLines t' = convertLines now ps rels options"
    using returned_text_lines [of "\<lparr>persons = Some ps, relationships = rels\<rparr>" ps options now]
    by auto
  with assms(2) have "L = convertLines now ps rels options" by (simp add: L_def)
  then have lay: "L = pre @ R @ [''0 TRLR'']"
    unfolding convertLines_famRecords pre_def R_def rec_def es_def .
  have parts: "rec e = hdr e # body e \<and> prefix ''0 '' (hdr e) \<and> (\<forall>l\<in>set (body e). \<not> prefix ''0 '' l)"
    for e
  proof -
    obtain b where b: "rec e = famHeader (fst e) # b" "\<forall>l\<in>set b. \<not> prefix ''0 '' l"
      unfolding rec_def using famRecord_parts by blast
    have "prefix ''0 '' (famHeader (fst e))" by (simp add: famHeader_def)
    with b show ?thesis by (simp add: hdr_def body_def)
  qed
  have ge: "length pre \<le> i"
  proof (rule ccontr)
    assume "\<not> length pre \<le> i"
    then have "i < length pre" by simp
    then have "L ! i \<in> set pre" unfolding lay by (simp add: nth_append)
    with documentHead_noFam assms(4) show False unfolding pre_def L_def by blast
  qed
  define j where "j = i - length pre"
  from ge have i: "i = length pre + j" by (simp add: j_def)
  from assms(3) have "j < length R + 1" unfolding L_def [symmetric] lay i by simp
  moreover have "j \<noteq> length R"
  proof
    assume "j = length R"
    then have "L ! i = ''0 TRLR''" unfolding lay i by (simp add: nth_append)
    with assms(4) show False unfolding L_def by simp
  qed
  ultimately have jl: "j < length R" by simp
  then have n: "L ! i = R ! j" unfolding lay i by (simp add: nth_append)
  from assms(4) have "prefix ''0 '' (R ! j)"
    unfolding L_def [symmetric] n by (auto simp: prefix_def)
  with jl have "\<exists>e\<in>set es. concat (map rec es) ! j = hdr e \<and>
      takeWhile (\<lambda>l. \<not> prefix ''0 '' l) (drop (Suc j) (concat (map rec es) @ ''0 TRLR'' # [])) = body e"
    unfolding R_def by (intro record_at parts) simp_all
  then obtain e where e: "e \<in> set es" "R ! j = hdr e"
    "takeWhile (\<lambda>l. \<not> prefix ''0 '' l) (drop (Suc j) (R @ [''0 TRLR''])) = body e"
    unfolding R_def by blast
  have d: "drop (Suc i) L = drop (Suc j) (R @ [''0 TRLR''])" unfolding lay i by simp
  obtain m key fam where m: "e = (m, key, fam)" by (cases e)
  from e(1) have "snd e \<in> set (map snd (enumerate 1 (emittedFamilies ps rels options)))"
    unfolding es_def by (simp only: set_map image_eqI)
  then have "(key, fam) \<in> set (emittedFamilies ps rels options)"
    unfolding m by (simp only: map_snd_enumerate snd_conv)
  then have "(key, fam) \<in> set (snd (graphOf ps rels))" by (simp add: emittedFamilies_def)
  with graphOf_ok [of ps rels] have ok: "famOk (person_id ` set ps) fam"
    unfolding famsOk_def by force
  have mh: "\<forall>v\<in>person_id ` set ps. mapHas (personIdMapOf ps) v"
    by (simp add: mapHas_personIdMapOf)
  from parts [of e] have "famRecord ps (personIdMapOf ps) (collectRelationships ps rels)
        (connectableOf ps rels options) (allowOrphanOf options)
        (''@F'' @ showNat m @ ''@'') fam = hdr e # body e"
    unfolding rec_def m by simp
  from famRecord_spouse_lines [OF ok mh this]
  have s: "case spouses fam of
         [a, b] \<Rightarrow> \<exists>ia ib. map_of (personIdMapOf ps) a = Some ia \<and>
            map_of (personIdMapOf ps) b = Some ib \<and>
            filter isSpouseLine (body e) =
              (if genderOf ps a = Some ''M'' \<or> genderOf ps b = Some ''F''
               then [''1 HUSB '' @ ia, ''1 WIFE '' @ ib]
               else [''1 HUSB '' @ ib, ''1 WIFE '' @ ia])
       | [a] \<Rightarrow> \<exists>ia. map_of (personIdMapOf ps) a = Some ia \<and>
            filter isSpouseLine (body e) =
              (if genderOf ps a = Some ''M'' then [''1 HUSB '' @ ia] else [''1 WIFE '' @ ia])
       | _ \<Rightarrow> False" .
  have b: "takeWhile (\<lambda>l. \<not> prefix ''0 '' l) (drop (Suc i) (textLines t)) = body e"
    unfolding L_def [symmetric] d by (rule e(3))
  have h: "textLines t ! i = famHeader m"
    unfolding L_def [symmetric] n e(2) by (simp add: hdr_def m)
  from e(1) have "(m, key, fam) \<in> set (enumerate 1 (emittedFamilies ps rels options))"
    unfolding es_def m .
  with h s show ?thesis unfolding b by blast
qed

theorem husb_wife_orientation_witness:
  "\<exists>t. convertToGedcom (dateAt 5 0)
          (Some \<lparr>persons = Some [plainPerson ''A'', plainPerson ''B''],
                  relationships = Some [plainRel ''r1'' ''http://gedcomx.org/Couple'' ''A'' ''B'']\<rparr>)
          (seedOptions (Some [''A''])) = Inr t \<and>
       textLines t ! 21 = ''0 @F1@ FAM'' \<and>
       filter isSpouseLine (takeWhile (\<lambda>l. \<not> prefix ''0 '' l) (drop 22 (textLines t))) =
         [''1 HUSB @I2@'', ''1 WIFE @I1@'']"
proof -
  let ?ps = "[plainPerson ''A'', plainPerson ''B'']"
  let ?rels = "Some [plainRel ''r1'' ''http://gedcomx.org/Couple'' ''A'' ''B'']"
  let ?options = "seedOptions (Some [''A''])"
  define t where "t = join [CHR 0x0A]
     [''0 HEAD'', ''1 SOUR FamilySearch'', ''2 VERS 1.0'', ''2 NAME FamilySearch API'',
      ''1 DEST ANY'', ''1 DATE 5 JAN 2024'', ''1 SUBM @SUBM1@'', ''1 FILE FamilySearch Import'',
      ''1 GEDC'', ''2 VERS 5.5'', ''2 FORM LINEAGE-LINKED'', ''1 CHAR UTF-8'', ''0 @SUBM1@ SUBM'',
      ''0 @I1@ INDI'', ''1 FAMS @F1@'', ''1 _FS_ID A'',
      ''1 _FS_LINK https://www.familysearch.org/tree/person/A'',
      ''0 @I2@ INDI'', ''1 FAMS @F1@'', ''1 _FS_ID B'',
      ''1 _FS_LINK https://www.familysearch.org/tree/person/B'',
      ''0 @F1@ FAM'', ''1 HUSB @I2@'', ''1 WIFE @I1@'', ''0 TRLR'']"
  have c: "cleanInput ?ps ?rels ?options" by code_simp
  have r: "convertToGedcom (dateAt 5 0) (Some \<lparr>persons = Some ?ps, relationships = ?rels\<rparr>) ?options =
      Inr t"
    unfolding t_def by code_simp
  have l: "21 < length (textLines t)" unfolding t_def by code_simp
  have p: "prefix ''0 @F'' (textLines t ! 21)" unfolding t_def by code_simp
  have e: "enumerate 1 (emittedFamilies ?ps ?rels ?options) =
      [(1, ''A-B'', \<lparr>spouses = [''A'', ''B''], children = []\<rparr>)]"
    by code_simp
  have pm: "map_of (personIdMapOf ?ps) ''A'' = Some ''@I1@''"
    "map_of (personIdMapOf ?ps) ''B'' = Some ''@I2@''"
    by code_simp+
  have g: "genderOf ?ps ''A'' = None" "genderOf ?ps ''B'' = None" by code_simp+
  from husb_wife_orientation [OF c r l p]
  obtain n key fam where m: "(n, key, fam) \<in> set (enumerate 1 (emittedFamilies ?ps ?rels ?options))"
    and h: "textLines t ! 21 = famHeader n"
    and s: "case spouses fam of
         [a, b] \<Rightarrow> \<exists>ia ib. map_of (personIdMapOf ?ps) a = Some ia \<and>
            map_of (personIdMapOf ?ps) b = Some ib \<and>
            filter isSpouseLine (takeWhile (\<lambda>l. \<not> prefix ''0 '' l) (drop (Suc 21) (textLines t))) =
              (if genderOf ?ps a = Some ''M'' \<or> genderOf ?ps b = Some ''F''
               then [''1 HUSB '' @ ia, ''1 WIFE '' @ ib]
               else [''1 HUSB '' @ ib, ''1 WIFE '' @ ia])
       | [a] \<Rightarrow> \<exists>ia. map_of (personIdMapOf ?ps) a = Some ia \<and>
            filter isSpouseLine (takeWhile (\<lambda>l. \<not> prefix ''0 '' l) (drop (Suc 21) (textLines t))) =
              (if genderOf ?ps a = Some ''M'' then [''1 HUSB '' @ ia] else [''1 WIFE '' @ ia])
       | _ \<Rightarrow> False"
    by blast
  from m have f: "n = 1" "fam = \<lparr>spouses = [''A'', ''B''], children = []\<rparr>"
    unfolding e by simp_all
  from s have "filter isSpouseLine (takeWhile (\<lambda>l. \<not> prefix ''0 '' l) (drop 22 (textLines t))) =
         [''1 HUSB @I2@'', ''1 WIFE @I1@'']"
    unfolding f by (simp add: pm g)
  moreover have "famHeader 1 = ''0 @F1@ FAM''" by code_simp
  with h have "textLines t ! 21 = ''0 @F1@ FAM''"
    unfolding f by (simp only:)
  ultimately show ?thesis by (intro exI [of _ t] conjI r)
qed

section \<open>Line breaks in values\<close>

text \<open>
  With an input whose values hold no line break, the FAM records of the returned text are
  valid, and every citation in it refers to a source record before it.
\<close>

theorem fam_records_valid_without_line_breaks:
  assumes "cleanInput ps rels options"
  shows "\<exists>t pre recs.
      convertToGedcom now (Some \<lparr>persons = Some ps, relationships = rels\<rparr>) options = Inr t \<and>
      textLines t = pre @ concat recs @ [''0 TRLR''] \<and>
      (\<forall>l\<in>set pre. \<not> prefix ''0 @F'' l) \<and> (\<forall>r\<in>set recs. validFamRecord r)"
proof -
  from assms obtain t
    where t: "convertToGedcom now (Some \<lparr>persons = Some ps, relationships = rels\<rparr>) options = Inr t"
      and l: "textLines t = convertLines now ps rels options"
    using returned_text_lines [of "\<lparr>persons = Some ps, relationships = rels\<rparr>" ps options now]
    by auto
  from pushed_fam_records_valid [of now ps rels options] obtain pre recs
    where p: "textLines t = pre @ concat recs @ [''0 TRLR'']"
      "\<forall>l\<in>set pre. \<not> prefix ''0 @F'' l" "\<forall>r\<in>set recs. validFamRecord r"
    unfolding l by blast
  show ?thesis by (intro exI [of _ t] exI [of _ pre] exI [of _ recs] conjI t p)
qed

theorem citations_resolve_without_line_breaks:
  assumes "cleanInput ps rels options"
    and "convertToGedcom now (Some \<lparr>persons = Some ps, relationships = rels\<rparr>) options = Inr t"
    and "i < length (textLines t)" and "prefix ''1 SOUR @'' (textLines t ! i)"
  shows "\<exists>n j. 1 \<le> n \<and> n \<le> length (buildSourceMap ps) \<and>
     textLines t ! i = ''1 SOUR @S'' @ showNat n @ ''@'' \<and>
     j < i \<and> textLines t ! j = ''0 @S'' @ showNat n @ ''@ SOUR''"
proof -
  from assms(1) obtain t'
    where "convertToGedcom now (Some \<lparr>persons = Some ps, relationships = rels\<rparr>) options = Inr t'"
      and "textLines t' = convertLines now ps rels options"
    using returned_text_lines [of "\<lparr>persons = Some ps, relationships = rels\<rparr>" ps options now]
    by auto
  with assms(2) have l: "textLines t = convertLines now ps rels options" by simp
  from assms(3,4) show ?thesis unfolding l by (rule pushed_citations_resolve)
qed

text \<open>
  C2: a display name that holds a line break and then \<^verbatim>\<open>0 @F7@ FAM\<close> is written to the
  NAME line as it is. The returned text then has a FAM record without any HUSB, WIFE or
  CHIL line.
\<close>

theorem fam_record_without_spouse_in_text:
  "map_sum id textLines
     (convertToGedcom (dateAt 5 0)
        (Some \<lparr>persons = Some [(plainPerson ''P1'')\<lparr>display := Some
                   \<lparr>display_name = Some (''X'' @ [CHR 0x0A] @ ''0 @F7@ FAM''),
                    display_gender = None, birthDate = None, birthPlace = None,
                    deathDate = None, deathPlace = None\<rparr>\<rparr>],
                relationships = None\<rparr>)
        (seedOptions None)) =
     Inr [''0 HEAD'', ''1 SOUR FamilySearch'', ''2 VERS 1.0'', ''2 NAME FamilySearch API'',
          ''1 DEST ANY'', ''1 DATE 5 JAN 2024'', ''1 SUBM @SUBM1@'', ''1 FILE FamilySearch Import'',
          ''1 GEDC'', ''2 VERS 5.5'', ''2 FORM LINEAGE-LINKED'', ''1 CHAR UTF-8'',
          ''0 @SUBM1@ SUBM'', ''0 @I1@ INDI'', ''1 _FS_ID P1'',
          ''1 _FS_LINK https://www.familysearch.org/tree/person/P1'',
          ''1 NAME X'', ''0 @F7@ FAM'', ''0 TRLR'']"
  by code_simp

text \<open>
  C9: a display name that holds a line break and then \<^verbatim>\<open>1 SOUR @S9@\<close> is written to the
  NAME line as it is. The returned text then has a citation of \<^verbatim>\<open>@S9@\<close> under the INDI
  record and no source record at all.
\<close>

theorem citation_without_source_in_text:
  "map_sum id textLines
     (convertToGedcom (dateAt 5 0)
        (Some \<lparr>persons = Some [(plainPerson ''P1'')\<lparr>display := Some
                   \<lparr>display_name = Some (''X'' @ [CHR 0x0A] @ ''1 SOUR @S9@''),
                    display_gender = None, birthDate = None, birthPlace = None,
                    deathDate = None, deathPlace = None\<rparr>\<rparr>],
                relationships = None\<rparr>)
        (seedOptions None)) =
     Inr [''0 HEAD'', ''1 SOUR FamilySearch'', ''2 VERS 1.0'', ''2 NAME FamilySearch API'',
          ''1 DEST ANY'', ''1 DATE 5 JAN 2024'', ''1 SUBM @SUBM1@'', ''1 FILE FamilySearch Import'',
          ''1 GEDC'', ''2 VERS 5.5'', ''2 FORM LINEAGE-LINKED'', ''1 CHAR UTF-8'',
          ''0 @SUBM1@ SUBM'', ''0 @I1@ INDI'', ''1 _FS_ID P1'',
          ''1 _FS_LINK https://www.familysearch.org/tree/person/P1'',
          ''1 NAME X'', ''1 SOUR @S9@'', ''0 TRLR'']"
  by code_simp

section \<open>URL rewriting is idempotent\<close>

lemma strIncludes_sublist: "strIncludes s pat \<longleftrightarrow> sublist pat s"
  by (induction s) (auto simp: sublist_Cons_right)

lemma noSlash_prefix:
  "CHR ''/'' \<notin> set s \<Longrightarrow> CHR ''/'' \<in> set p \<Longrightarrow> \<not> prefix p s"
  by (meson set_mono_prefix subsetD)

lemma noSlash_strIncludes:
  "CHR ''/'' \<notin> set s \<Longrightarrow> CHR ''/'' \<in> set p \<Longrightarrow> \<not> strIncludes s p"
  by (metis strIncludes_sublist set_mono_sublist subsetD)

lemma matchPersonId_noSlash:
  "matchPersonId url = Some p \<Longrightarrow> CHR ''/'' \<notin> set p"
proof (induction url)
  case Nil
  then show ?case by simp
next
  case (Cons c cs)
  show ?case
  proof (cases "prefix ''persons/'' (c # cs) \<and> takeWhile notSlashQ (drop 8 (c # cs)) \<noteq> []")
    case True
    with Cons.prems have "p = takeWhile notSlashQ (drop 8 (c # cs))" by simp
    then show ?thesis
      by (metis notSlashQ_def set_takeWhileD)
  next
    case False
    with Cons show ?thesis by (simp split: if_splits)
  qed
qed

lemma detectBaseUrl_cases:
  "detectBaseUrl url = ''https://integration.familysearch.org'' \<or>
   detectBaseUrl url = ''https://beta.familysearch.org'' \<or>
   detectBaseUrl url = ''https://www.familysearch.org''"
  by (simp add: detectBaseUrl_def)

lemma personUrl_not_api:
  assumes "CHR ''/'' \<notin> set p"
  shows "\<not> strIncludes (detectBaseUrl url @ ''/tree/person/'' @ p) ''/platform/tree/persons/''"
  using detectBaseUrl_cases [of url] assms
  by (elim disjE) (simp_all add: noSlash_prefix noSlash_strIncludes)

lemma transformFamilySearchUrl_idem:
  "transformFamilySearchUrl (transformFamilySearchUrl url) = transformFamilySearchUrl url"
proof (cases "strIncludes url ''/platform/tree/persons/''")
  case False
  then show ?thesis by (simp add: transformFamilySearchUrl_def)
next
  case True
  show ?thesis
  proof (cases "matchPersonId url")
    case None
    with True show ?thesis by (simp add: transformFamilySearchUrl_def)
  next
    case (Some p)
    then have "CHR ''/'' \<notin> set p" by (rule matchPersonId_noSlash)
    then have n: "\<not> strIncludes (detectBaseUrl url @ ''/tree/person/'' @ p) ''/platform/tree/persons/''"
      by (rule personUrl_not_api)
    have "transformFamilySearchUrl url = detectBaseUrl url @ ''/tree/person/'' @ p"
      using True Some by (simp add: transformFamilySearchUrl_def)
    with n show ?thesis by (simp add: transformFamilySearchUrl_def)
  qed
qed


lemma arkAt_shape:
  assumes "arkAt s = Some m"
  shows "\<exists>naan name. m = ''ark:/'' @ naan @ ''/'' @ name \<and> naan \<noteq> [] \<and> name \<noteq> [] \<and>
           (\<forall>c\<in>set naan. notSlashQ c) \<and> (\<forall>c\<in>set name. notSlashQ c) \<and> prefix m s"
proof -
  from assms have p: "prefix ''ark:/'' s"
    by (simp add: arkAt_def split: if_splits)
  then obtain r where s: "s = ''ark:/'' @ r"
    by (auto simp: prefix_def)
  define naan where "naan = takeWhile notSlashQ r"
  from assms s obtain r' where d: "dropWhile notSlashQ r = CHR ''/'' # r'"
    and n: "naan \<noteq> []" and nm: "takeWhile notSlashQ r' \<noteq> []"
    and m: "m = ''ark:/'' @ naan @ ''/'' @ takeWhile notSlashQ r'"
    by (auto simp: arkAt_def Let_def naan_def split: if_splits list.splits)
  have r: "r = naan @ CHR ''/'' # r'"
    using d takeWhile_dropWhile_id [of notSlashQ r] by (simp add: naan_def)
  have "r' = takeWhile notSlashQ r' @ dropWhile notSlashQ r'" by simp
  then have "prefix m s"
    unfolding m s r prefix_def by (metis append.assoc append_Cons append_Nil)
  moreover have "\<forall>c\<in>set naan. notSlashQ c"
    unfolding naan_def by (meson set_takeWhileD)
  moreover have "\<forall>c\<in>set (takeWhile notSlashQ r'). notSlashQ c"
    by (meson set_takeWhileD)
  ultimately show ?thesis using m n nm by blast
qed

lemma arkAt_fixed:
  assumes "naan \<noteq> []" "name \<noteq> []" "\<forall>c\<in>set naan. notSlashQ c" "\<forall>c\<in>set name. notSlashQ c"
  shows "arkAt (''ark:/'' @ naan @ ''/'' @ name) = Some (''ark:/'' @ naan @ ''/'' @ name)"
proof -
  have t: "takeWhile notSlashQ (naan @ CHR ''/'' # name) = naan"
    using assms(3) by (simp add: takeWhile_append2 notSlashQ_def)
  have d: "dropWhile notSlashQ (naan @ CHR ''/'' # name) = CHR ''/'' # name"
    using assms(3) by (simp add: dropWhile_append2 notSlashQ_def)
  have n: "takeWhile notSlashQ name = name"
    using assms(4) by (simp add: takeWhile_eq_all_conv)
  show ?thesis
    using assms(1,2) by (simp add: arkAt_def t d n)
qed

lemma matchArk_sound:
  "matchArk s = Some m \<Longrightarrow> arkAt m = Some m \<and> sublist m s"
proof (induction s)
  case Nil
  then show ?case by simp
next
  case (Cons c cs)
  show ?case
  proof (cases "arkAt (c # cs)")
    case None
    with Cons have "arkAt m = Some m \<and> sublist m cs" by simp
    then show ?thesis by (auto simp: sublist_Cons_right)
  next
    case (Some m')
    with Cons.prems have "m' = m" by simp
    with Some arkAt_shape [of "c # cs" m] arkAt_fixed show ?thesis
      by (metis prefix_imp_sublist)
  qed
qed

lemma matchArk_head: "arkAt m = Some m \<Longrightarrow> matchArk m = Some m"
  by (cases m) (simp_all add: arkAt_def)

lemma matchArk_skip: "\<not> prefix ''ark:/'' (c # cs) \<Longrightarrow> matchArk (c # cs) = matchArk cs"
  by (simp add: arkAt_def)

lemma arkUrl_match:
  assumes "arkAt m = Some m"
  shows "matchArk (detectBaseUrl url @ ''/'' @ m) = Some m"
  using detectBaseUrl_cases [of url] matchArk_head [OF assms]
  by (elim disjE) (simp_all add: matchArk_skip del: matchArk.simps)

lemma strIncludes_trans: "sublist m s \<Longrightarrow> strIncludes m pat \<Longrightarrow> strIncludes s pat"
proof -
  assume "sublist m s" "strIncludes m pat"
  then obtain a b c d where "s = a @ m @ b" "m = c @ pat @ d"
    by (auto simp: strIncludes_sublist sublist_def)
  then have "s = (a @ c) @ pat @ (d @ b)" by simp
  then show ?thesis unfolding strIncludes_sublist sublist_def by blast
qed

lemma arkUrl_base:
  assumes "sublist m url"
  shows "detectBaseUrl (detectBaseUrl url @ ''/'' @ m) = detectBaseUrl url"
proof -
  have k: "\<not> strIncludes url pat \<Longrightarrow> \<not> strIncludes m pat" for pat
    using assms strIncludes_trans by blast
  consider (i) "strIncludes url ''integration.familysearch.org'' \<or> strIncludes url ''api-integ.familysearch.org''"
    | (b) "\<not> strIncludes url ''integration.familysearch.org''" "\<not> strIncludes url ''api-integ.familysearch.org''"
          "strIncludes url ''beta.familysearch.org'' \<or> strIncludes url ''apibeta.familysearch.org''"
    | (w) "\<not> strIncludes url ''integration.familysearch.org''" "\<not> strIncludes url ''api-integ.familysearch.org''"
          "\<not> strIncludes url ''beta.familysearch.org''" "\<not> strIncludes url ''apibeta.familysearch.org''"
    by blast
  then show ?thesis
  proof cases
    case i
    then have "detectBaseUrl url = ''https://integration.familysearch.org''"
      by (simp add: detectBaseUrl_def)
    then show ?thesis by (simp add: detectBaseUrl_def)
  next
    case b
    then have d: "detectBaseUrl url = ''https://beta.familysearch.org''"
      by (simp add: detectBaseUrl_def)
    from b k have "\<not> strIncludes m ''integration.familysearch.org''"
      "\<not> strIncludes m ''api-integ.familysearch.org''" by blast+
    then show ?thesis unfolding d by (simp add: detectBaseUrl_def)
  next
    case w
    then have d: "detectBaseUrl url = ''https://www.familysearch.org''"
      by (simp add: detectBaseUrl_def)
    from w k have "\<not> strIncludes m ''integration.familysearch.org''"
      "\<not> strIncludes m ''api-integ.familysearch.org''"
      "\<not> strIncludes m ''beta.familysearch.org''"
      "\<not> strIncludes m ''apibeta.familysearch.org''" by blast+
    then show ?thesis unfolding d by (simp add: detectBaseUrl_def)
  qed
qed

lemma transformSourceUrl_idem:
  "transformSourceUrl (transformSourceUrl url) = transformSourceUrl url"
proof (cases "url = [] \<or> (\<not> strIncludes url ''/platform/'' \<and> strIncludes url ''ark:'') \<or> matchArk url = None")
  case True
  then show ?thesis by (auto simp: transformSourceUrl_def)
next
  case False
  then obtain m where m: "matchArk url = Some m" by auto
  define out where "out = detectBaseUrl url @ ''/'' @ m"
  from False m have t: "transformSourceUrl url = out"
    by (auto simp: transformSourceUrl_def out_def)
  from m have f: "arkAt m = Some m" and s: "sublist m url"
    using matchArk_sound by blast+
  have "matchArk out = Some m" unfolding out_def using f by (rule arkUrl_match)
  moreover have "detectBaseUrl out = detectBaseUrl url" unfolding out_def using s by (rule arkUrl_base)
  ultimately have "transformSourceUrl out = out"
    by (simp add: transformSourceUrl_def out_def)
  with t show ?thesis by simp
qed

text \<open>
  C10: both URL transforms are idempotent. The person link that \<open>transformFamilySearchUrl\<close>
  builds no longer contains \<^verbatim>\<open>/platform/tree/persons/\<close>; the ARK link that
  \<open>transformSourceUrl\<close> builds either is returned as it is, or matches the same ARK
  identifier and the same environment again.
\<close>

theorem url_transforms_idempotent:
  "transformFamilySearchUrl (transformFamilySearchUrl url) = transformFamilySearchUrl url \<and>
   transformSourceUrl (transformSourceUrl url') = transformSourceUrl url'"
  using transformFamilySearchUrl_idem transformSourceUrl_idem by simp

theorem url_transforms_idempotent_witness:
  "transformFamilySearchUrl (transformFamilySearchUrl
      ''https://apibeta.familysearch.org/platform/tree/persons/KW-1?x'') =
     transformFamilySearchUrl ''https://apibeta.familysearch.org/platform/tree/persons/KW-1?x'' \<and>
   transformSourceUrl (transformSourceUrl
      ''https://api.familysearch.org/platform/sources/ark:/61903/1:1:ABC'') =
     transformSourceUrl ''https://api.familysearch.org/platform/sources/ark:/61903/1:1:ABC''"
  by (rule url_transforms_idempotent)

end
